(* ===== verification/Chop_Prelude.thy ===== *)
theory Chop_Prelude
  imports Complex_Main "HOL-Library.Word"
begin

text \<open>
  Shared vocabulary of the development: bytes and byte strings, the error
  codes of \<^verbatim>\<open>include/chop/errors.h\<close>, results that carry an error, and generic
  facts on lists, words and partial functions.
\<close>

unbundle bit_operations_syntax

section \<open>Collections of facts\<close>

named_theorems chop_defs \<open>definitions unfolded by component proofs\<close>
named_theorems byte_simps \<open>evaluation of byte literals\<close>

section \<open>Types\<close>

type_synonym byte = "8 word"
type_synonym bytes = "byte list"

text \<open>The C strings of the program are char arrays: \<open>ascii\<close> is a literal.\<close>

definition ascii :: "string \<Rightarrow> bytes" where
  "ascii s = map of_char s"

text \<open>The codes of \<^verbatim>\<open>errors.h\<close>; a positive code is a value of \<^verbatim>\<open>errno\<close>.\<close>

datatype chop_error =
    CHOP_OK
  | CHOP_ERR_UNKNOWN_STREAM
  | CHOP_ERR_UNKNOWN_STORE
  | CHOP_ERR_NOT_FOUND
  | CHOP_ERR_NOT_IMPL
  | CHOP_INVALID_ARG
  | CHOP_OUT_OF_RANGE_ARG
  | CHOP_STREAM_END
  | CHOP_FILTER_FULL
  | CHOP_FILTER_EMPTY
  | CHOP_FILTER_UNHANDLED_FAULT
  | CHOP_FILTER_ERROR
  | CHOP_STORE_ERROR
  | CHOP_STORE_END
  | CHOP_BLOCK_INDEXER_ERROR
  | CHOP_BLOCK_FETCHER_ERROR
  | CHOP_INDEXER_ERROR
  | CHOP_INDEXER_EMPTY_SOURCE
  | CHOP_STORE_BLOCK_UNAVAIL
  | CHOP_DESERIAL_TOO_SHORT
  | CHOP_DESERIAL_CORRUPT_INPUT
  | CHOP_CIPHER_ERROR
  | CHOP_CIPHER_WEAK_KEY
  | ERRNO nat

abbreviation ENOMEM :: chop_error where "ENOMEM \<equiv> ERRNO 12"

text \<open>A call either fails with a code or returns its output parameters.\<close>

type_synonym 'a result = "chop_error + 'a"

section \<open>Lists\<close>

lemma take_append_drop_eq:
  "n \<le> length xs \<Longrightarrow> xs = take n xs @ drop n xs"
  by simp

lemma nth_append_offset [simp]:
  "(xs @ ys) ! (length xs + i) = ys ! i"
  by (simp add: nth_append)

lemma split_multiple:
  assumes "0 < n"
  obtains k ys zs where "xs = ys @ zs" "length ys = n * k" "length zs < n"
proof
  let ?k = "length xs div n"
  show "xs = take (n * ?k) xs @ drop (n * ?k) xs" by simp
  show "length (take (n * ?k) xs) = n * ?k" by simp
  show "length (drop (n * ?k) xs) < n"
    using assms by (simp add: minus_mult_div_eq_mod)
qed

lemma split_last_chunk:
  assumes "length xs = n * Suc k"
  obtains ys zs where "xs = ys @ zs" "length ys = n * k" "length zs = n"
  using assms by (intro that [of "take (n * k) xs" "drop (n * k) xs"]) auto

lemma length_eq_5:
  "length xs = 5 \<longleftrightarrow> (\<exists>a b c d e. xs = [a, b, c, d, e])"
  by (auto simp: numeral_eq_Suc length_Suc_conv)

section \<open>Words\<close>

lemma unat_byte_less [simp]: "unat (b :: byte) < 256"
  using unsigned_less [of b] by simp

section \<open>Little-endian integers\<close>

text \<open>Four bytes, least significant first.\<close>

definition le32 :: "nat \<Rightarrow> bytes" where
  "le32 n = [of_nat (n mod 256), of_nat (n div 256 mod 256), of_nat (n div 256 div 256 mod 256),
     of_nat (n div 256 div 256 div 256 mod 256)]"

definition le32_value :: "bytes \<Rightarrow> nat" where
  "le32_value bs = ((unat (bs ! 3) * 256 + unat (bs ! 2)) * 256 + unat (bs ! 1)) * 256 + unat (bs ! 0)"

lemma length_le32 [simp]: "length (le32 n) = 4"
  by (simp add: le32_def)

lemma unat_byte_of_nat: "unat (of_nat n :: byte) = n mod 256"
  by (simp add: unat_of_nat)

lemma le32_value_le32:
  assumes "n < 2 ^ 32"
  shows "le32_value (le32 n @ rest) = n"
proof -
  have "n div 256 div 256 div 256 < 256" using assms by (simp add: less_mult_imp_div_less)
  then have "n div 256 div 256 div 256 mod 256 = n div 256 div 256 div 256" by simp
  moreover have "k mod 256 + 256 * (k div 256) = k" for k :: nat by simp
  note this [of n] this [of "n div 256"] this [of "n div 256 div 256"]
  ultimately show ?thesis
    by (simp add: le32_def le32_value_def unat_byte_of_nat del: mod_mult_div_eq mult_div_mod_eq mod_div_mult_eq div_mult_mod_eq)
qed

end
