(* ===== verification/Chop_Base32.thy ===== *)
theory Chop_Base32
  imports Chop_Prelude
begin

text \<open>
  Textual encodings of keys and handles: the base32 codec of
  \<^verbatim>\<open>src/src/base32.c\<close> (a Duff's device on the way out, a loop over groups of
  eight characters on the way in) and the hexadecimal codec of
  \<^verbatim>\<open>src/src/chop.c\<close>.  Sizes are natural numbers: for buffers below
  \<^verbatim>\<open>2^29\<close> bytes no \<^verbatim>\<open>unsigned int\<close> of the encoder wraps
  (\<open>base32_no_wrap\<close>).
\<close>

section \<open>Base32: the encoder\<close>

definition BIT_MASK :: "nat \<Rightarrow> nat \<Rightarrow> byte" where
  "BIT_MASK lo hi = push_bit lo (push_bit (hi - lo + 1) 1 - 1)"

definition base32_chars :: bytes where
  "base32_chars = ascii ''abcdefghijklmnopqrstuvwxyz234567''"

text \<open>The local variables of the encoder.  \<open>b32\<close> holds the part of the output
  array from index \<open>j\<close> on, as the array is filled from right to left.\<close>

record b32_enc =
  e_i :: nat
  e_j :: nat
  e_value :: byte
  e_b32 :: bytes

text \<open>\<^verbatim>\<open>b32[--j] = base32_chars[value];\<close>\<close>

definition b32_emit :: "b32_enc \<Rightarrow> b32_enc" where
  "b32_emit s = s\<lparr>e_j := e_j s - 1, e_b32 := base32_chars ! unat (e_value s) # e_b32 s\<rparr>"

text \<open>The five stretches of the loop body, named after the \<^verbatim>\<open>case\<close> label that enters them.\<close>

definition b32_case0 :: "bytes \<Rightarrow> b32_enc \<Rightarrow> b32_enc" where
  "b32_case0 ubuf s0 =
    (let s1 = b32_emit (s0\<lparr>e_value := ubuf ! e_i s0 AND BIT_MASK 0 4\<rparr>)
     in s1\<lparr>e_value := drop_bit 5 (ubuf ! e_i s1 AND BIT_MASK 5 7), e_i := e_i s1 - 1\<rparr>)"

definition b32_case2 :: "bytes \<Rightarrow> b32_enc \<Rightarrow> b32_enc" where
  "b32_case2 ubuf s0 =
    (let s1 = b32_emit (s0\<lparr>e_value := e_value s0 OR push_bit 3 (ubuf ! e_i s0 AND BIT_MASK 0 1)\<rparr>);
         s2 = b32_emit (s1\<lparr>e_value := drop_bit 2 (ubuf ! e_i s1 AND BIT_MASK 2 6)\<rparr>)
     in s2\<lparr>e_value := drop_bit 7 (ubuf ! e_i s2 AND BIT_MASK 7 7), e_i := e_i s2 - 1\<rparr>)"

definition b32_case4 :: "bytes \<Rightarrow> b32_enc \<Rightarrow> b32_enc" where
  "b32_case4 ubuf s0 =
    (let s1 = b32_emit (s0\<lparr>e_value := e_value s0 OR push_bit 1 (ubuf ! e_i s0 AND BIT_MASK 0 3)\<rparr>)
     in s1\<lparr>e_value := drop_bit 4 (ubuf ! e_i s1 AND BIT_MASK 4 7), e_i := e_i s1 - 1\<rparr>)"

definition b32_case1 :: "bytes \<Rightarrow> b32_enc \<Rightarrow> b32_enc" where
  "b32_case1 ubuf s0 =
    (let s1 = b32_emit (s0\<lparr>e_value := e_value s0 OR push_bit 4 (ubuf ! e_i s0 AND BIT_MASK 0 0)\<rparr>);
         s2 = b32_emit (s1\<lparr>e_value := drop_bit 1 (ubuf ! e_i s1 AND BIT_MASK 1 5)\<rparr>)
     in s2\<lparr>e_value := drop_bit 6 (ubuf ! e_i s2 AND BIT_MASK 6 7), e_i := e_i s2 - 1\<rparr>)"

definition b32_case3 :: "bytes \<Rightarrow> b32_enc \<Rightarrow> b32_enc" where
  "b32_case3 ubuf s0 =
    (let s1 = b32_emit (s0\<lparr>e_value := e_value s0 OR push_bit 2 (ubuf ! e_i s0 AND BIT_MASK 0 2)\<rparr>)
     in b32_emit (s1\<lparr>e_value := drop_bit 3 (ubuf ! e_i s1 AND BIT_MASK 3 7), e_i := e_i s1 - 1\<rparr>))"

text \<open>The fall-through chains, one per entry point, and the back edge
  \<^verbatim>\<open>while (j >= 8)\<close> that goes to \<^verbatim>\<open>do\<close>.\<close>

definition b32_from3 :: "bytes \<Rightarrow> b32_enc \<Rightarrow> b32_enc" where
  "b32_from3 ubuf s = b32_case3 ubuf s"

definition b32_from1 :: "bytes \<Rightarrow> b32_enc \<Rightarrow> b32_enc" where
  "b32_from1 ubuf s = b32_from3 ubuf (b32_case1 ubuf s)"

definition b32_from4 :: "bytes \<Rightarrow> b32_enc \<Rightarrow> b32_enc" where
  "b32_from4 ubuf s = b32_from1 ubuf (b32_case4 ubuf s)"

definition b32_from2 :: "bytes \<Rightarrow> b32_enc \<Rightarrow> b32_enc" where
  "b32_from2 ubuf s = b32_from4 ubuf (b32_case2 ubuf s)"

definition b32_from0 :: "bytes \<Rightarrow> b32_enc \<Rightarrow> b32_enc" where
  "b32_from0 ubuf s = b32_from2 ubuf (b32_case0 ubuf s)"

lemmas b32_body_defs =
  b32_from0_def b32_from2_def b32_from4_def b32_from1_def b32_from3_def
  b32_case0_def b32_case2_def b32_case4_def b32_case1_def b32_case3_def b32_emit_def

lemma b32_from0_j [simp]: "e_j (b32_from0 ubuf s) = e_j s - 8"
  by (simp add: b32_body_defs Let_def)

function b32_while :: "bytes \<Rightarrow> b32_enc \<Rightarrow> b32_enc" where
  "b32_while ubuf s = (if 8 \<le> e_j s then b32_while ubuf (b32_from0 ubuf s) else s)"
  by auto
termination
  by (relation "measure (\<lambda>(ubuf, s). e_j s)") auto

declare b32_while.simps [simp del]

definition b32_switch :: "nat \<Rightarrow> bytes \<Rightarrow> b32_enc \<Rightarrow> b32_enc" where
  "b32_switch m ubuf s =
    (if m = 0 then b32_while ubuf (b32_from0 ubuf s)
     else if m = 2 then b32_while ubuf (b32_from2 ubuf s)
     else if m = 4 then b32_while ubuf (b32_from4 ubuf s)
     else if m = 1 then b32_while ubuf (b32_from1 ubuf s)
     else b32_while ubuf (b32_from3 ubuf s))"

text \<open>The string written to \<^verbatim>\<open>b32\<close>, without its final NUL.\<close>

definition chop_buffer_to_base32_string :: "bytes \<Rightarrow> bytes" where
  "chop_buffer_to_base32_string buffer =
    (let size = length buffer in
     if size = 0 then []
     else let quintets = (size * 8 + 4) div 5;
              s = b32_switch ((size * 8) mod 5) buffer
                    \<lparr>e_i = size - 1, e_j = quintets, e_value = 0, e_b32 = []\<rparr>;
              padding = (if quintets mod 8 \<noteq> 0 then 8 - quintets mod 8 else 0)
          in e_b32 s @ replicate padding (of_char CHR ''=''))"

section \<open>Base32: RFC 4648\<close>

text \<open>The encoding of RFC 4648: the bits of the input, most significant first,
  in groups of five, the last group filled with zero bits; then \<^verbatim>\<open>=\<close> up to a
  multiple of eight characters.\<close>

definition byte_bits :: "byte \<Rightarrow> bool list" where
  "byte_bits b = [bit b 7, bit b 6, bit b 5, bit b 4, bit b 3, bit b 2, bit b 1, bit b 0]"

definition bit_at :: "bool list \<Rightarrow> nat \<Rightarrow> byte" where
  "bit_at bs k = of_bool (k < length bs \<and> bs ! k)"

definition quintet :: "bool list \<Rightarrow> byte" where
  "quintet bs = push_bit 4 (bit_at bs 0) OR push_bit 3 (bit_at bs 1) OR push_bit 2 (bit_at bs 2)
     OR push_bit 1 (bit_at bs 3) OR bit_at bs 4"

function rfc4648_quintets :: "bool list \<Rightarrow> byte list" where
  "rfc4648_quintets bs = (if bs = [] then [] else quintet (take 5 bs) # rfc4648_quintets (drop 5 bs))"
  by auto
termination by (relation "measure length") auto

declare rfc4648_quintets.simps [simp del]

definition rfc4648_chars :: "bytes \<Rightarrow> bytes" where
  "rfc4648_chars xs =
     map (\<lambda>q. base32_chars ! unat q) (rfc4648_quintets (concat (map byte_bits xs)))"

definition rfc4648_base32 :: "bytes \<Rightarrow> bytes" where
  "rfc4648_base32 xs =
    (let cs = rfc4648_chars xs
     in cs @ replicate ((8 - length cs mod 8) mod 8) (of_char CHR ''=''))"

lemma rfc4648_quintets_Nil [simp]: "rfc4648_quintets [] = []"
  by (simp add: rfc4648_quintets.simps)

lemma rfc4648_quintets_Cons [simp]:
  "rfc4648_quintets (b # bs) = quintet (take 5 (b # bs)) # rfc4648_quintets (drop 5 (b # bs))"
  by (subst rfc4648_quintets.simps) simp

lemma length_byte_bits [simp]: "length (byte_bits b) = 8"
  by (simp add: byte_bits_def)

lemma rfc4648_quintets_append:
  "length bs = 5 * k \<Longrightarrow> rfc4648_quintets (bs @ cs) = rfc4648_quintets bs @ rfc4648_quintets cs"
proof (induction k arbitrary: bs)
  case (Suc k)
  have ne: "bs \<noteq> []" and len: "5 \<le> length bs" using Suc.prems by auto
  have "rfc4648_quintets (drop 5 bs @ cs) = rfc4648_quintets (drop 5 bs) @ rfc4648_quintets cs"
    using Suc.prems by (intro Suc.IH) simp
  with ne len show ?case
    by (subst rfc4648_quintets.simps, subst (2) rfc4648_quintets.simps) simp
qed simp

lemma length_concat_byte_bits [simp]: "length (concat (map byte_bits xs)) = 8 * length xs"
  by (induction xs) simp_all

lemma rfc4648_chars_append:
  "length xs = 5 * k \<Longrightarrow> rfc4648_chars (xs @ ys) = rfc4648_chars xs @ rfc4648_chars ys"
  unfolding rfc4648_chars_def by (simp add: rfc4648_quintets_append [where k = "8 * k"])

lemma rfc4648_chars_Nil [simp]: "rfc4648_chars [] = []"
  by (simp add: rfc4648_chars_def)

section \<open>Base32: the Duff's device computes RFC 4648\<close>

declare push_bit_and [simp del] push_bit_or [simp del] drop_bit_and [simp del] drop_bit_or [simp del]
  push_bit_Suc [simp del] One_nat_def [simp del]

lemma byte_eqI:
  fixes a b :: byte
  assumes "bit a 0 = bit b 0" "bit a 1 = bit b 1" "bit a 2 = bit b 2" "bit a 3 = bit b 3"
    "bit a 4 = bit b 4" "bit a 5 = bit b 5" "bit a 6 = bit b 6" "bit a 7 = bit b 7"
  shows "a = b"
proof (rule bit_word_eqI)
  fix n :: nat
  assume "n < LENGTH(8)"
  then have "n = 0 \<or> n = 1 \<or> n = 2 \<or> n = 3 \<or> n = 4 \<or> n = 5 \<or> n = 6 \<or> n = 7"
    by auto
  with assms show "bit a n = bit b n" by auto
qed

lemma bit_BIT_MASK [simp]:
  "lo \<le> hi \<Longrightarrow> bit (BIT_MASK lo hi) n \<longleftrightarrow> lo \<le> n \<and> n \<le> hi \<and> n < 8"
proof -
  assume "lo \<le> hi"
  have "BIT_MASK lo hi = push_bit lo (mask (hi - lo + 1))"
    by (simp add: BIT_MASK_def mask_eq_exp_minus_1 push_bit_of_1)
  with \<open>lo \<le> hi\<close> show ?thesis by (auto simp: bit_simps)
qed

lemma quintet_words:
  fixes a b :: byte
  shows "drop_bit 3 (a AND BIT_MASK 3 7) = quintet [bit a 7, bit a 6, bit a 5, bit a 4, bit a 3]"
    and "push_bit 2 (a AND BIT_MASK 0 2) = quintet [bit a 2, bit a 1, bit a 0]"
    and "drop_bit 6 (b AND BIT_MASK 6 7) OR quintet [x, y, z]
         = quintet [x, y, z, bit b 7, bit b 6]"
    and "drop_bit 1 (a AND BIT_MASK 1 5) = quintet [bit a 5, bit a 4, bit a 3, bit a 2, bit a 1]"
    and "push_bit 4 (a AND BIT_MASK 0 0) = quintet [bit a 0]"
    and "drop_bit 4 (b AND BIT_MASK 4 7) OR quintet [x]
         = quintet [x, bit b 7, bit b 6, bit b 5, bit b 4]"
    and "push_bit 1 (a AND BIT_MASK 0 3) = quintet [bit a 3, bit a 2, bit a 1, bit a 0]"
    and "drop_bit 7 (b AND BIT_MASK 7 7) OR quintet [x, y, z, w]
         = quintet [x, y, z, w, bit b 7]"
    and "drop_bit 2 (a AND BIT_MASK 2 6) = quintet [bit a 6, bit a 5, bit a 4, bit a 3, bit a 2]"
    and "push_bit 3 (a AND BIT_MASK 0 1) = quintet [bit a 1, bit a 0]"
    and "drop_bit 5 (b AND BIT_MASK 5 7) OR quintet [x, y]
         = quintet [x, y, bit b 7, bit b 6, bit b 5]"
    and "a AND BIT_MASK 0 4 = quintet [bit a 4, bit a 3, bit a 2, bit a 1, bit a 0]"
  by (rule byte_eqI; simp add: quintet_def bit_at_def bit_simps numeral_eq_Suc One_nat_def)+

lemmas rfc4648_chars_simps = rfc4648_chars_def byte_bits_def

lemma b32_from0_spec:
  assumes "e_i s = i + 4"
  shows "e_b32 (b32_from0 u s) = rfc4648_chars [u!i, u!(Suc i), u!(i+2), u!(i+3), u!(i+4)] @ e_b32 s"
    and "e_i (b32_from0 u s) = i - 1"
  using assms by (simp_all add: b32_body_defs Let_def quintet_words rfc4648_chars_simps add.commute)

text \<open>Entering in the middle encodes the last, incomplete group.\<close>

lemma b32_partial_spec:
  assumes "e_value s = 0"
  shows "e_i s = i \<Longrightarrow> e_b32 (b32_from3 u s) = rfc4648_chars [u!i] @ e_b32 s"
    and "e_i s = Suc i \<Longrightarrow> e_b32 (b32_from1 u s) = rfc4648_chars [u!i, u!(Suc i)] @ e_b32 s"
    and "e_i s = i + 2 \<Longrightarrow> e_b32 (b32_from4 u s) = rfc4648_chars [u!i, u!(Suc i), u!(i+2)] @ e_b32 s"
    and "e_i s = i + 3 \<Longrightarrow>
      e_b32 (b32_from2 u s) = rfc4648_chars [u!i, u!(Suc i), u!(i+2), u!(i+3)] @ e_b32 s"
  using assms
  by (simp_all add: b32_body_defs Let_def quintet_words rfc4648_chars_simps add.commute)

lemma b32_partial_ij:
  "e_i (b32_from3 u s) = e_i s - 1" "e_j (b32_from3 u s) = e_j s - 2"
  "e_i (b32_from1 u s) = e_i s - 2" "e_j (b32_from1 u s) = e_j s - 4"
  "e_i (b32_from4 u s) = e_i s - 3" "e_j (b32_from4 u s) = e_j s - 5"
  "e_i (b32_from2 u s) = e_i s - 4" "e_j (b32_from2 u s) = e_j s - 7"
  by (simp_all add: b32_body_defs Let_def)

lemma b32_while_spec:
  assumes "length ys = 5 * k" "e_j s = 8 * k" "e_i s = 5 * k - 1"
  shows "e_b32 (b32_while (ys @ zs) s) = rfc4648_chars ys @ e_b32 s"
  using assms
proof (induction k arbitrary: ys zs s)
  case 0
  then show ?case by (simp add: b32_while.simps)
next
  case (Suc k)
  from Suc.prems(1) obtain xs gs where xs: "ys = xs @ gs" "length xs = 5 * k" "length gs = 5"
    by (rule split_last_chunk)
  then obtain a b c d e where gs: "gs = [a, b, c, d, e]" by (auto simp: length_eq_5)
  let ?u = "ys @ zs" and ?i = "5 * k"
  have i: "e_i s = ?i + 4" using Suc.prems by simp
  have grp: "[?u!?i, ?u!(Suc ?i), ?u!(?i+2), ?u!(?i+3), ?u!(?i+4)] = gs"
    using xs gs by (simp add: nth_append)
  have "e_b32 (b32_while (xs @ (gs @ zs)) (b32_from0 ?u s))
      = rfc4648_chars xs @ e_b32 (b32_from0 ?u s)"
    using Suc.prems xs by (intro Suc.IH) (simp_all add: b32_from0_spec [OF i])
  moreover have "e_b32 (b32_from0 ?u s) = rfc4648_chars gs @ e_b32 s"
    by (simp only: b32_from0_spec(1) [OF i] grp)
  moreover have "rfc4648_chars ys = rfc4648_chars xs @ rfc4648_chars gs"
    using xs by (simp add: rfc4648_chars_append)
  ultimately show ?case
    using Suc.prems xs by (subst b32_while.simps) simp
qed

lemma length_rfc4648_quintets:
  "length (rfc4648_quintets bs) = (length bs + 4) div 5"
proof (induction bs rule: rfc4648_quintets.induct)
  case (1 bs)
  show ?case
  proof (cases "bs = []")
    case False
    then have "length (rfc4648_quintets bs) = Suc ((length bs - 5 + 4) div 5)"
      using 1 by (subst rfc4648_quintets.simps) simp
    also have "\<dots> = (length bs + 4) div 5"
      using False by (cases "5 \<le> length bs") (auto simp: Suc_leI div_nat_eqI not_le le_div_geq)
    finally show ?thesis .
  qed simp
qed

lemma length_rfc4648_chars: "length (rfc4648_chars xs) = (length xs * 8 + 4) div 5"
  by (simp add: rfc4648_chars_def length_rfc4648_quintets mult.commute)

text \<open>What the switch and the loop together leave in the output array.\<close>

lemma b32_switch_spec:
  assumes "xs \<noteq> []"
  shows "e_b32 (b32_switch ((length xs * 8) mod 5) xs
           \<lparr>e_i = length xs - 1, e_j = (length xs * 8 + 4) div 5, e_value = 0, e_b32 = []\<rparr>)
         = rfc4648_chars xs"
proof -
  obtain k ys zs where xs: "xs = ys @ zs" "length ys = 5 * k" "length zs < 5"
    by (rule split_multiple [of 5 xs]) simp
  have app: "rfc4648_chars xs = rfc4648_chars ys @ rfc4648_chars zs"
    using xs by (simp add: rfc4648_chars_append)
  consider "zs = []" | a where "zs = [a]" | a b where "zs = [a, b]"
    | a b c where "zs = [a, b, c]" | a b c d where "zs = [a, b, c, d]"
    using xs(3) by (cases zs; cases "tl zs"; cases "tl (tl zs)"; cases "tl (tl (tl zs))";
        cases "tl (tl (tl (tl zs)))") auto
  then show ?thesis
  proof cases
    case 1
    let ?s = "\<lparr>e_i = 5 * k - 1, e_j = 8 * k, e_value = 0, e_b32 = []\<rparr>"
    from 1 xs assms have "0 < k" by (cases k) auto
    then have "b32_while xs (b32_from0 xs ?s) = b32_while xs ?s"
      by (subst (2) b32_while.simps) simp
    moreover have "e_b32 (b32_while (ys @ zs) ?s) = rfc4648_chars ys"
      using xs by (subst b32_while_spec) simp_all
    moreover have "(40 * k + 4) div 5 = 8 * k" by presburger
    ultimately show ?thesis
      using 1 xs app by (simp add: b32_switch_def)
  next
    case 2
    have "length xs = 5 * k + 1" using 2 xs by simp
    then have ar: "length xs * 8 mod 5 = 3" "(length xs * 8 + 4) div 5 = 8 * k + 2" by presburger+
    show ?thesis
      unfolding ar using 2 xs app
      by (simp add: b32_switch_def b32_while_spec b32_partial_ij nth_append
          b32_partial_spec(1) [where i = "5 * k"])
  next
    case 3
    have "length xs = 5 * k + 2" using 3 xs by simp
    then have ar: "length xs * 8 mod 5 = 1" "(length xs * 8 + 4) div 5 = 8 * k + 4" by presburger+
    show ?thesis
      unfolding ar using 3 xs app
      by (simp add: b32_switch_def b32_while_spec b32_partial_ij nth_append
          b32_partial_spec(2) [where i = "5 * k"])
  next
    case 4
    have "length xs = 5 * k + 3" using 4 xs by simp
    then have ar: "length xs * 8 mod 5 = 4" "(length xs * 8 + 4) div 5 = 8 * k + 5" by presburger+
    show ?thesis
      unfolding ar using 4 xs app
      by (simp add: b32_switch_def b32_while_spec b32_partial_ij nth_append
          b32_partial_spec(3) [where i = "5 * k"])
  next
    case 5
    have "length xs = 5 * k + 4" using 5 xs by simp
    then have ar: "length xs * 8 mod 5 = 2" "(length xs * 8 + 4) div 5 = 8 * k + 7" by presburger+
    show ?thesis
      unfolding ar using 5 xs app
      by (simp add: b32_switch_def b32_while_spec b32_partial_ij nth_append
          b32_partial_spec(4) [where i = "5 * k"])
  qed
qed

lemma base32_encode_spec: "chop_buffer_to_base32_string xs = rfc4648_base32 xs"
proof (cases "xs = []")
  case True
  then show ?thesis
    by (simp add: chop_buffer_to_base32_string_def rfc4648_base32_def)
next
  case False
  have pad: "(if q mod 8 \<noteq> 0 then 8 - q mod 8 else 0) = (8 - q mod 8) mod 8" for q :: nat
    by simp
  from False b32_switch_spec [OF False] show ?thesis
    by (simp add: chop_buffer_to_base32_string_def rfc4648_base32_def Let_def
        length_rfc4648_chars pad)
qed


section \<open>Base32: the decoder\<close>

definition toupper :: "byte \<Rightarrow> byte" where
  "toupper c = (if of_char CHR ''a'' \<le> c \<and> c \<le> of_char CHR ''z'' then c - 32 else c)"

definition is_base32 :: "byte \<Rightarrow> bool" where
  "is_base32 c0 =
    (let c = toupper c0
     in (of_char CHR ''A'' \<le> c \<and> c \<le> of_char CHR ''Z'')
        \<or> (of_char CHR ''2'' \<le> c \<and> c \<le> of_char CHR ''7''))"

text \<open>The table \<^verbatim>\<open>base32_values\<close>: entries without an initialiser are zero.\<close>

definition base32_value :: "byte \<Rightarrow> byte" where
  "base32_value c0 =
    (let c = toupper c0
     in if of_char CHR ''A'' \<le> c \<and> c \<le> of_char CHR ''Z'' then c - of_char CHR ''A''
        else if of_char CHR ''2'' \<le> c \<and> c \<le> of_char CHR ''7'' then c - of_char CHR ''2'' + 26
        else 0)"

text \<open>\<^verbatim>\<open>CONSUME_QUINTET\<close> either continues with the value of the character, or leaves
  the loop at that index: by \<^verbatim>\<open>goto skip_padding\<close> on \<^verbatim>\<open>=\<close> or by \<^verbatim>\<open>break\<close>.  What
  was decoded is \<open>out\<close>, the bytes below \<^verbatim>\<open>j\<close>.\<close>

datatype b32_exit = Skip_Padding nat bytes | Break nat bytes

definition CONSUME_QUINTET ::
  "bytes \<Rightarrow> nat \<Rightarrow> bytes \<Rightarrow> (byte \<Rightarrow> b32_exit + bytes) \<Rightarrow> b32_exit + bytes" where
  "CONSUME_QUINTET arr idx out k =
    (if arr ! idx = of_char CHR ''='' then Inl (Skip_Padding idx out)
     else if \<not> is_base32 (arr ! idx) then Inl (Break idx out)
     else k (base32_value (arr ! idx)))"

text \<open>One round of the loop; \<open>oj\<close> is the byte under construction, \<^verbatim>\<open>out[j]\<close>.\<close>

definition b32_group :: "bytes \<Rightarrow> nat \<Rightarrow> bytes \<Rightarrow> b32_exit + bytes" where
  "b32_group b32 i out =
    CONSUME_QUINTET b32 i out (\<lambda>value. let oj = push_bit 3 value in
    CONSUME_QUINTET b32 (i + 1) out (\<lambda>value.
      let out = out @ [oj OR drop_bit 2 (value AND BIT_MASK 2 4)];
          oj = push_bit 6 (value AND BIT_MASK 0 1) in
    CONSUME_QUINTET b32 (i + 2) out (\<lambda>value. let oj = oj OR push_bit 1 value in
    CONSUME_QUINTET b32 (i + 3) out (\<lambda>value.
      let out = out @ [oj OR drop_bit 4 (value AND BIT_MASK 4 4)];
          oj = push_bit 4 (value AND BIT_MASK 0 3) in
    CONSUME_QUINTET b32 (i + 4) out (\<lambda>value.
      let out = out @ [oj OR drop_bit 1 (value AND BIT_MASK 1 4)];
          oj = push_bit 7 (value AND BIT_MASK 0 0) in
    CONSUME_QUINTET b32 (i + 5) out (\<lambda>value. let oj = oj OR push_bit 2 value in
    CONSUME_QUINTET b32 (i + 6) out (\<lambda>value.
      let out = out @ [oj OR drop_bit 3 (value AND BIT_MASK 3 4)];
          oj = push_bit 5 (value AND BIT_MASK 0 2) in
    CONSUME_QUINTET b32 (i + 7) out (\<lambda>value. Inr (out @ [oj OR value])))))))))"

text \<open>The loop over groups: how it is left, with \<^verbatim>\<open>left\<close>.\<close>

function b32_groups :: "bytes \<Rightarrow> nat \<Rightarrow> nat \<Rightarrow> nat \<Rightarrow> bytes \<Rightarrow> b32_exit \<times> nat" where
  "b32_groups b32 sz i left out =
    (if i < sz \<and> 8 \<le> left then
       (case b32_group b32 i out of
          Inl ex \<Rightarrow> (ex, left)
        | Inr out' \<Rightarrow> b32_groups b32 sz (i + 8) (left - 8) out')
     else (Break i out, left))"
  by auto
termination
  by (relation "measure (\<lambda>(b32, sz, i, left, out). left)") auto

declare b32_groups.simps [simp del]

text \<open>The second loop, entered at its body by \<^verbatim>\<open>goto\<close>.\<close>

function b32_skip_padding :: "bytes \<Rightarrow> nat \<Rightarrow> nat \<Rightarrow> nat" where
  "b32_skip_padding b32 i left =
    (if b32 ! i \<noteq> of_char CHR ''='' then i
     else if (i + 1) mod 8 \<noteq> 0 \<and> 0 < left - 1 then b32_skip_padding b32 (i + 1) (left - 1)
     else i + 1)"
  by auto
termination
  by (relation "measure (\<lambda>(b32, i, left). left)") auto

declare b32_skip_padding.simps [simp del]

text \<open>The bytes written and the offset of \<^verbatim>\<open>*end\<close> in the input.\<close>

definition chop_base32_string_to_buffer :: "bytes \<Rightarrow> nat \<Rightarrow> bytes \<times> nat" where
  "chop_base32_string_to_buffer b32 sz =
    (case b32_groups b32 sz 0 sz [] of
       (Skip_Padding i out, left) \<Rightarrow> (out, b32_skip_padding b32 i left)
     | (Break i out, left) \<Rightarrow>
         (out, if i mod 8 \<noteq> 0 \<and> 0 < left then b32_skip_padding b32 i left else i))"

section \<open>Base32: round trip\<close>

lemma base32_chars_eval:
  "base32_chars = [97, 98, 99, 100, 101, 102, 103, 104, 105, 106, 107, 108, 109, 110, 111, 112, 113,
     114, 115, 116, 117, 118, 119, 120, 121, 122, 50, 51, 52, 53, 54, 55]"
  by (simp add: base32_chars_def ascii_def)

lemma base32_char_props:
  "\<forall>v \<in> set [0..<32]. base32_chars ! v \<noteq> of_char CHR ''='' \<and> is_base32 (base32_chars ! v)
     \<and> base32_value (base32_chars ! v) = of_nat v"
  by (simp add: base32_chars_eval upt_rec is_base32_def base32_value_def toupper_def Let_def)

lemma quintet_less: "unat (quintet bs) < 32"
proof -
  have "take_bit 5 (quintet bs) = quintet bs"
    by (rule byte_eqI; simp add: quintet_def bit_at_def bit_simps numeral_eq_Suc One_nat_def)
  then have "take_bit 5 (unat (quintet bs)) = unat (quintet bs)"
    by (metis unsigned_take_bit_eq)
  then show ?thesis
    using take_bit_nat_less_exp [of 5 "unat (quintet bs)"] by simp
qed

lemma consume_char:
  assumes "arr ! idx = base32_chars ! unat (quintet bs)"
  shows "CONSUME_QUINTET arr idx out k = k (quintet bs)"
proof -
  have "unat (quintet bs) \<in> set [0..<32]" using quintet_less by simp
  then show ?thesis
    using assms base32_char_props by (simp add: CONSUME_QUINTET_def del: set_upt)
qed

lemma consume_padding:
  "arr ! idx = of_char CHR ''='' \<Longrightarrow> CONSUME_QUINTET arr idx out k = Inl (Skip_Padding idx out)"
  by (simp add: CONSUME_QUINTET_def)

text \<open>Two neighbouring quintets give back the byte they were cut from.\<close>

lemma quintet_join:
  fixes a :: byte
  shows "push_bit 3 (quintet [bit a 7, bit a 6, bit a 5, bit a 4, bit a 3])
           OR drop_bit 2 (quintet (bit a 2 # bit a 1 # bit a 0 # xs) AND BIT_MASK 2 4) = a"
    and "(push_bit 6 (quintet [x, y, z, bit a 7, bit a 6] AND BIT_MASK 0 1)
           OR push_bit 1 (quintet [bit a 5, bit a 4, bit a 3, bit a 2, bit a 1]))
           OR drop_bit 4 (quintet (bit a 0 # xs) AND BIT_MASK 4 4) = a"
    and "push_bit 4 (quintet [x, bit a 7, bit a 6, bit a 5, bit a 4] AND BIT_MASK 0 3)
           OR drop_bit 1 (quintet (bit a 3 # bit a 2 # bit a 1 # bit a 0 # xs) AND BIT_MASK 1 4) = a"
    and "(push_bit 7 (quintet [x, y, z, w, bit a 7] AND BIT_MASK 0 0)
           OR push_bit 2 (quintet [bit a 6, bit a 5, bit a 4, bit a 3, bit a 2]))
           OR drop_bit 3 (quintet (bit a 1 # bit a 0 # xs) AND BIT_MASK 3 4) = a"
    and "push_bit 5 (quintet [x, y, bit a 7, bit a 6, bit a 5] AND BIT_MASK 0 2)
           OR quintet [bit a 4, bit a 3, bit a 2, bit a 1, bit a 0] = a"
  by (rule byte_eqI; simp add: quintet_def bit_at_def bit_simps numeral_eq_Suc One_nat_def)+

lemma all_less_8:
  "(\<forall>n < 8. P (n::nat)) \<longleftrightarrow> P 0 \<and> P 1 \<and> P 2 \<and> P 3 \<and> P 4 \<and> P 5 \<and> P 6 \<and> P 7"
  by (simp add: numeral_eq_Suc All_less_Suc One_nat_def) blast

lemma b32_group_full:
  assumes "\<forall>n < 8. arr ! (i + n) = rfc4648_chars [a, b, c, d, e] ! n"
  shows "b32_group arr i out = Inr (out @ [a, b, c, d, e])"
  using assms
  by (simp add: all_less_8 b32_group_def Let_def rfc4648_chars_simps consume_char quintet_join)

lemma b32_group_partial:
  assumes "\<forall>n < 8. arr ! (i + n) = rfc4648_base32 zs ! n" "zs \<noteq> []" "length zs < 5"
  shows "b32_group arr i out = Inl (Skip_Padding (i + length (rfc4648_chars zs)) (out @ zs))"
proof -
  consider a where "zs = [a]" | a b where "zs = [a, b]"
    | a b c where "zs = [a, b, c]" | a b c d where "zs = [a, b, c, d]"
    using assms(2,3) by (cases zs; cases "tl zs"; cases "tl (tl zs)"; cases "tl (tl (tl zs))";
        cases "tl (tl (tl (tl zs)))") auto
  then show ?thesis
    using assms(1)
    by cases (simp_all add: all_less_8 b32_group_def Let_def rfc4648_base32_def rfc4648_chars_simps
        consume_char consume_padding quintet_join)
qed

lemma b32_skip_padding_spec:
  assumes "i < e" "8 dvd e" "e < i + 8" "e - i \<le> left"
    and "\<forall>m. i \<le> m \<and> m < e \<longrightarrow> arr ! m = of_char CHR ''=''"
  shows "b32_skip_padding arr i left = e"
  using assms
proof (induction "e - i" arbitrary: i left)
  case (Suc n)
  show ?case
  proof (cases "i + 1 = e")
    case True
    with Suc.prems show ?thesis by (subst b32_skip_padding.simps) simp
  next
    case False
    with Suc.prems have "(i + 1) mod 8 \<noteq> 0" by presburger
    with False Suc.prems Suc.hyps(2) show ?thesis
      by (subst b32_skip_padding.simps) (simp, intro conjI impI Suc.hyps(1); simp)
  qed
qed simp

lemma length_rfc4648_chars_5:
  "length xs = 5 * k \<Longrightarrow> length (rfc4648_chars xs) = 8 * k"
proof -
  assume "length xs = 5 * k"
  then have "length xs * 8 + 4 = 40 * k + 4" by simp
  then show ?thesis unfolding length_rfc4648_chars by presburger
qed

lemma rfc4648_base32_append:
  assumes "length ys = 5 * k"
  shows "rfc4648_base32 (ys @ zs) = rfc4648_chars ys @ rfc4648_base32 zs"
proof -
  have "(8 * k + m) mod 8 = m mod 8" for m :: nat by simp
  with assms show ?thesis
    by (simp add: rfc4648_base32_def Let_def rfc4648_chars_append length_rfc4648_chars_5)
qed

lemma b32_groups_full:
  assumes "length ys = 5 * k"
  shows "b32_groups (pre @ rfc4648_chars ys @ rest) (length pre + 8 * k + l)
            (length pre) (8 * k + l) out
       = b32_groups (pre @ rfc4648_chars ys @ rest) (length pre + 8 * k + l)
            (length pre + 8 * k) (l) (out @ ys)"
  using assms
proof (induction k arbitrary: pre ys out)
  case (Suc k)
  then obtain g xs where ys: "ys = g @ xs" "length g = 5 * 1" "length xs = 5 * k"
    by (intro that [of "take 5 ys" "drop 5 ys"]) auto
  then obtain a b c d e where g: "g = [a, b, c, d, e]" by (auto simp: length_eq_5)
  let ?c = "rfc4648_chars g" and ?arr = "pre @ rfc4648_chars ys @ rest"
  have len: "length ?c = 8" using length_rfc4648_chars_5 [OF ys(2)] by simp
  have arr: "?arr = (pre @ ?c) @ rfc4648_chars xs @ rest"
    unfolding ys(1) by (simp add: rfc4648_chars_append [OF ys(2)])
  have "\<forall>n < 8. ?arr ! (length pre + n) = ?c ! n"
    unfolding arr using len by (simp add: nth_append)
  then have "b32_group ?arr (length pre) out = Inr (out @ g)"
    unfolding g by (rule b32_group_full)
  then have "b32_groups ?arr (length pre + 8 * Suc k + l) (length pre)
        (8 * Suc k + l) out
      = b32_groups ?arr (length pre + 8 * Suc k + l) (length pre + 8)
        (8 * k + l) (out @ g)"
    by (subst b32_groups.simps) simp
  moreover have "length pre + 8 + 8 * k + l = length pre + 8 * Suc k + l"
    and "length pre + 8 + 8 * k = length pre + 8 * Suc k"
    by simp_all
  ultimately show ?case
    using Suc.IH [OF ys(3), of "pre @ ?c" "out @ g", folded arr] len ys(1)
    by (simp only: length_append append_assoc)
qed simp

lemma base32_round_trip:
  "chop_base32_string_to_buffer (chop_buffer_to_base32_string xs @ rest)
     (length (chop_buffer_to_base32_string xs))
   = (xs, length (chop_buffer_to_base32_string xs))"
proof -
  obtain k ys zs where xs: "xs = ys @ zs" "length ys = 5 * k" "length zs < 5"
    by (rule split_multiple [of 5 xs]) simp
  let ?r = "rfc4648_base32 zs" and ?arr = "rfc4648_base32 xs @ rest"
  have arr: "?arr = rfc4648_chars ys @ ?r @ rest" using xs by (simp add: rfc4648_base32_append)
  have len: "length (rfc4648_base32 xs) = 8 * k + length ?r"
    using xs by (simp add: rfc4648_base32_append length_rfc4648_chars_5)
  have groups: "b32_groups ?arr (8 * k + length ?r) 0 (8 * k + length ?r) []
      = b32_groups ?arr (8 * k + length ?r) (8 * k) (length ?r) ys"
    using b32_groups_full [OF xs(2), of "[]" "?r @ rest" "length ?r" "[]"]
    by (simp only: arr [symmetric] append_Nil list.size(3) add_0)
  show ?thesis
  proof (cases "zs = []")
    case True
    then have "?r = []" by (simp add: rfc4648_base32_def)
    with groups len xs True show ?thesis
      by (simp add: chop_base32_string_to_buffer_def base32_encode_spec b32_groups.simps [of _ _ "8 * k"])
  next
    case False
    let ?q = "length (rfc4648_chars zs)"
    have q: "0 < ?q" "?q < 8"
      using False xs(3) by (auto simp: length_rfc4648_chars length_greater_0_conv [symmetric]
          simp del: length_greater_0_conv)
    then have r8: "length ?r = 8" by (simp add: rfc4648_base32_def Let_def)
    have nth: "?arr ! (8 * k + n) = ?r ! n" if "n < 8" for n
      unfolding arr using xs(2) r8 that by (simp add: nth_append length_rfc4648_chars_5)
    have "b32_group ?arr (8 * k) ys = Inl (Skip_Padding (8 * k + ?q) (ys @ zs))"
      using False xs(3) nth by (intro b32_group_partial) blast+
    moreover have "b32_skip_padding ?arr (8 * k + ?q) 8 = 8 * k + 8"
    proof (rule b32_skip_padding_spec)
      show "\<forall>m. 8 * k + ?q \<le> m \<and> m < 8 * k + 8 \<longrightarrow> ?arr ! m = of_char CHR ''=''"
      proof (intro allI impI)
        fix m
        assume "8 * k + ?q \<le> m \<and> m < 8 * k + 8"
        then obtain n where n: "m = 8 * k + n" "?q \<le> n" "n < 8"
          by (auto intro: that [of "m - 8 * k"])
        have "?r ! n = of_char CHR ''=''"
          using n q by (simp add: rfc4648_base32_def Let_def nth_append)
        then show "?arr ! m = of_char CHR ''=''" by (simp only: n nth)
      qed
    qed (use q in auto)
    ultimately show ?thesis
      using groups len r8 xs
      by (simp add: chop_base32_string_to_buffer_def base32_encode_spec b32_groups.simps [of _ _ "8 * k"])
  qed
qed


lemma base32_no_wrap:
  assumes "length xs < 2 ^ 29"
  shows "length xs * 8 + 4 < 2 ^ 32" and "length (chop_buffer_to_base32_string xs) < 2 ^ 32"
  using assms by (auto simp: base32_encode_spec rfc4648_base32_def Let_def length_rfc4648_chars)

section \<open>Hexadecimal strings\<close>

definition hex_tochar :: "byte \<Rightarrow> byte" where
  "hex_tochar num = (if num < 10 then of_char CHR ''0'' + num else of_char CHR ''a'' - 10 + num)"

primrec chop_buffer_to_hex_string :: "bytes \<Rightarrow> bytes" where
  "chop_buffer_to_hex_string [] = []"
| "chop_buffer_to_hex_string (p # ps) =
     hex_tochar (drop_bit 4 p) # hex_tochar (p AND 0xf) # chop_buffer_to_hex_string ps"

definition isxdigit :: "byte \<Rightarrow> bool" where
  "isxdigit c =
    ((of_char CHR ''0'' \<le> c \<and> c \<le> of_char CHR ''9'') \<or> (of_char CHR ''a'' \<le> c \<and> c \<le> of_char CHR ''f'')
     \<or> (of_char CHR ''A'' \<le> c \<and> c \<le> of_char CHR ''F''))"

definition hex_tonum :: "byte \<Rightarrow> byte" where
  "hex_tonum c = (if of_char CHR ''a'' \<le> c then c - of_char CHR ''a'' + 10 else c - of_char CHR ''0'')"

text \<open>\<open>hex\<close> is the memory the pointer designates, \<open>p\<close> the offset reached and
  \<open>end_of_buf\<close> the bound, which is computed before \<^verbatim>\<open>size\<close> is made even.\<close>

function hex_loop :: "bytes \<Rightarrow> nat \<Rightarrow> nat \<Rightarrow> bytes \<Rightarrow> bytes \<times> nat" where
  "hex_loop hex end_of_buf p buffer =
    (if p < end_of_buf then
       if \<not> isxdigit (hex ! p) \<or> \<not> isxdigit (hex ! (p + 1)) then (buffer, p)
       else hex_loop hex end_of_buf (p + 2)
              (buffer @ [push_bit 4 (hex_tonum (hex ! p)) OR hex_tonum (hex ! (p + 1))])
     else (buffer, p))"
  by auto
termination
  by (relation "measure (\<lambda>(hex, e, p, buffer). e - p)") auto

declare hex_loop.simps [simp del]

definition chop_hex_string_to_buffer :: "bytes \<Rightarrow> nat \<Rightarrow> bytes \<times> nat" where
  "chop_hex_string_to_buffer hex sz = hex_loop hex sz 0 []"

lemma hex_tochar_cases:
  "\<forall>v \<in> set [0..<16]. isxdigit (hex_tochar (of_nat v)) \<and> hex_tonum (hex_tochar (of_nat v)) = of_nat v"
  by (simp add: upt_rec isxdigit_def hex_tonum_def hex_tochar_def)

lemma hex_digit:
  assumes "unat d < 16"
  shows "isxdigit (hex_tochar d)" "hex_tonum (hex_tochar d) = d"
proof -
  have "unat d \<in> set [0..<16]" using assms by simp
  from bspec [OF hex_tochar_cases this]
  show "isxdigit (hex_tochar d)" "hex_tonum (hex_tochar d) = d" by simp_all
qed

lemma nibbles:
  fixes p :: byte
  shows "unat (drop_bit 4 p) < 16" "unat (p AND 0xf) < 16" "push_bit 4 (drop_bit 4 p) OR (p AND 0xf) = p"
proof -
  show "unat (drop_bit 4 p) < 16"
  proof -
    have "unat (drop_bit 4 p) = unat p div 16"
      by (simp add: unat_drop_bit_eq drop_bit_eq_div unat_div)
    then show ?thesis using unat_byte_less [of p] by (simp add: less_mult_imp_div_less)
  qed
  have m: "p AND 0xf = take_bit 4 p" by (simp add: take_bit_eq_mask mask_eq_exp_minus_1)
  show "unat (p AND 0xf) < 16"
    using take_bit_nat_less_exp [of 4 "unat p"] by (simp add: m unsigned_take_bit_eq)
  show "push_bit 4 (drop_bit 4 p) OR (p AND 0xf) = p"
    unfolding m by (rule byte_eqI; simp add: bit_simps)
qed

lemma hex_loop_encode:
  "hex_loop (pre @ chop_buffer_to_hex_string xs @ rest) (length pre + 2 * length xs) (length pre) out
   = (out @ xs, length pre + 2 * length xs)"
proof (induction xs arbitrary: pre out)
  case (Cons x xs)
  let ?h = "hex_tochar (drop_bit 4 x)" and ?l = "hex_tochar (x AND 0xf)"
  have "hex_loop ((pre @ [?h, ?l]) @ chop_buffer_to_hex_string xs @ rest)
      (length (pre @ [?h, ?l]) + 2 * length xs) (length (pre @ [?h, ?l])) (out @ [x])
    = ((out @ [x]) @ xs, length (pre @ [?h, ?l]) + 2 * length xs)"
    by (rule Cons.IH)
  then show ?case
    by (subst hex_loop.simps) (simp add: nth_append hex_digit nibbles)
qed (simp add: hex_loop.simps)

lemma length_hex_string [simp]: "length (chop_buffer_to_hex_string xs) = 2 * length xs"
  by (induction xs) simp_all

text \<open>Decoding the hexadecimal form of a buffer gives back the buffer, whatever follows
  it in memory, and \<^verbatim>\<open>*end\<close> is the end of the hexadecimal digits.\<close>

theorem hex_decode_encode:
  "chop_hex_string_to_buffer (chop_buffer_to_hex_string xs @ rest) (2 * length xs)
   = (xs, 2 * length xs)"
  using hex_loop_encode [of "[]" xs rest "[]"] by (simp add: chop_hex_string_to_buffer_def)

declare push_bit_and [simp] push_bit_or [simp] drop_bit_and [simp] drop_bit_or [simp]
  push_bit_Suc [simp] One_nat_def [simp]

end
