(* ===== verification/Chop_Stores.thy ===== *)
theory Chop_Stores
  imports Chop_Prelude
begin

text \<open>
  Block stores (\<^verbatim>\<open>include/chop/stores.h\<close>): the method table of a store, its
  dispatch functions, the stores on top of a key/value database
  (\<^verbatim>\<open>store-generic-db.c\<close>, the body of the GDBM, TDB and QDBM stores), and the proxies
  \<^verbatim>\<open>store-dummy.c\<close>, \<^verbatim>\<open>store-smart.c\<close> and \<^verbatim>\<open>store-stat.c\<close>.  The database
  library is a parameter.  Each store is shown to implement one contract, the locale
  \<open>map_store\<close>: a map from keys to blocks.  Logging is left out.
\<close>

section \<open>Keys and the store interface\<close>

type_synonym block_key = bytes

definition chop_block_key_equal :: "block_key \<Rightarrow> block_key \<Rightarrow> bool" where
  "chop_block_key_equal k1 k2 = (length k1 = length k2 \<and> take (length k1) k2 = k1)"

record block_iterator =
  it_nil :: bool
  it_key :: block_key

text \<open>A store's methods act on the world \<open>'w\<close> that holds the state of the store and of what
  is behind it.  A method that may be NULL is an option.  \<^verbatim>\<open>blocks_exist\<close> takes
  the keys and the old contents of \<^verbatim>\<open>exists[]\<close> and gives the new contents;
  \<^verbatim>\<open>read_block\<close> takes the old contents of \<^verbatim>\<open>buffer\<close> and gives the new
  contents and \<^verbatim>\<open>*size\<close>.\<close>

record 'w block_store =
  m_blocks_exist :: "('w \<Rightarrow> block_key list \<Rightarrow> bool list \<Rightarrow> (chop_error \<times> bool list) \<times> 'w) option"
  m_read_block :: "'w \<Rightarrow> block_key \<Rightarrow> bytes \<Rightarrow> (chop_error \<times> bytes \<times> nat) \<times> 'w"
  m_write_block :: "'w \<Rightarrow> block_key \<Rightarrow> bytes \<Rightarrow> chop_error \<times> 'w"
  m_delete_block :: "('w \<Rightarrow> block_key \<Rightarrow> chop_error \<times> 'w) option"
  m_iterator_class :: bool
  m_first_block :: "('w \<Rightarrow> (chop_error \<times> block_iterator option) \<times> 'w) option"
  m_close :: "'w \<Rightarrow> chop_error \<times> 'w"
  m_sync :: "'w \<Rightarrow> chop_error \<times> 'w"

definition chop_store_blocks_exist ::
  "'w block_store \<Rightarrow> 'w \<Rightarrow> block_key list \<Rightarrow> bool list \<Rightarrow> (chop_error \<times> bool list) \<times> 'w" where
  "chop_store_blocks_exist store w keys exists =
    (case m_blocks_exist store of
       Some f \<Rightarrow> f w keys exists
     | None \<Rightarrow> ((CHOP_ERR_NOT_IMPL, exists), w))"

definition chop_store_block_exists ::
  "'w block_store \<Rightarrow> 'w \<Rightarrow> block_key \<Rightarrow> (chop_error \<times> bool) \<times> 'w" where
  "chop_store_block_exists store w key =
    (case chop_store_blocks_exist store w [key] [False] of
       ((err, exists), w') \<Rightarrow> ((err, exists = [True]), w'))"

definition chop_store_read_block ::
  "'w block_store \<Rightarrow> 'w \<Rightarrow> block_key \<Rightarrow> bytes \<Rightarrow> (chop_error \<times> bytes \<times> nat) \<times> 'w" where
  "chop_store_read_block store = m_read_block store"

definition chop_store_write_block ::
  "'w block_store \<Rightarrow> 'w \<Rightarrow> block_key \<Rightarrow> bytes \<Rightarrow> chop_error \<times> 'w" where
  "chop_store_write_block store = m_write_block store"

definition chop_store_delete_block ::
  "'w block_store \<Rightarrow> 'w \<Rightarrow> block_key \<Rightarrow> chop_error \<times> 'w" where
  "chop_store_delete_block store w key =
    (case m_delete_block store of
       Some f \<Rightarrow> f w key
     | None \<Rightarrow> (CHOP_ERR_NOT_IMPL, w))"

definition chop_store_first_block ::
  "'w block_store \<Rightarrow> 'w \<Rightarrow> (chop_error \<times> block_iterator option) \<times> 'w" where
  "chop_store_first_block store w =
    (case m_first_block store of
       Some f \<Rightarrow> f w
     | None \<Rightarrow> ((CHOP_ERR_NOT_IMPL, None), w))"

definition chop_store_sync :: "'w block_store \<Rightarrow> 'w \<Rightarrow> chop_error \<times> 'w" where
  "chop_store_sync store = m_sync store"

definition chop_store_close :: "'w block_store \<Rightarrow> 'w \<Rightarrow> chop_error \<times> 'w" where
  "chop_store_close store = m_close store"

lemmas store_dispatch_defs =
  chop_store_blocks_exist_def chop_store_block_exists_def chop_store_read_block_def
  chop_store_write_block_def chop_store_delete_block_def chop_store_first_block_def
  chop_store_sync_def chop_store_close_def

text \<open>How a proxy treats the store it stands for (\<^verbatim>\<open>chop.h\<close>).\<close>

datatype chop_proxy_semantics =
    CHOP_PROXY_LEAVE_AS_IS
  | CHOP_PROXY_EVENTUALLY_CLOSE
  | CHOP_PROXY_EVENTUALLY_DESTROY
  | CHOP_PROXY_EVENTUALLY_FREE

section \<open>Stores on top of a database\<close>

text \<open>The database library: the macros \<^verbatim>\<open>DB_EXISTS\<close>, \<^verbatim>\<open>DB_READ\<close>, \<^verbatim>\<open>DB_WRITE\<close> (with
  the replace flag), \<^verbatim>\<open>DB_DELETE\<close>, \<^verbatim>\<open>DB_FIRST_KEY\<close>, \<^verbatim>\<open>DB_NEXT_KEY\<close>, \<^verbatim>\<open>DB_SYNC\<close>
  and \<^verbatim>\<open>DB_CLOSE\<close>.  A boolean result is a non-zero return code.\<close>

record 'd db_ops =
  DB_EXISTS :: "'d \<Rightarrow> bytes \<Rightarrow> bool"
  DB_READ :: "'d \<Rightarrow> bytes \<Rightarrow> bytes option"
  DB_WRITE :: "'d \<Rightarrow> bytes \<Rightarrow> bytes \<Rightarrow> bool \<times> 'd"
  DB_DELETE :: "'d \<Rightarrow> bytes \<Rightarrow> bool \<times> 'd"
  DB_FIRST_KEY :: "'d \<Rightarrow> bytes option"
  DB_NEXT_KEY :: "'d \<Rightarrow> bytes \<Rightarrow> bytes option"
  DB_SYNC :: "'d \<Rightarrow> 'd"
  DB_CLOSE :: "'d \<Rightarrow> 'd"

text \<open>The store: its database and whether the \<^verbatim>\<open>db\<close> pointer is still set.\<close>

record 'd db_store =
  db :: 'd
  db_open :: bool

definition db_blocks_exist ::
  "'d db_ops \<Rightarrow> 'd db_store \<Rightarrow> block_key list \<Rightarrow> bool list \<Rightarrow> (chop_error \<times> bool list) \<times> 'd db_store"
where
  "db_blocks_exist ops s keys exists = ((CHOP_OK, map (DB_EXISTS ops (db s)) keys), s)"

definition db_read_block ::
  "'d db_ops \<Rightarrow> 'd db_store \<Rightarrow> block_key \<Rightarrow> bytes \<Rightarrow> (chop_error \<times> bytes \<times> nat) \<times> 'd db_store" where
  "db_read_block ops s key buffer =
    (case DB_READ ops (db s) key of
       None \<Rightarrow> ((CHOP_STORE_BLOCK_UNAVAIL, buffer, 0), s)
     | Some content \<Rightarrow> ((CHOP_OK, content, length content), s))"

definition db_write_block ::
  "'d db_ops \<Rightarrow> 'd db_store \<Rightarrow> block_key \<Rightarrow> bytes \<Rightarrow> chop_error \<times> 'd db_store" where
  "db_write_block ops s key buffer =
    (case DB_WRITE ops (db s) key buffer of
       (err, d) \<Rightarrow> (if err then CHOP_STORE_ERROR else CHOP_OK, s\<lparr>db := d\<rparr>))"

definition db_delete_block ::
  "'d db_ops \<Rightarrow> 'd db_store \<Rightarrow> block_key \<Rightarrow> chop_error \<times> 'd db_store" where
  "db_delete_block ops s key =
    (case DB_DELETE ops (db s) key of
       (err, d) \<Rightarrow> (if err then CHOP_STORE_BLOCK_UNAVAIL else CHOP_OK, s\<lparr>db := d\<rparr>))"

definition db_first_block ::
  "'d db_ops \<Rightarrow> 'd db_store \<Rightarrow> (chop_error \<times> block_iterator option) \<times> 'd db_store" where
  "db_first_block ops s =
    (case DB_FIRST_KEY ops (db s) of
       Some key \<Rightarrow> ((CHOP_OK, Some \<lparr>it_nil = False, it_key = key\<rparr>), s)
     | None \<Rightarrow> ((CHOP_STORE_END, None), s))"

definition db_next_block ::
  "'d db_ops \<Rightarrow> 'd db_store \<Rightarrow> block_iterator \<Rightarrow> chop_error \<times> block_iterator" where
  "db_next_block ops s it =
    (if it_nil it then (CHOP_STORE_END, it)
     else case DB_NEXT_KEY ops (db s) (it_key it) of
       Some key \<Rightarrow> (CHOP_OK, it\<lparr>it_key := key\<rparr>)
     | None \<Rightarrow> (CHOP_STORE_END, it\<lparr>it_key := [], it_nil := True\<rparr>))"

definition db_sync :: "'d db_ops \<Rightarrow> 'd db_store \<Rightarrow> chop_error \<times> 'd db_store" where
  "db_sync ops s = (CHOP_OK, s\<lparr>db := DB_SYNC ops (db s)\<rparr>)"

definition db_close :: "'d db_ops \<Rightarrow> 'd db_store \<Rightarrow> chop_error \<times> 'd db_store" where
  "db_close ops s =
    (if db_open s then (CHOP_OK, s\<lparr>db := DB_CLOSE ops (db s), db_open := False\<rparr>)
     else (CHOP_OK, s))"

definition generic_db_store :: "'d db_ops \<Rightarrow> 'd db_store block_store" where
  "generic_db_store ops =
    \<lparr>m_blocks_exist = Some (db_blocks_exist ops), m_read_block = db_read_block ops,
     m_write_block = db_write_block ops, m_delete_block = Some (db_delete_block ops),
     m_iterator_class = True, m_first_block = Some (db_first_block ops),
     m_close = db_close ops, m_sync = db_sync ops\<rparr>"

section \<open>The dummy store\<close>

text \<open>A store that forwards to a backend, when it has one.  \<^verbatim>\<open>memset (exists, 0, sizeof exists)\<close>
  clears as many entries as a pointer has bytes (eight), whatever the number of keys.\<close>

record 'w dummy_store =
  dm_backend :: "'w block_store option"
  dm_iterator_class :: bool
  dm_world :: 'w

definition dummy_blocks_exist ::
  "'w dummy_store \<Rightarrow> block_key list \<Rightarrow> bool list \<Rightarrow> (chop_error \<times> bool list) \<times> 'w dummy_store" where
  "dummy_blocks_exist s keys exists =
    (case dm_backend s of
       None \<Rightarrow> ((CHOP_OK, map (\<lambda>_. False) (take 8 exists) @ drop 8 exists), s)
     | Some backend \<Rightarrow>
         (case chop_store_blocks_exist backend (dm_world s) keys exists of
            (r, w) \<Rightarrow> (r, s\<lparr>dm_world := w\<rparr>)))"

definition dummy_read_block ::
  "'w dummy_store \<Rightarrow> block_key \<Rightarrow> bytes \<Rightarrow> (chop_error \<times> bytes \<times> nat) \<times> 'w dummy_store" where
  "dummy_read_block s key buffer =
    (case dm_backend s of
       None \<Rightarrow> ((CHOP_ERR_NOT_IMPL, buffer, 0), s)
     | Some backend \<Rightarrow>
         (case chop_store_read_block backend (dm_world s) key buffer of
            (r, w) \<Rightarrow> (r, s\<lparr>dm_world := w\<rparr>)))"

definition dummy_write_block ::
  "'w dummy_store \<Rightarrow> block_key \<Rightarrow> bytes \<Rightarrow> chop_error \<times> 'w dummy_store" where
  "dummy_write_block s key block =
    (case dm_backend s of
       None \<Rightarrow> (CHOP_OK, s)
     | Some backend \<Rightarrow>
         (case chop_store_write_block backend (dm_world s) key block of
            (err, w) \<Rightarrow> (err, s\<lparr>dm_world := w\<rparr>)))"

definition dummy_delete_block :: "'w dummy_store \<Rightarrow> block_key \<Rightarrow> chop_error \<times> 'w dummy_store" where
  "dummy_delete_block s key =
    (case dm_backend s of
       None \<Rightarrow> (CHOP_OK, s)
     | Some backend \<Rightarrow>
         (case chop_store_delete_block backend (dm_world s) key of
            (err, w) \<Rightarrow> (err, s\<lparr>dm_world := w\<rparr>)))"

definition dummy_first_block ::
  "'w dummy_store \<Rightarrow> (chop_error \<times> block_iterator option) \<times> 'w dummy_store" where
  "dummy_first_block s =
    (case dm_backend s of
       None \<Rightarrow> ((CHOP_ERR_NOT_IMPL, None), s)
     | Some backend \<Rightarrow>
         if \<not> dm_iterator_class s then ((CHOP_ERR_NOT_IMPL, None), s)
         else (case chop_store_first_block backend (dm_world s) of
            (r, w) \<Rightarrow> (r, s\<lparr>dm_world := w\<rparr>)))"

definition dummy_sync :: "'w dummy_store \<Rightarrow> chop_error \<times> 'w dummy_store" where
  "dummy_sync s =
    (case dm_backend s of
       None \<Rightarrow> (CHOP_OK, s)
     | Some backend \<Rightarrow>
         (case chop_store_sync backend (dm_world s) of (err, w) \<Rightarrow> (err, s\<lparr>dm_world := w\<rparr>)))"

text \<open>The result of closing the backend is dropped.\<close>

definition dummy_close :: "'w dummy_store \<Rightarrow> chop_error \<times> 'w dummy_store" where
  "dummy_close s =
    (case dm_backend s of
       None \<Rightarrow> (CHOP_OK, s)
     | Some backend \<Rightarrow>
         (case chop_store_close backend (dm_world s) of
            (err, w) \<Rightarrow> (CHOP_OK, s\<lparr>dm_world := w, dm_backend := None\<rparr>)))"

definition dummy_block_store :: "'w dummy_store block_store" where
  "dummy_block_store =
    \<lparr>m_blocks_exist = Some dummy_blocks_exist, m_read_block = dummy_read_block,
     m_write_block = dummy_write_block, m_delete_block = Some dummy_delete_block,
     m_iterator_class = False, m_first_block = Some dummy_first_block,
     m_close = dummy_close, m_sync = dummy_sync\<rparr>"

definition chop_dummy_proxy_block_store_open ::
  "'w block_store option \<Rightarrow> 'w \<Rightarrow> 'w dummy_store block_store \<times> 'w dummy_store" where
  "chop_dummy_proxy_block_store_open backend w =
    (case backend of
       None \<Rightarrow> (dummy_block_store, \<lparr>dm_backend = None, dm_iterator_class = False, dm_world = w\<rparr>)
     | Some b \<Rightarrow>
         (dummy_block_store\<lparr>m_iterator_class := m_iterator_class b\<rparr>,
          \<lparr>dm_backend = Some b, dm_iterator_class = m_iterator_class b, dm_world = w\<rparr>))"

section \<open>The smart store\<close>

definition smart_blocks_exist ::
  "'w block_store \<Rightarrow> 'w \<Rightarrow> block_key list \<Rightarrow> bool list \<Rightarrow> (chop_error \<times> bool list) \<times> 'w" where
  "smart_blocks_exist backend = chop_store_blocks_exist backend"

definition smart_read_block ::
  "'w block_store \<Rightarrow> 'w \<Rightarrow> block_key \<Rightarrow> bytes \<Rightarrow> (chop_error \<times> bytes \<times> nat) \<times> 'w" where
  "smart_read_block backend = chop_store_read_block backend"

definition smart_write_block ::
  "'w block_store \<Rightarrow> 'w \<Rightarrow> block_key \<Rightarrow> bytes \<Rightarrow> chop_error \<times> 'w" where
  "smart_write_block backend w key block =
    (case chop_store_block_exists backend w key of
       ((err, exists), w') \<Rightarrow>
         if err \<noteq> CHOP_OK then (err, w')
         else if \<not> exists then chop_store_write_block backend w' key block
         else (err, w'))"

definition smart_delete_block :: "'w block_store \<Rightarrow> 'w \<Rightarrow> block_key \<Rightarrow> chop_error \<times> 'w" where
  "smart_delete_block backend = chop_store_delete_block backend"

definition smart_first_block ::
  "'w block_store \<Rightarrow> 'w \<Rightarrow> (chop_error \<times> block_iterator option) \<times> 'w" where
  "smart_first_block backend = chop_store_first_block backend"

definition smart_sync :: "'w block_store \<Rightarrow> 'w \<Rightarrow> chop_error \<times> 'w" where
  "smart_sync backend = chop_store_sync backend"

definition smart_close ::
  "chop_proxy_semantics \<Rightarrow> 'w block_store \<Rightarrow> 'w \<Rightarrow> chop_error \<times> 'w" where
  "smart_close backend_ps backend w =
    (if backend_ps = CHOP_PROXY_EVENTUALLY_CLOSE then chop_store_close backend w
     else (CHOP_OK, w))"

text \<open>\<^verbatim>\<open>iterator_class\<close> is copied from the new store itself, in which the constructor
  has just set it to NULL.\<close>

definition smart_block_store :: "chop_proxy_semantics \<Rightarrow> 'w block_store \<Rightarrow> 'w block_store" where
  "smart_block_store bps b =
    \<lparr>m_blocks_exist = Some (smart_blocks_exist b), m_read_block = smart_read_block b,
     m_write_block = smart_write_block b, m_delete_block = Some (smart_delete_block b),
     m_iterator_class = False, m_first_block = Some (smart_first_block b),
     m_close = smart_close bps b, m_sync = smart_sync b\<rparr>"

definition chop_smart_block_store_open ::
  "'w block_store option \<Rightarrow> chop_proxy_semantics \<Rightarrow> 'w block_store result" where
  "chop_smart_block_store_open backend bps =
    (case backend of
       None \<Rightarrow> Inl CHOP_INVALID_ARG
     | Some b \<Rightarrow> Inr (smart_block_store bps b))"

section \<open>Statistics\<close>

text \<open>\<^verbatim>\<open>size_t\<close> counters are 64-bit words; the arithmetic of \<^verbatim>\<open>float\<close> is a parameter.\<close>

record 'f float_ops =
  f_of_size :: "64 word \<Rightarrow> 'f"
  f_add :: "'f \<Rightarrow> 'f \<Rightarrow> 'f"
  f_mul :: "'f \<Rightarrow> 'f \<Rightarrow> 'f"
  f_div :: "'f \<Rightarrow> 'f \<Rightarrow> 'f"

record 'f block_store_stats =
  blocks_written :: "64 word"
  bytes_written :: "64 word"
  virgin_blocks :: "64 word"
  virgin_bytes :: "64 word"
  average_block_size :: 'f
  min_block_size :: "64 word"
  max_block_size :: "64 word"

text \<open>\<^verbatim>\<open>min_block_size--\<close> on zero wraps to the largest \<^verbatim>\<open>size_t\<close>.\<close>

definition chop_block_store_stats_clear :: "'f float_ops \<Rightarrow> 'f block_store_stats" where
  "chop_block_store_stats_clear fl =
    \<lparr>blocks_written = 0, bytes_written = 0, virgin_blocks = 0, virgin_bytes = 0,
     average_block_size = f_of_size fl 0, min_block_size = 0 - 1, max_block_size = 0\<rparr>"

definition chop_block_store_stats_update ::
  "'f float_ops \<Rightarrow> 'f block_store_stats \<Rightarrow> 64 word \<Rightarrow> bool \<Rightarrow> 'f block_store_stats" where
  "chop_block_store_stats_update fl st block_size virgin_write =
    (let avg1 = f_mul fl (average_block_size st) (f_of_size fl (blocks_written st));
         avg2 = f_add fl avg1 (f_of_size fl block_size);
         written = blocks_written st + 1;
         st1 = st\<lparr>blocks_written := written,
                  average_block_size := f_div fl avg2 (f_of_size fl written),
                  min_block_size := (if block_size < min_block_size st then block_size
                                     else min_block_size st),
                  max_block_size := (if max_block_size st < block_size then block_size
                                     else max_block_size st),
                  bytes_written := bytes_written st + block_size\<rparr>
     in if virgin_write
        then st1\<lparr>virgin_blocks := virgin_blocks st1 + 1,
                 virgin_bytes := virgin_bytes st1 + block_size\<rparr>
        else st1)"

section \<open>The statistics store\<close>

record ('f, 'w) stat_store =
  ss_stats :: "'f block_store_stats"
  ss_backend :: "'w block_store option"
  ss_backend_ps :: chop_proxy_semantics
  ss_world :: 'w

definition stat_blocks_exist ::
  "('f, 'w) stat_store \<Rightarrow> block_key list \<Rightarrow> bool list \<Rightarrow> (chop_error \<times> bool list) \<times> ('f, 'w) stat_store"
where
  "stat_blocks_exist s keys exists =
    (case ss_backend s of
       None \<Rightarrow> ((CHOP_ERR_NOT_IMPL, exists), s)
     | Some backend \<Rightarrow>
         (case chop_store_blocks_exist backend (ss_world s) keys exists of
            (r, w) \<Rightarrow> (r, s\<lparr>ss_world := w\<rparr>)))"

definition stat_read_block ::
  "('f, 'w) stat_store \<Rightarrow> block_key \<Rightarrow> bytes \<Rightarrow> (chop_error \<times> bytes \<times> nat) \<times> ('f, 'w) stat_store"
where
  "stat_read_block s key buffer =
    (case ss_backend s of
       None \<Rightarrow> ((CHOP_ERR_NOT_IMPL, buffer, 0), s)
     | Some backend \<Rightarrow>
         (case chop_store_read_block backend (ss_world s) key buffer of
            (r, w) \<Rightarrow> (r, s\<lparr>ss_world := w\<rparr>)))"

definition stat_write_block ::
  "'f float_ops \<Rightarrow> ('f, 'w) stat_store \<Rightarrow> block_key \<Rightarrow> bytes \<Rightarrow> chop_error \<times> ('f, 'w) stat_store" where
  "stat_write_block fl s key block =
    (let update = (\<lambda>s exists. s\<lparr>ss_stats :=
           chop_block_store_stats_update fl (ss_stats s) (of_nat (length block)) (\<not> exists)\<rparr>)
     in case ss_backend s of
       None \<Rightarrow> (CHOP_OK, update s False)
     | Some backend \<Rightarrow>
         (case chop_store_block_exists backend (ss_world s) key of
            ((err, exists), w) \<Rightarrow>
              if err \<noteq> CHOP_OK then (err, s\<lparr>ss_world := w\<rparr>)
              else (case chop_store_write_block backend w key block of
                (err, w') \<Rightarrow>
                  (err, if err = CHOP_OK then update (s\<lparr>ss_world := w'\<rparr>) exists
                        else s\<lparr>ss_world := w'\<rparr>))))"

definition stat_delete_block ::
  "('f, 'w) stat_store \<Rightarrow> block_key \<Rightarrow> chop_error \<times> ('f, 'w) stat_store" where
  "stat_delete_block s key =
    (case ss_backend s of
       None \<Rightarrow> (CHOP_ERR_NOT_IMPL, s)
     | Some backend \<Rightarrow>
         (case chop_store_delete_block backend (ss_world s) key of
            (err, w) \<Rightarrow> (err, s\<lparr>ss_world := w\<rparr>)))"

definition stat_first_block ::
  "('f, 'w) stat_store \<Rightarrow> (chop_error \<times> block_iterator option) \<times> ('f, 'w) stat_store" where
  "stat_first_block s =
    (case ss_backend s of
       None \<Rightarrow> ((CHOP_ERR_NOT_IMPL, None), s)
     | Some backend \<Rightarrow>
         (case chop_store_first_block backend (ss_world s) of (r, w) \<Rightarrow> (r, s\<lparr>ss_world := w\<rparr>)))"

definition stat_sync :: "('f, 'w) stat_store \<Rightarrow> chop_error \<times> ('f, 'w) stat_store" where
  "stat_sync s =
    (case ss_backend s of
       None \<Rightarrow> (CHOP_ERR_NOT_IMPL, s)
     | Some backend \<Rightarrow>
         (case chop_store_sync backend (ss_world s) of (err, w) \<Rightarrow> (err, s\<lparr>ss_world := w\<rparr>)))"

definition stat_close :: "('f, 'w) stat_store \<Rightarrow> chop_error \<times> ('f, 'w) stat_store" where
  "stat_close s =
    (case ss_backend s of
       None \<Rightarrow> (CHOP_OK, s)
     | Some backend \<Rightarrow>
         (case ss_backend_ps s of
            CHOP_PROXY_LEAVE_AS_IS \<Rightarrow> (CHOP_OK, s)
          | _ \<Rightarrow> (case chop_store_close backend (ss_world s) of (err, w) \<Rightarrow> (err, s\<lparr>ss_world := w\<rparr>))))"

text \<open>Opening reads the backend's \<^verbatim>\<open>iterator_class\<close> without testing the pointer: with
  a NULL backend the call does not return (None).\<close>

definition stat_block_store :: "'f float_ops \<Rightarrow> 'w block_store \<Rightarrow> ('f, 'w) stat_store block_store" where
  "stat_block_store fl b =
    \<lparr>m_blocks_exist = Some stat_blocks_exist, m_read_block = stat_read_block,
     m_write_block = stat_write_block fl, m_delete_block = Some stat_delete_block,
     m_iterator_class = m_iterator_class b, m_first_block = Some stat_first_block,
     m_close = stat_close, m_sync = stat_sync\<rparr>"

definition chop_stat_block_store_open ::
  "'f float_ops \<Rightarrow> 'w block_store option \<Rightarrow> chop_proxy_semantics \<Rightarrow> 'w
     \<Rightarrow> (('f, 'w) stat_store block_store \<times> ('f, 'w) stat_store) option" where
  "chop_stat_block_store_open fl backend bps w =
    (case backend of
       None \<Rightarrow> None
     | Some b \<Rightarrow> Some (stat_block_store fl b,
         \<lparr>ss_stats = chop_block_store_stats_clear fl, ss_backend = Some b, ss_backend_ps = bps,
          ss_world = w\<rparr>))"

section \<open>Sequences of operations\<close>

text \<open>A client's sequence of writes and deletions, run through the dispatch functions, with the
  code of every call; and its meaning on a map, where failed calls change nothing.\<close>

datatype store_cmd = Write_Block block_key bytes | Delete_Block block_key

primrec run_cmd :: "'w block_store \<Rightarrow> store_cmd \<Rightarrow> 'w \<Rightarrow> chop_error \<times> 'w" where
  "run_cmd store (Write_Block key block) w = chop_store_write_block store w key block"
| "run_cmd store (Delete_Block key) w = chop_store_delete_block store w key"

primrec run_cmds :: "'w block_store \<Rightarrow> store_cmd list \<Rightarrow> 'w \<Rightarrow> chop_error list \<times> 'w" where
  "run_cmds store [] w = ([], w)"
| "run_cmds store (c # cs) w =
    (case run_cmd store c w of (err, w') \<Rightarrow>
       (case run_cmds store cs w' of (errs, w'') \<Rightarrow> (err # errs, w'')))"

primrec map_cmd :: "store_cmd \<Rightarrow> (block_key \<rightharpoonup> bytes) \<Rightarrow> (block_key \<rightharpoonup> bytes)" where
  "map_cmd (Write_Block key block) m = m(key \<mapsto> block)"
| "map_cmd (Delete_Block key) m = m(key := None)"

primrec map_cmds ::
  "(store_cmd \<times> chop_error) list \<Rightarrow> (block_key \<rightharpoonup> bytes) \<Rightarrow> (block_key \<rightharpoonup> bytes)" where
  "map_cmds [] m = m"
| "map_cmds (ce # ces) m =
    map_cmds ces (if snd ce = CHOP_OK then map_cmd (fst ce) m else m)"

section \<open>The contract of a store\<close>

text \<open>What every store promises: it behaves as a map \<open>contents\<close> from keys to blocks.
  A successful write leaves the block under the key, or keeps the block that was there.\<close>

locale map_store =
  fixes store :: "'w block_store"
    and inv :: "'w \<Rightarrow> bool"
    and contents :: "'w \<Rightarrow> block_key \<rightharpoonup> bytes"
  assumes blocks_exist_law:
      "\<lbrakk>inv w; length exists = length keys; chop_store_blocks_exist store w keys exists = (re, w')\<rbrakk>
       \<Longrightarrow> re = (CHOP_OK, map (\<lambda>k. k \<in> dom (contents w)) keys) \<and> inv w' \<and> contents w' = contents w"
    and read_block_law:
      "\<lbrakk>inv w; chop_store_read_block store w key buffer = (r, w')\<rbrakk>
       \<Longrightarrow> r = (case contents w key of Some b \<Rightarrow> (CHOP_OK, b, length b)
                | None \<Rightarrow> (CHOP_STORE_BLOCK_UNAVAIL, buffer, 0))
         \<and> inv w' \<and> contents w' = contents w"
    and write_block_law:
      "\<lbrakk>inv w; chop_store_write_block store w key block = (err, w')\<rbrakk>
       \<Longrightarrow> inv w' \<and> (if err = CHOP_OK
             then contents w' = (contents w)(key \<mapsto> block)
                  \<or> key \<in> dom (contents w) \<and> contents w' = contents w
             else contents w' = contents w)"
    and delete_block_law:
      "\<lbrakk>inv w; chop_store_delete_block store w key = (err, w')\<rbrakk>
       \<Longrightarrow> inv w' \<and> (if err = CHOP_OK
             then key \<in> dom (contents w) \<and> contents w' = (contents w)(key := None)
             else contents w' = contents w)"
begin

lemma block_exists_result:
  assumes "inv w" "chop_store_block_exists store w key = ((err, ex), w')"
  shows "err = CHOP_OK" "ex \<longleftrightarrow> key \<in> dom (contents w)" "inv w'" "contents w' = contents w"
proof -
  obtain r w1 where r: "chop_store_blocks_exist store w [key] [False] = (r, w1)"
    by (cases "chop_store_blocks_exist store w [key] [False]")
  from blocks_exist_law [OF assms(1) _ r] assms(2) r
  show "err = CHOP_OK" "ex \<longleftrightarrow> key \<in> dom (contents w)" "inv w'" "contents w' = contents w"
    by (auto simp: chop_store_block_exists_def)
qed

lemma read_result:
  "inv w \<Longrightarrow> fst (chop_store_read_block store w key buffer) =
    (case contents w key of Some b \<Rightarrow> (CHOP_OK, b, length b)
     | None \<Rightarrow> (CHOP_STORE_BLOCK_UNAVAIL, buffer, 0))"
  using read_block_law by (cases "chop_store_read_block store w key buffer") auto

text \<open>The block under a key after a successful write, unless the key held another block.\<close>

lemma write_contents:
  assumes "inv w" "chop_store_write_block store w key block = (CHOP_OK, w')"
    and "contents w key \<in> {None, Some block}"
  shows "contents w' = (contents w)(key \<mapsto> block)"
  using write_block_law [OF assms(1,2)] assms(3) by (auto simp: fun_upd_idem)

lemma read_after_write:
  assumes "inv w" "chop_store_write_block store w key block = (CHOP_OK, w')"
    and "contents w key \<in> {None, Some block}"
  shows "fst (chop_store_read_block store w' key buffer) = (CHOP_OK, block, length block)"
  using write_block_law [OF assms(1,2)] write_contents [OF assms] by (simp add: read_result)

text \<open>A write never changes what another key holds, and no write or failed call loses a block.\<close>

lemma write_other_keys:
  assumes "inv w" "chop_store_write_block store w key block = (err, w')" "key' \<noteq> key"
  shows "contents w' key' = contents w key'"
  using write_block_law [OF assms(1,2)] assms(3) by (auto split: if_splits)

lemma write_keeps_keys:
  assumes "inv w" "chop_store_write_block store w key block = (err, w')"
  shows "dom (contents w) \<subseteq> dom (contents w')"
  using write_block_law [OF assms] by (auto split: if_splits)

end

text \<open>A store whose writes always replace.\<close>

locale replacing_store = map_store +
  assumes write_replaces:
    "\<lbrakk>inv w; chop_store_write_block store w key block = (CHOP_OK, w')\<rbrakk>
     \<Longrightarrow> contents w' = (contents w)(key \<mapsto> block)"
begin

lemma run_cmd_refines:
  assumes "inv w" "run_cmd store c w = (err, w')"
  shows "inv w' \<and> contents w' = (if err = CHOP_OK then map_cmd c (contents w) else contents w)"
  using assms by (cases c) (auto dest: write_block_law delete_block_law write_replaces split: if_splits)

lemma run_cmds_refines:
  assumes "inv w" "run_cmds store cs w = (errs, w')"
  shows "inv w' \<and> length errs = length cs \<and> contents w' = map_cmds (zip cs errs) (contents w)"
  using assms
proof (induction cs arbitrary: w errs w')
  case (Cons c cs)
  obtain e w1 where c: "run_cmd store c w = (e, w1)" by (cases "run_cmd store c w")
  obtain es w2 where cs: "run_cmds store cs w1 = (es, w2)" by (cases "run_cmds store cs w1")
  from run_cmd_refines [OF Cons.prems(1) c] Cons.IH [OF _ cs] Cons.prems(2) c cs
  show ?case by auto
qed simp

end

text \<open>A store whose writes never fail.\<close>

locale reliable_store = map_store +
  assumes write_succeeds: "inv w \<Longrightarrow> fst (chop_store_write_block store w key block) = CHOP_OK"

section \<open>Database stores implement the contract\<close>

text \<open>What the database libraries document: \<open>m\<close> is the map a database holds.  A write or
  a deletion that fails changes nothing; deletion fails on an absent key.\<close>

definition db_laws :: "'d db_ops \<Rightarrow> ('d \<Rightarrow> bytes \<rightharpoonup> bytes) \<Rightarrow> bool" where
  "db_laws ops m \<longleftrightarrow>
    (\<forall>d k. DB_EXISTS ops d k \<longleftrightarrow> k \<in> dom (m d)) \<and>
    (\<forall>d k. DB_READ ops d k = m d k) \<and>
    (\<forall>d k v. m (snd (DB_WRITE ops d k v)) =
        (if fst (DB_WRITE ops d k v) then m d else (m d)(k \<mapsto> v))) \<and>
    (\<forall>d k. m (snd (DB_DELETE ops d k)) =
        (if fst (DB_DELETE ops d k) then m d else (m d)(k := None))
       \<and> (k \<notin> dom (m d) \<longrightarrow> fst (DB_DELETE ops d k))) \<and>
    (\<forall>d. m (DB_SYNC ops d) = m d)"

lemmas generic_db_defs =
  db_blocks_exist_def db_read_block_def db_write_block_def
  db_delete_block_def db_first_block_def db_sync_def db_close_def

lemma db_dispatch [simp]:
  "chop_store_blocks_exist (generic_db_store ops) = db_blocks_exist ops"
  "chop_store_read_block (generic_db_store ops) = db_read_block ops"
  "chop_store_write_block (generic_db_store ops) = db_write_block ops"
  "chop_store_delete_block (generic_db_store ops) = db_delete_block ops"
  "chop_store_first_block (generic_db_store ops) = db_first_block ops"
  by (auto simp: fun_eq_iff store_dispatch_defs generic_db_store_def)

lemma db_lawsD:
  assumes "db_laws ops m"
  shows "DB_EXISTS ops d k \<longleftrightarrow> k \<in> dom (m d)" "DB_READ ops d k = m d k"
    "DB_WRITE ops d k v = (e, d') \<Longrightarrow> m d' = (if e then m d else (m d)(k \<mapsto> v))"
    "DB_DELETE ops d k = (e, d') \<Longrightarrow> m d' = (if e then m d else (m d)(k := None)) \<and> (k \<notin> dom (m d) \<longrightarrow> e)"
    "m (DB_SYNC ops d) = m d"
proof -
  show "DB_WRITE ops d k v = (e, d') \<Longrightarrow> m d' = (if e then m d else (m d)(k \<mapsto> v))"
    using assms unfolding db_laws_def by (metis fst_conv snd_conv)
  show "DB_DELETE ops d k = (e, d') \<Longrightarrow>
      m d' = (if e then m d else (m d)(k := None)) \<and> (k \<notin> dom (m d) \<longrightarrow> e)"
    using assms unfolding db_laws_def by (metis fst_conv snd_conv)
qed (use assms in \<open>auto simp: db_laws_def\<close>)

interpretation db_store: replacing_store "generic_db_store ops"
  "\<lambda>s. db_laws ops m \<and> db_open s" "\<lambda>s. m (db s)" for ops :: "'d db_ops" and m
  by unfold_locales
    (auto simp: generic_db_defs db_lawsD split: option.splits prod.splits if_splits
      dest: db_lawsD(3,4))

section \<open>Proxies keep the contract of their backend\<close>

lemmas smart_defs =
  smart_block_store_def smart_blocks_exist_def smart_read_block_def smart_write_block_def
  smart_delete_block_def smart_first_block_def smart_sync_def smart_close_def

lemmas dummy_defs =
  dummy_block_store_def dummy_blocks_exist_def dummy_read_block_def dummy_write_block_def
  dummy_delete_block_def dummy_first_block_def dummy_sync_def dummy_close_def

lemmas stat_defs =
  stat_block_store_def stat_blocks_exist_def stat_read_block_def stat_write_block_def
  stat_delete_block_def stat_first_block_def stat_sync_def stat_close_def

lemma smart_dispatch [simp]:
  "chop_store_blocks_exist (smart_block_store ps b) = chop_store_blocks_exist b"
  "chop_store_read_block (smart_block_store ps b) = chop_store_read_block b"
  "chop_store_write_block (smart_block_store ps b) = smart_write_block b"
  "chop_store_delete_block (smart_block_store ps b) = chop_store_delete_block b"
  by (auto simp: fun_eq_iff store_dispatch_defs smart_defs)

lemma dummy_dispatch [simp]:
  "chop_store_blocks_exist dummy_block_store = dummy_blocks_exist"
  "chop_store_read_block dummy_block_store = dummy_read_block"
  "chop_store_write_block dummy_block_store = dummy_write_block"
  "chop_store_delete_block dummy_block_store = dummy_delete_block"
  by (auto simp: fun_eq_iff store_dispatch_defs dummy_block_store_def)

lemma stat_dispatch [simp]:
  "chop_store_blocks_exist (stat_block_store fl b) = stat_blocks_exist"
  "chop_store_read_block (stat_block_store fl b) = stat_read_block"
  "chop_store_write_block (stat_block_store fl b) = stat_write_block fl"
  "chop_store_delete_block (stat_block_store fl b) = stat_delete_block"
  by (auto simp: fun_eq_iff store_dispatch_defs stat_block_store_def)

locale proxied_store = backend: map_store backend inv contents
  for backend :: "'w block_store" and inv and contents +
  fixes ps :: chop_proxy_semantics
begin

lemma smart_write_once:
  assumes "inv w" "chop_store_write_block (smart_block_store ps backend) w key block = (err, w')"
  shows "inv w'"
    and "key \<in> dom (contents w) \<Longrightarrow> err = CHOP_OK \<and> contents w' = contents w"
    and "key \<notin> dom (contents w) \<Longrightarrow>
          contents w' = (if err = CHOP_OK then (contents w)(key \<mapsto> block) else contents w)"
proof -
  obtain e ex w1 where e: "chop_store_block_exists backend w key = ((e, ex), w1)"
    by (metis prod.exhaust)
  note ex = backend.block_exists_result [OF assms(1) e]
  have call: "smart_write_block backend w key block = (err, w')"
    using assms(2) by simp
  have "if ex then err = CHOP_OK \<and> w' = w1 else chop_store_write_block backend w1 key block = (err, w')"
    using call e ex(1) by (auto simp: smart_write_block_def split: if_splits)
  with ex backend.write_block_law [of w1 key block err w']
  show "inv w'"
    and "key \<in> dom (contents w) \<Longrightarrow> err = CHOP_OK \<and> contents w' = contents w"
    and "key \<notin> dom (contents w) \<Longrightarrow>
          contents w' = (if err = CHOP_OK then (contents w)(key \<mapsto> block) else contents w)"
    by (auto split: if_splits)
qed

lemma stat_write_backend:
  assumes "inv (ss_world s)" "ss_backend s = Some backend"
    and "chop_store_write_block (stat_block_store fl backend) s key block = (err, s')"
  shows "\<exists>w. inv w \<and> contents w = contents (ss_world s)
          \<and> chop_store_write_block backend w key block = (err, ss_world s')"
    and "ss_backend s' = Some backend"
    and "ss_stats s' = (if err = CHOP_OK
           then chop_block_store_stats_update fl (ss_stats s) (of_nat (length block))
                  (key \<notin> dom (contents (ss_world s)))
           else ss_stats s)"
proof -
  obtain e ex w1 where e: "chop_store_block_exists backend (ss_world s) key = ((e, ex), w1)"
    by (metis prod.exhaust)
  note ex = backend.block_exists_result [OF assms(1) e]
  obtain e2 w2 where wr: "chop_store_write_block backend w1 key block = (e2, w2)"
    by (metis prod.exhaust)
  have call: "stat_write_block fl s key block = (err, s')"
    using assms(3) by simp
  from call e ex wr assms(2)
  show "\<exists>w. inv w \<and> contents w = contents (ss_world s)
          \<and> chop_store_write_block backend w key block = (err, ss_world s')"
    and "ss_backend s' = Some backend"
    and "ss_stats s' = (if err = CHOP_OK
           then chop_block_store_stats_update fl (ss_stats s) (of_nat (length block))
                  (key \<notin> dom (contents (ss_world s)))
           else ss_stats s)"
    by (auto simp: stat_write_block_def Let_def split: if_splits)
qed

end

lemma stats_update_counts [simp]:
  "blocks_written (chop_block_store_stats_update fl st n v) = blocks_written st + 1"
  "bytes_written (chop_block_store_stats_update fl st n v) = bytes_written st + n"
  "virgin_blocks (chop_block_store_stats_update fl st n v) = virgin_blocks st + (if v then 1 else 0)"
  "virgin_bytes (chop_block_store_stats_update fl st n v) = virgin_bytes st + (if v then n else 0)"
  "min_block_size (chop_block_store_stats_update fl st n v) = min n (min_block_size st)"
  "max_block_size (chop_block_store_stats_update fl st n v) = max n (max_block_size st)"
  by (auto simp: chop_block_store_stats_update_def Let_def min_def max_def)

definition write_cmds :: "(block_key \<times> bytes) list \<Rightarrow> store_cmd list" where
  "write_cmds = map (\<lambda>(key, block). Write_Block key block)"

context proxied_store
begin

lemma stat_store_counts:
  assumes "ss_backend s = Some backend" "inv (ss_world s)"
    and "run_cmds (stat_block_store fl backend) (write_cmds ws) s = (errs, s')"
    and "set errs \<subseteq> {CHOP_OK}"
  shows "blocks_written (ss_stats s') = blocks_written (ss_stats s) + of_nat (length ws)
    \<and> bytes_written (ss_stats s')
        = bytes_written (ss_stats s) + of_nat (sum_list (map (length \<circ> snd) ws))
    \<and> virgin_blocks (ss_stats s') = virgin_blocks (ss_stats s)
        + of_nat (card (fst ` set ws - dom (contents (ss_world s))))"
  using assms
proof (induction ws arbitrary: s errs)
  case (Cons kb ws)
  obtain key block where kb: "kb = (key, block)" by (cases kb)
  obtain e s1 where w: "chop_store_write_block (stat_block_store fl backend) s key block = (e, s1)"
    by (metis prod.exhaust)
  obtain es s2 where r: "run_cmds (stat_block_store fl backend) (write_cmds ws) s1 = (es, s2)"
    by (metis prod.exhaust)
  have res: "e = CHOP_OK" "set es \<subseteq> {CHOP_OK}" "s2 = s'"
    using Cons.prems(3,4) w r by (auto simp: write_cmds_def kb)
  note st = stat_write_backend [OF Cons.prems(2,1) w]
  obtain w1 where w1: "inv w1" "contents w1 = contents (ss_world s)"
    "chop_store_write_block backend w1 key block = (CHOP_OK, ss_world s1)"
    using st(1) res(1) by auto
  have dom: "inv (ss_world s1)" "dom (contents (ss_world s1)) = insert key (dom (contents (ss_world s)))"
    using backend.write_block_law [OF w1(1,3)] w1(2) by auto
  let ?D = "dom (contents (ss_world s))" and ?K = "fst ` set ws"
  have "card (insert key ?K - ?D) = card (?K - insert key ?D) + (if key \<notin> ?D then 1 else 0)"
  proof (cases "key \<in> ?D")
    case False
    then have "insert key ?K - ?D = insert key (?K - insert key ?D)" by auto
    then show ?thesis using False by simp
  qed (simp add: insert_absorb)
  with Cons.IH [OF st(2) dom(1) r [unfolded res(3)] res(2)] st(3) res(1) dom(2) kb show ?case
    by simp
qed (simp add: write_cmds_def)

end

sublocale proxied_store \<subseteq> smart: map_store "smart_block_store ps backend" inv contents
proof (unfold_locales, goal_cases)
  case (1 w exists keys r w')
  then show ?case using backend.blocks_exist_law [of w exists keys r w'] by simp
next
  case (2 w key buffer r w')
  then show ?case using backend.read_block_law [of w key buffer r w'] by simp
next
  case (3 w key block err w')
  then show ?case
    using smart_write_once [OF 3] by (cases "key \<in> dom (contents w)"; simp)
next
  case (4 w key err w')
  then show ?case using backend.delete_block_law [of w key err w'] by simp
qed

sublocale proxied_store \<subseteq> dummy: map_store dummy_block_store
  "\<lambda>s. dm_backend s = Some backend \<and> inv (dm_world s)" "\<lambda>s. contents (dm_world s)"
proof (unfold_locales, goal_cases)
  case (1 s exists keys r s')
  then show ?case
    using backend.blocks_exist_law [of "dm_world s" exists keys]
    by (auto simp: dummy_blocks_exist_def split: prod.splits)
next
  case (2 s key buffer r s')
  then show ?case
    using backend.read_block_law [of "dm_world s" key buffer]
    by (auto simp: dummy_read_block_def split: prod.splits)
next
  case (3 s key block err s')
  then show ?case
    using backend.write_block_law [of "dm_world s" key block]
    by (auto simp: dummy_write_block_def split: prod.splits)
next
  case (4 s key err s')
  then show ?case
    using backend.delete_block_law [of "dm_world s" key]
    by (auto simp: dummy_delete_block_def split: prod.splits)
qed

sublocale proxied_store \<subseteq> stat: map_store "stat_block_store fl backend"
  "\<lambda>s. ss_backend s = Some backend \<and> inv (ss_world s)" "\<lambda>s. contents (ss_world s)"
  for fl :: "'f float_ops"
proof (unfold_locales, goal_cases)
  case (1 s exists keys r s')
  then show ?case
    using backend.blocks_exist_law [of "ss_world s" exists keys]
    by (auto simp: stat_blocks_exist_def split: prod.splits)
next
  case (2 s key buffer r s')
  then show ?case
    using backend.read_block_law [of "ss_world s" key buffer]
    by (auto simp: stat_read_block_def split: prod.splits)
next
  case (3 s key block err s')
  then obtain w where "inv w" "contents w = contents (ss_world s)"
    "chop_store_write_block backend w key block = (err, ss_world s')"
    using stat_write_backend(1) by blast
  with 3 stat_write_backend(2) backend.write_block_law show ?case by metis
next
  case (4 s key err s')
  then show ?case
    using backend.delete_block_law [of "ss_world s" key]
    by (auto simp: stat_delete_block_def split: prod.splits)
qed

text \<open>A database whose writes never fail.\<close>

definition db_writable :: "'d db_ops \<Rightarrow> bool" where
  "db_writable ops \<longleftrightarrow> (\<forall>d k v. \<not> fst (DB_WRITE ops d k v))"

interpretation reliable_db: reliable_store "generic_db_store ops"
  "\<lambda>s. (db_laws ops m \<and> db_writable ops) \<and> db_open s" "\<lambda>s. m (db s)" for ops :: "'d db_ops" and m
proof (unfold_locales, goal_cases)
  case (1 w exists keys r w')
  then show ?case using db_store.blocks_exist_law [of ops m w exists keys r w'] by simp
next
  case (2 w key buffer r w')
  then show ?case using db_store.read_block_law [of ops m w key buffer r w'] by simp
next
  case (3 w key block err w')
  then show ?case using db_store.write_block_law [of ops m w key block err w'] by simp
next
  case (4 w key err w')
  then show ?case using db_store.delete_block_law [of ops m w key err w'] by simp
next
  case (5 w key block)
  then have "\<not> fst (DB_WRITE ops (db w) key block)" by (simp add: db_writable_def)
  then show ?case by (auto simp: db_write_block_def split: prod.splits)
qed


interpretation db_proxy: proxied_store "generic_db_store ops"
  "\<lambda>s. db_laws ops m \<and> db_open s" "\<lambda>s. m (db s)" ps for ops :: "'d db_ops" and m and ps
  by unfold_locales

section \<open>Iteration over a database store\<close>

text \<open>A database enumerates its keys: \<open>ks\<close> lists them in the order of
  \<^verbatim>\<open>DB_FIRST_KEY\<close> and \<^verbatim>\<open>DB_NEXT_KEY\<close>.\<close>

definition db_enumerates :: "'d db_ops \<Rightarrow> 'd \<Rightarrow> bytes list \<Rightarrow> bool" where
  "db_enumerates ops d ks \<longleftrightarrow> distinct ks
     \<and> DB_FIRST_KEY ops d = (if ks = [] then None else Some (ks ! 0))
     \<and> (\<forall>i < length ks. DB_NEXT_KEY ops d (ks ! i) =
           (if Suc i < length ks then Some (ks ! Suc i) else None))"

text \<open>The iterator after \<open>n\<close> calls of \<^verbatim>\<open>chop_block_iterator_next\<close>, with the code of the last call.\<close>

primrec iterator_after ::
  "'d db_ops \<Rightarrow> 'd db_store \<Rightarrow> chop_error \<times> block_iterator \<Rightarrow> nat \<Rightarrow> chop_error \<times> block_iterator" where
  "iterator_after ops s r 0 = r"
| "iterator_after ops s r (Suc n) = db_next_block ops s (snd (iterator_after ops s r n))"

lemma iterator_after_key:
  assumes "db_enumerates ops (db s) ks" "n < length ks"
  shows "iterator_after ops s (CHOP_OK, \<lparr>it_nil = False, it_key = ks ! 0\<rparr>) n
    = (CHOP_OK, \<lparr>it_nil = False, it_key = ks ! n\<rparr>)"
  using assms(2)
proof (induction n)
  case (Suc n)
  then have "DB_NEXT_KEY ops (db s) (ks ! n) = Some (ks ! Suc n)"
    using assms(1) by (auto simp: db_enumerates_def)
  with Suc show ?case by (simp add: db_next_block_def)
qed simp

text \<open>Iterating over a database store visits every key of the database, in order and once:
  the first call and each later one succeed with the next key, the call after the
  last key says \<^verbatim>\<open>CHOP_STORE_END\<close> and leaves the iterator nil, where it stays.\<close>

theorem db_iteration_visits_all_keys:
  assumes "db_enumerates ops (db s) ks" "ks \<noteq> []" "n < length ks"
  shows "\<exists>it. fst (chop_store_first_block (generic_db_store ops) s) = (CHOP_OK, Some it)
     \<and> iterator_after ops s (CHOP_OK, it) n = (CHOP_OK, \<lparr>it_nil = False, it_key = ks ! n\<rparr>)
     \<and> iterator_after ops s (CHOP_OK, it) (length ks) = (CHOP_STORE_END, \<lparr>it_nil = True, it_key = []\<rparr>)
     \<and> iterator_after ops s (CHOP_OK, it) (Suc (length ks)) = (CHOP_STORE_END, \<lparr>it_nil = True, it_key = []\<rparr>)"
proof -
  let ?it = "\<lparr>it_nil = False, it_key = ks ! 0\<rparr>"
  obtain l where l: "length ks = Suc l" using assms(2) by (cases ks) auto
  have last: "DB_NEXT_KEY ops (db s) (ks ! l) = None"
    using assms(1) l by (auto simp: db_enumerates_def)
  have first: "fst (chop_store_first_block (generic_db_store ops) s) = (CHOP_OK, Some ?it)"
    using assms(1,2) by (simp add: db_enumerates_def generic_db_defs)
  have fin: "iterator_after ops s (CHOP_OK, ?it) (length ks) = (CHOP_STORE_END, \<lparr>it_nil = True, it_key = []\<rparr>)"
    using iterator_after_key [OF assms(1), of l] l last by (simp add: db_next_block_def)
  show ?thesis
    using first fin iterator_after_key [OF assms(1,3)]
    by (intro exI [of _ ?it]) (simp add: db_next_block_def)
qed

section \<open>A database in memory\<close>

text \<open>An association list is a database: an instance of the parameter, on which the
  theorems are evaluated.\<close>

primrec alist_next :: "(bytes \<times> bytes) list \<Rightarrow> bytes \<Rightarrow> bytes option" where
  "alist_next [] k = None"
| "alist_next (e # es) k =
    (if fst e = k then (case es of [] \<Rightarrow> None | e' # _ \<Rightarrow> Some (fst e')) else alist_next es k)"

definition alist_db :: "(bytes \<times> bytes) list db_ops" where
  "alist_db =
    \<lparr>DB_EXISTS = (\<lambda>d k. map_of d k \<noteq> None),
     DB_READ = map_of,
     DB_WRITE = (\<lambda>d k v. (False, (k, v) # filter (\<lambda>e. fst e \<noteq> k) d)),
     DB_DELETE = (\<lambda>d k. (map_of d k = None, filter (\<lambda>e. fst e \<noteq> k) d)),
     DB_FIRST_KEY = (\<lambda>d. case d of [] \<Rightarrow> None | e # _ \<Rightarrow> Some (fst e)),
     DB_NEXT_KEY = alist_next,
     DB_SYNC = id,
     DB_CLOSE = id\<rparr>"

lemma map_of_filter_neq: "map_of (filter (\<lambda>e. fst e \<noteq> k) d) = (map_of d)(k := None)"
  by (induction d) (auto simp: fun_eq_iff)

lemma alist_db_laws: "db_laws alist_db map_of"
  by (auto simp: db_laws_def alist_db_def map_of_filter_neq fun_upd_idem)


theorem db_iteration_visits_all_keys_witness:
  "db_enumerates alist_db [([1], [5]), ([2], [6])] [[1], [2]]
   \<and> iterator_after alist_db \<lparr>db = [([1], [5]), ([2], [6])], db_open = True\<rparr>
       (CHOP_OK, \<lparr>it_nil = False, it_key = [1]\<rparr>) 1 = (CHOP_OK, \<lparr>it_nil = False, it_key = [2]\<rparr>)"
proof -
  let ?s = "\<lparr>db = [([1], [5]), ([2], [6])], db_open = True\<rparr> :: (bytes \<times> bytes) list db_store"
  have en: "db_enumerates alist_db [([1], [5]), ([2], [6])] [[1], [2]]"
    by (simp add: db_enumerates_def alist_db_def less_Suc_eq)
  then show ?thesis
    using db_iteration_visits_all_keys [of alist_db ?s "[[1], [2]]" 1]
    by (simp add: generic_db_defs alist_db_def)
qed



text \<open>After a sequence of successful writes through a statistics store, \<^verbatim>\<open>blocks_written\<close> counts
  the writes, \<^verbatim>\<open>bytes_written\<close> sums the sizes of the blocks, and \<^verbatim>\<open>virgin_blocks\<close>
  counts the distinct keys the store did not hold before (all modulo \<^verbatim>\<open>2^64\<close>).\<close>

theorem stat_store_counts_writes:
  assumes "db_laws ops m" "db_open d"
    and "chop_stat_block_store_open fl (Some (generic_db_store ops)) ps d = Some (store, s)"
    and "run_cmds store (write_cmds ws) s = (errs, s')" "set errs \<subseteq> {CHOP_OK}"
  shows "blocks_written (ss_stats s') = of_nat (length ws)
    \<and> bytes_written (ss_stats s') = of_nat (sum_list (map (length \<circ> snd) ws))
    \<and> virgin_blocks (ss_stats s') = of_nat (card (fst ` set ws - dom (m (db d))))"
proof -
  have s: "ss_backend s = Some (generic_db_store ops)" "ss_world s = d"
    "ss_stats s = chop_block_store_stats_clear fl" "store = stat_block_store fl (generic_db_store ops)"
    using assms(3) by (auto simp: chop_stat_block_store_open_def)
  show ?thesis
    using db_proxy.stat_store_counts [of s ops m fl ws errs s'] assms(1,2,4,5) s
    by (simp add: chop_block_store_stats_clear_def)
qed

text \<open>Exact arithmetic in the place of \<^verbatim>\<open>float\<close>.\<close>

definition exact_float :: "rat float_ops" where
  "exact_float = \<lparr>f_of_size = (\<lambda>n. of_nat (unat n)), f_add = (+), f_mul = (*), f_div = (/)\<rparr>"

theorem stat_store_counts_writes_witness:
  "virgin_blocks (ss_stats (snd (run_cmds (stat_block_store exact_float (generic_db_store alist_db))
      (write_cmds [([1], [5]), ([2], [7, 8]), ([1], [5])])
      \<lparr>ss_stats = chop_block_store_stats_clear exact_float, ss_backend = Some (generic_db_store alist_db),
       ss_backend_ps = CHOP_PROXY_LEAVE_AS_IS, ss_world = \<lparr>db = [], db_open = True\<rparr>\<rparr>))) = 2"
proof -
  let ?st = "stat_block_store exact_float (generic_db_store alist_db)"
  let ?d = "\<lparr>db = [], db_open = True\<rparr> :: (bytes \<times> bytes) list db_store"
  let ?s = "\<lparr>ss_stats = chop_block_store_stats_clear exact_float,
    ss_backend = Some (generic_db_store alist_db), ss_backend_ps = CHOP_PROXY_LEAVE_AS_IS, ss_world = ?d\<rparr>"
  let ?ws = "[([1], [5]), ([2], [7, 8]), ([1], [5])] :: (bytes \<times> bytes) list"
  have ok: "fst (run_cmds ?st (write_cmds ?ws) ?s) = [CHOP_OK, CHOP_OK, CHOP_OK]"
    by (simp add: write_cmds_def stat_write_block_def Let_def chop_store_block_exists_def
        generic_db_defs alist_db_def)
  have "chop_stat_block_store_open exact_float (Some (generic_db_store alist_db))
      CHOP_PROXY_LEAVE_AS_IS ?d = Some (?st, ?s)"
    by (simp add: chop_stat_block_store_open_def)
  from stat_store_counts_writes [OF alist_db_laws _ this surjective_pairing [of "run_cmds ?st (write_cmds ?ws) ?s"]] ok
  show ?thesis by (simp add: card_insert_if)
qed

lemma stats_min_max:
  "min_block_size (foldl (\<lambda>st (n, v). chop_block_store_stats_update fl st n v) st nvs)
     = fold min (map fst nvs) (min_block_size st)
   \<and> max_block_size (foldl (\<lambda>st (n, v). chop_block_store_stats_update fl st n v) st nvs)
     = fold max (map fst nvs) (max_block_size st)"
  by (induction nvs arbitrary: st) auto

text \<open>After updates with a non-empty list of sizes, starting from cleared statistics (whose
  minimum is \<^verbatim>\<open>0 - 1\<close>, wrapped), the recorded minimum and maximum are those of
  the list.\<close>

theorem stats_extrema:
  assumes "nvs \<noteq> []"
  shows "min_block_size (foldl (\<lambda>st (n, v). chop_block_store_stats_update fl st n v)
           (chop_block_store_stats_clear fl) nvs) = Min (fst ` set nvs)
    \<and> max_block_size (foldl (\<lambda>st (n, v). chop_block_store_stats_update fl st n v)
           (chop_block_store_stats_clear fl) nvs) = Max (fst ` set nvs)"
proof -
  have "fold min (map fst nvs) (- 1) = Min (insert (- 1) (fst ` set nvs))"
    by (metis List.finite_set Min.set_eq_fold list.set_map list.simps(15))
  moreover have "fold max (map fst nvs) 0 = Max (insert 0 (fst ` set nvs))"
    by (metis List.finite_set Max.set_eq_fold list.set_map list.simps(15))
  moreover have "Min (insert (- 1) (fst ` set nvs)) = Min (fst ` set nvs)"
    "Max (insert 0 (fst ` set nvs)) = Max (fst ` set nvs)"
    using assms by (simp_all add: min_absorb2 max_absorb2 word_order.extremum del: Min_insert2)
  ultimately show ?thesis
    by (simp add: stats_min_max chop_block_store_stats_clear_def)
qed

theorem stats_extrema_witness:
  "min_block_size (foldl (\<lambda>st (n, v). chop_block_store_stats_update exact_float st n v)
     (chop_block_store_stats_clear exact_float) [(5, True), (3, False), (9, True)]) = 3"
  using stats_extrema [of "[(5, True), (3, False), (9, True)]" exact_float] by simp

end
