(* ===== verification/Chop_Block_Indexers.thy ===== *)
theory Chop_Block_Indexers
  imports Chop_Stores
begin

text \<open>
  Block indexers and fetchers (\<^verbatim>\<open>include/chop/block-indexers.h\<close>): the method tables, and the
  contract a stream indexer relies on, the locale \<open>block_indexing\<close>: a block that was indexed
  under a handle is what the fetcher returns for that handle, and a handle survives its binary
  serialization.  The contract speaks of a log of the blocks indexed so far, kept by a wrapper
  around any indexer, because a content hash keeps blocks apart only as long as no two
  blocks in use collide.
\<close>

section \<open>Interfaces\<close>

text \<open>How objects are written out (\<^verbatim>\<open>objects.h\<close>).\<close>

datatype chop_serial_method = CHOP_SERIAL_ASCII | CHOP_SERIAL_BINARY

text \<open>The handle class: serialization gives the contents of the buffer, or None when an
  assertion fails; deserialization gives the handle and the number of bytes it took.\<close>

record 'h handle_class =
  hc_serialize :: "chop_serial_method \<Rightarrow> 'h \<Rightarrow> bytes result option"
  hc_deserialize :: "chop_serial_method \<Rightarrow> bytes \<Rightarrow> ('h \<times> nat) result option"
  chop_index_handle_binary_size :: "'h \<Rightarrow> nat"

text \<open>An indexer has a state \<open>'i\<close> of its own and acts on a store with world \<open>'w\<close>; a fetcher has a
  state \<open>'f\<close>.  None is a call that does not return.\<close>

record ('i, 'w, 'h) block_indexer =
  index_block :: "'w block_store \<Rightarrow> bytes \<Rightarrow> 'i \<times> 'w \<Rightarrow> ('h result \<times> 'i \<times> 'w) option"

record ('f, 'w, 'h) block_fetcher =
  fetch_block ::
    "'w block_store \<Rightarrow> 'h \<Rightarrow> bytes \<Rightarrow> 'f \<times> 'w \<Rightarrow> ((chop_error \<times> bytes \<times> nat) \<times> 'f \<times> 'w) option"
  fetcher_blocks_exist ::
    "('w block_store \<Rightarrow> 'h list \<Rightarrow> bool list \<Rightarrow> 'w \<Rightarrow> (chop_error \<times> bool list) \<times> 'w) option"

definition chop_block_indexer_index ::
  "('i, 'w, 'h) block_indexer \<Rightarrow> 'w block_store \<Rightarrow> bytes \<Rightarrow> 'i \<times> 'w
     \<Rightarrow> ('h result \<times> 'i \<times> 'w) option" where
  "chop_block_indexer_index indexer = index_block indexer"

definition chop_block_fetcher_fetch ::
  "('f, 'w, 'h) block_fetcher \<Rightarrow> 'h \<Rightarrow> 'w block_store \<Rightarrow> bytes \<Rightarrow> 'f \<times> 'w
     \<Rightarrow> ((chop_error \<times> bytes \<times> nat) \<times> 'f \<times> 'w) option" where
  "chop_block_fetcher_fetch fetcher handle store = fetch_block fetcher store handle"

definition chop_block_fetcher_exist ::
  "('f, 'w, 'h) block_fetcher \<Rightarrow> 'h list \<Rightarrow> 'w block_store \<Rightarrow> bool list \<Rightarrow> 'w
     \<Rightarrow> (chop_error \<times> bool list) \<times> 'w" where
  "chop_block_fetcher_exist fetcher handles store exists w =
    (case fetcher_blocks_exist fetcher of
       None \<Rightarrow> ((CHOP_ERR_NOT_IMPL, exists), w)
     | Some f \<Rightarrow> f store handles exists w)"

definition chop_block_fetcher_exists ::
  "('f, 'w, 'h) block_fetcher \<Rightarrow> 'h \<Rightarrow> 'w block_store \<Rightarrow> 'w \<Rightarrow> (chop_error \<times> bool) \<times> 'w" where
  "chop_block_fetcher_exists fetcher handle store w =
    (case chop_block_fetcher_exist fetcher [handle] store [False] w of
       ((err, exists), w') \<Rightarrow> ((err, exists = [True]), w'))"

section \<open>Logging the indexed blocks\<close>

text \<open>A wrapper that records each handle given out with its block, newest first.  Forgetting
  the record gives the run of the indexer itself (\<open>logged_erase\<close>).\<close>

type_synonym 'h block_log = "('h \<times> bytes) list"

definition logged ::
  "('i, 'w, 'h) block_indexer \<Rightarrow> ('i \<times> 'h block_log, 'w, 'h) block_indexer" where
  "logged indexer =
    \<lparr>index_block = (\<lambda>store block ((i, lg), w).
       map_option (\<lambda>(r, i', w'). (r, (i', (case r of Inr h \<Rightarrow> (h, block) # lg | Inl err \<Rightarrow> lg)), w'))
         (chop_block_indexer_index indexer store block (i, w)))\<rparr>"

definition erase_log :: "('i \<times> 'h block_log) \<times> 'w \<Rightarrow> 'i \<times> 'w" where
  "erase_log = (\<lambda>((i, lg), w). (i, w))"

lemma erase_log_simp [simp]: "erase_log ((i, lg), w) = (i, w)"
  by (simp add: erase_log_def)

lemma logged_index_eq:
  "chop_block_indexer_index (logged bi) store block ((i, lg), w) =
    map_option (\<lambda>(r, i', w'). (r, (i', (case r of Inr h \<Rightarrow> (h, block) # lg | Inl err \<Rightarrow> lg)), w'))
      (chop_block_indexer_index bi store block (i, w))"
  by (simp add: chop_block_indexer_index_def logged_def)

lemma logged_erase:
  "chop_block_indexer_index indexer store block (erase_log il) =
    map_option (map_prod (\<lambda>r. r) erase_log) (chop_block_indexer_index (logged indexer) store block il)"
proof -
  obtain i lg w where il: "il = ((i, lg), w)" by (cases il) auto
  show ?thesis
    by (cases "chop_block_indexer_index indexer store block (i, w)") (auto simp: il logged_index_eq)
qed

section \<open>The contract\<close>

text \<open>A handle class whose binary form can be read back, whatever follows it, and whose
  \<^verbatim>\<open>binary_size\<close> is the size of that form.  Reading it back gives \<open>canon h\<close>, which may differ from
  \<open>h\<close> in what a fetcher does not look at.\<close>

locale handle_codec =
  fixes hc :: "'h handle_class"
    and wf_handle :: "'h \<Rightarrow> bool"
    and encode :: "'h \<Rightarrow> bytes"
    and canon :: "'h \<Rightarrow> 'h"
  assumes serialize_law: "wf_handle h \<Longrightarrow> hc_serialize hc CHOP_SERIAL_BINARY h = Some (Inr (encode h))"
    and deserialize_law:
      "wf_handle h \<Longrightarrow> hc_deserialize hc CHOP_SERIAL_BINARY (encode h @ rest) = Some (Inr (canon h, length (encode h)))"
    and binary_size_law: "wf_handle h \<Longrightarrow> chop_index_handle_binary_size hc h = length (encode h)"
    and encode_nonempty: "wf_handle h \<Longrightarrow> encode h \<noteq> []"
begin

text \<open>Handles written one after the other are read back one by one.\<close>

lemma encode_inj:
  assumes "wf_handle h" "wf_handle h'" "encode h @ rest = encode h' @ rest'"
  shows "canon h = canon h' \<and> rest = rest'"
  using deserialize_law [OF assms(1), of rest] deserialize_law [OF assms(2), of rest'] assms(3) by simp

end

text \<open>An indexer and its fetcher on one store.  \<open>J\<close> is what the indexer and the store need to
  work at all; \<open>I lg\<close> says moreover what they owe to the blocks logged so far, as long as the
  log is free of collisions (\<open>compat\<close>); \<open>F\<close> is what the fetcher needs.  Blocks of at most \<open>max_block\<close> bytes have handles
  whose binary form takes at most \<open>hsize\<close> bytes.\<close>

locale block_indexing = handle_codec hc wf_handle encode canon
  for hc :: "'h handle_class" and wf_handle encode canon +
  fixes bi :: "('i, 'w, 'h) block_indexer"
    and bf :: "('f, 'w, 'h) block_fetcher"
    and store :: "'w block_store"
    and J :: "'i \<times> 'w \<Rightarrow> bool"
    and I :: "'h block_log \<Rightarrow> 'i \<times> 'w \<Rightarrow> bool"
    and F :: "'f \<Rightarrow> bool"
    and compat :: "'h block_log \<Rightarrow> bool"
    and max_block :: nat
    and hsize :: nat
  assumes compat_tail: "compat (x # lg) \<Longrightarrow> compat lg"
    and index_law:
      "\<lbrakk>J iw; chop_block_indexer_index bi store block iw = Some (Inr h, iw'); length block \<le> max_block\<rbrakk>
       \<Longrightarrow> J iw' \<and> wf_handle h \<and> length (encode h) \<le> hsize"
    and index_fail_law:
      "\<lbrakk>J iw; chop_block_indexer_index bi store block iw = Some (Inl err, iw')\<rbrakk> \<Longrightarrow> err \<noteq> CHOP_OK \<and> J iw'"
    and log_law:
      "\<lbrakk>I lg iw; chop_block_indexer_index bi store block iw = Some (Inr h, iw'); compat ((h, block) # lg)\<rbrakk>
       \<Longrightarrow> I ((h, block) # lg) iw'"
    and log_fail_law:
      "\<lbrakk>I lg iw; chop_block_indexer_index bi store block iw = Some (Inl err, iw')\<rbrakk> \<Longrightarrow> I lg iw'"
    and fetch_law:
      "\<lbrakk>I lg (i, w); F f; (h, block) \<in> set lg; h' \<in> {h, canon h}\<rbrakk>
       \<Longrightarrow> \<exists>f' w'. chop_block_fetcher_fetch bf h' store buffer (f, w)
             = Some ((CHOP_OK, block, length block), f', w') \<and> I lg (i, w') \<and> F f'"
begin

text \<open>What reading relies on: the store holds the logged blocks and the fetcher works.\<close>

definition fetchable :: "'h block_log \<Rightarrow> 'i \<Rightarrow> 'f \<times> 'w \<Rightarrow> bool" where
  "fetchable lg i fw \<longleftrightarrow> I lg (i, snd fw) \<and> F (fst fw)"

lemma fetch_result:
  assumes "fetchable lg i fw" "(h, block) \<in> set lg" "h' \<in> {h, canon h}"
  obtains fw' where "chop_block_fetcher_fetch bf h' store buffer fw = Some ((CHOP_OK, block, length block), fw')"
    "fetchable lg i fw'"
  using fetch_law [of lg i "snd fw" "fst fw" h block h' buffer] assms by (auto simp: fetchable_def)

lemma compat_append: "compat (xs @ lg) \<Longrightarrow> compat lg"
  by (induction xs) (auto dest: compat_tail)

end

text \<open>A store that can be written: indexing never fails.\<close>

locale reliable_indexing = block_indexing +
  assumes index_succeeds:
    "J iw \<Longrightarrow> \<exists>h iw'. chop_block_indexer_index bi store block iw = Some (Inr h, iw')"

section \<open>Runs of an indexer\<close>

text \<open>The states that calls of a logging indexer on one store lead to.\<close>

inductive index_run ::
  "('i, 'w, 'h) block_indexer \<Rightarrow> 'w block_store
     \<Rightarrow> ('i \<times> 'h block_log) \<times> 'w \<Rightarrow> ('i \<times> 'h block_log) \<times> 'w \<Rightarrow> bool"
  for bi :: "('i, 'w, 'h) block_indexer" and store :: "'w block_store"
where
  run_refl: "index_run bi store s s"
| run_step: "index_run bi store s t
     \<Longrightarrow> chop_block_indexer_index (logged bi) store block t = Some (r, u) \<Longrightarrow> index_run bi store s u"

lemma index_run_trans:
  assumes "index_run bi store t u" "index_run bi store s t"
  shows "index_run bi store s u"
  using assms by (induction) (auto intro: run_step)

definition log_of :: "('i \<times> 'h block_log) \<times> 'w \<Rightarrow> 'h block_log" where
  "log_of s = snd (fst s)"

lemma logged_log:
  assumes "chop_block_indexer_index (logged bi) store block t = Some (r, u)"
  shows "log_of u = (case r of Inr h \<Rightarrow> (h, block) # log_of t | Inl e \<Rightarrow> log_of t)"
    and "chop_block_indexer_index bi store block (erase_log t) = Some (r, erase_log u)"
  using assms
  by (cases t; auto simp: logged_index_eq log_of_def split: prod.splits sum.splits)+

text \<open>The log only grows.\<close>

lemma index_run_log:
  "index_run bi store s t \<Longrightarrow> \<exists>new. log_of t = new @ log_of s"
proof (induction rule: index_run.induct)
  case (run_step s t block r u)
  then obtain new where "log_of t = new @ log_of s" by blast
  with logged_log(1) [OF run_step.hyps(2)] show ?case
    by (cases r) (auto intro: exI [of _ "(_, _) # _"])
qed simp

lemma index_run_mono: "index_run bi store s t \<Longrightarrow> set (log_of s) \<subseteq> set (log_of t)"
  using index_run_log by fastforce

context block_indexing
begin

text \<open>A run keeps the contract, if the final log is free of collisions.\<close>

lemma index_run_inv:
  assumes "index_run bi store s t" "I (log_of s) (erase_log s)" "compat (log_of t)"
  shows "I (log_of t) (erase_log t)"
  using assms
proof (induction rule: index_run.induct)
  case (run_step s t block r u)
  note l = logged_log [OF run_step.hyps(2)]
  have "compat (log_of t)" using run_step.prems(2) l(1) compat_tail by (cases r) auto
  with run_step have "I (log_of t) (erase_log t)" by blast
  with l run_step.prems(2) log_law log_fail_law show ?case by (cases r) auto
qed

end

section \<open>Indexers that write under a key of the handle\<close>

text \<open>Every indexer of the program derives a key from the handle (\<open>key\<close>) and writes some form of
  the block under it (\<open>stored\<close>).  Two logged blocks may share a key only with the same stored
  form; then each is in the store, and nothing else is.\<close>

definition key_compat :: "('h \<Rightarrow> block_key) \<Rightarrow> ('h \<Rightarrow> bytes \<Rightarrow> bytes) \<Rightarrow> 'h block_log \<Rightarrow> bool" where
  "key_compat key stored lg \<longleftrightarrow>
    (\<forall>(h, b) \<in> set lg. \<forall>(h', b') \<in> set lg. key h = key h' \<longrightarrow> stored h b = stored h' b')"

definition key_inv ::
  "('h \<Rightarrow> block_key) \<Rightarrow> ('h \<Rightarrow> bytes \<Rightarrow> bytes) \<Rightarrow> 'h block_log \<Rightarrow> (block_key \<rightharpoonup> bytes) \<Rightarrow> bool" where
  "key_inv key stored lg m \<longleftrightarrow>
    (\<forall>(h, b) \<in> set lg. m (key h) = Some (stored h b))
    \<and> (\<forall>k c. m k = Some c \<longrightarrow> (\<exists>(h, b) \<in> set lg. key h = k \<and> stored h b = c))"

lemma key_compat_tail: "key_compat key stored (x # lg) \<Longrightarrow> key_compat key stored lg"
  by (auto simp: key_compat_def)

lemma key_inv_empty [simp]: "key_inv key stored [] Map.empty"
  by (simp add: key_inv_def)

lemma key_inv_lookup:
  "key_inv key stored lg m \<Longrightarrow> (h, b) \<in> set lg \<Longrightarrow> m (key h) = Some (stored h b)"
  by (auto simp: key_inv_def)

lemma key_inv_free:
  assumes "key_inv key stored lg m" "key_compat key stored ((h, b) # lg)"
  shows "m (key h) \<in> {None, Some (stored h b)}"
proof (cases "m (key h)")
  case (Some c)
  then obtain h' b' where "(h', b') \<in> set lg" "key h' = key h" "stored h' b' = c"
    using assms(1) unfolding key_inv_def by blast
  with assms(2) have "c = stored h b" by (force simp: key_compat_def)
  with Some show ?thesis by simp
qed simp

lemma key_inv_update:
  assumes "key_inv key stored lg m" "key_compat key stored ((h, b) # lg)"
  shows "key_inv key stored ((h, b) # lg) (m(key h \<mapsto> stored h b))"
proof -
  have "(m(key h \<mapsto> stored h b)) (key h') = Some (stored h' b')" if "(h', b') \<in> set ((h, b) # lg)" for h' b'
    using that assms key_inv_lookup [OF assms(1)] by (force simp: key_compat_def)
  moreover have "\<exists>(h', b') \<in> set ((h, b) # lg). key h' = k \<and> stored h' b' = c"
    if "(m(key h \<mapsto> stored h b)) k = Some c" for k c
  proof (cases "k = key h")
    case False
    with that have "m k = Some c" by simp
    with assms(1) obtain h' b' where "(h', b') \<in> set lg" "key h' = k" "stored h' b' = c"
      unfolding key_inv_def by blast
    then show ?thesis by auto
  qed (use that in auto)
  ultimately show ?thesis unfolding key_inv_def by blast
qed

context map_store
begin

lemma keyed_write:
  assumes "inv w" "key_inv key stored lg (contents w)" "key_compat key stored ((h, b) # lg)"
    and "chop_store_write_block store w (key h) (stored h b) = (CHOP_OK, w')"
  shows "inv w'" "key_inv key stored ((h, b) # lg) (contents w')"
proof -
  have "contents w' = (contents w)(key h \<mapsto> stored h b)"
    using write_contents [OF assms(1,4)] key_inv_free [OF assms(2,3)] by simp
  then show "key_inv key stored ((h, b) # lg) (contents w')"
    using key_inv_update [OF assms(2,3)] by simp
  show "inv w'" using write_block_law [OF assms(1,4)] by simp
qed

lemma keyed_read:
  assumes "inv w" "key_inv key stored lg (contents w)" "(h, b) \<in> set lg"
    and "chop_store_read_block store w (key h) buffer = (r, w')"
  shows "r = (CHOP_OK, stored h b, length (stored h b))" "inv w'" "contents w' = contents w"
  using read_block_law [OF assms(1,4)] key_inv_lookup [OF assms(2,3)] by simp_all

end

end
