(* ===== verification/Chop_Streams.thy ===== *)
theory Chop_Streams
  imports Chop_Prelude
begin

text \<open>
  Input streams (\<^verbatim>\<open>include/chop/streams.h\<close>): the read method, the memory stream
  (\<^verbatim>\<open>src/src/stream-mem.c\<close>) and the file stream (\<^verbatim>\<open>src/src/stream-file.c\<close>), with the contract
  a reader relies on, the locale \<open>byte_stream\<close>.
\<close>

section \<open>Interface\<close>

text \<open>Reading at most so many bytes gives a code and the bytes read; None is a call that
  does not return.\<close>

type_synonym 's stream_read = "'s \<Rightarrow> nat \<Rightarrow> (chop_error \<times> bytes \<times> 's) option"

definition chop_stream_read :: "'s stream_read \<Rightarrow> 's \<Rightarrow> nat \<Rightarrow> (chop_error \<times> bytes \<times> 's) option" where
  "chop_stream_read rd s n = rd s n"

section \<open>Memory streams\<close>

record mem_stream =
  ms_base :: bytes
  ms_offset :: nat
  ms_size :: nat

definition chop_mem_stream_open :: "bytes \<Rightarrow> nat \<Rightarrow> mem_stream" where
  "chop_mem_stream_open base sz = \<lparr>ms_base = base, ms_offset = 0, ms_size = sz\<rparr>"

definition chop_mem_stream_close :: "mem_stream \<Rightarrow> mem_stream" where
  "chop_mem_stream_close s = \<lparr>ms_base = [], ms_offset = 0, ms_size = 0\<rparr>"

definition chop_mem_stream_read :: "mem_stream stream_read" where
  "chop_mem_stream_read s howmuch =
    (if ms_size s \<le> ms_offset s then Some (CHOP_STREAM_END, [], s)
     else let remaining = ms_size s - ms_offset s;
              n = (if remaining < howmuch then remaining else howmuch)
          in Some (CHOP_OK, take n (drop (ms_offset s) (ms_base s)), s\<lparr>ms_offset := ms_offset s + n\<rparr>))"

section \<open>File streams\<close>

text \<open>The calls of the system a file stream makes, over a state of the system; an error is the value of
  \<^verbatim>\<open>errno\<close>.  \<^verbatim>\<open>full_read\<close> (gnulib) gives the bytes read and the value it leaves in \<^verbatim>\<open>errno\<close>.\<close>

record file_stat =
  st_size :: nat
  st_blksize :: nat

record 'o file_system =
  sys_stat :: "'o \<Rightarrow> bytes \<Rightarrow> nat + file_stat"
  sys_fstat :: "'o \<Rightarrow> int \<Rightarrow> nat + file_stat"
  sys_open :: "'o \<Rightarrow> bytes \<Rightarrow> (nat + int) \<times> 'o"
  sys_close :: "'o \<Rightarrow> int \<Rightarrow> 'o"
  full_read :: "'o \<Rightarrow> int \<Rightarrow> nat \<Rightarrow> bytes \<times> nat \<times> 'o"

text \<open>A stream with the state of the system it reads from.\<close>

record 'o file_stream =
  fs_system :: 'o
  fs_fd :: int
  fs_size :: nat
  fs_position :: nat
  fs_eventually_close :: bool
  fs_preferred_block_size :: nat
  fs_name :: bytes

definition file_stream_open :: "int \<Rightarrow> bool \<Rightarrow> file_stat \<Rightarrow> bytes \<Rightarrow> 'o \<Rightarrow> 'o file_stream" where
  "file_stream_open fd eventually_close file_stats name s =
    \<lparr>fs_system = s, fs_fd = fd, fs_size = st_size file_stats, fs_position = 0,
     fs_eventually_close = eventually_close, fs_preferred_block_size = st_blksize file_stats, fs_name = name\<rparr>"

definition chop_file_stream_open :: "'o file_system \<Rightarrow> bytes \<Rightarrow> 'o \<Rightarrow> 'o file_stream result \<times> 'o" where
  "chop_file_stream_open sys path s =
    (case sys_stat sys s path of
       Inl e \<Rightarrow> (Inl (ERRNO e), s)
     | Inr file_stats \<Rightarrow>
        (case sys_open sys s path of
           (Inl e, s') \<Rightarrow> (Inl (ERRNO e), s')
         | (Inr fd, s') \<Rightarrow> (Inr (file_stream_open fd True file_stats path s'), s')))"

text \<open>\<^verbatim>\<open>"%i"\<close> of the descriptor is the name; \<^verbatim>\<open>snprintf\<close> cuts it after 19 characters.\<close>

fun decimal :: "nat \<Rightarrow> bytes" where
  "decimal n = (if n < 10 then [of_char CHR ''0'' + of_nat n] else decimal (n div 10) @ [of_char CHR ''0'' + of_nat (n mod 10)])"

declare decimal.simps [simp del]

definition sprintf_i :: "int \<Rightarrow> bytes" where
  "sprintf_i n = (if n < 0 then of_char CHR ''-'' # decimal (nat (- n)) else decimal (nat n))"

definition chop_file_stream_open_fd :: "'o file_system \<Rightarrow> int \<Rightarrow> bool \<Rightarrow> 'o \<Rightarrow> 'o file_stream result" where
  "chop_file_stream_open_fd sys fd eventually_close s =
    (case sys_fstat sys s fd of
       Inl e \<Rightarrow> Inl (ERRNO e)
     | Inr file_stats \<Rightarrow> Inr (file_stream_open fd eventually_close file_stats (take 19 (sprintf_i fd)) s))"

text \<open>Without \<^verbatim>\<open>USE_MMAP\<close> a file stream reads its descriptor.  A read error with nothing read is
  reported as success.\<close>

definition chop_file_stream_read :: "'o file_system \<Rightarrow> 'o file_stream stream_read" where
  "chop_file_stream_read sys s howmuch =
    (case full_read sys (fs_system s) (fs_fd s) howmuch of (bs, errno, s') \<Rightarrow>
       if length bs = 0 \<and> errno = 0 then Some (CHOP_STREAM_END, bs, s\<lparr>fs_system := s'\<rparr>)
       else Some (CHOP_OK, bs, s\<lparr>fs_system := s', fs_position := fs_position s + length bs\<rparr>))"

definition chop_file_stream_close :: "'o file_system \<Rightarrow> 'o file_stream \<Rightarrow> 'o file_stream" where
  "chop_file_stream_close sys s =
    (let s' = (if fs_eventually_close s \<and> 2 < fs_fd s then sys_close sys (fs_system s) (fs_fd s) else fs_system s)
     in s\<lparr>fs_system := s', fs_fd := -1\<rparr>)"

text \<open>With \<^verbatim>\<open>USE_MMAP\<close> it reads the mapped file.\<close>

record mapped_file_stream =
  mf_map :: bytes
  mf_size :: nat
  mf_position :: nat

definition chop_mapped_file_stream_read :: "mapped_file_stream stream_read" where
  "chop_mapped_file_stream_read s howmuch =
    (if mf_size s \<le> mf_position s then Some (CHOP_STREAM_END, [], s)
     else let remaining = mf_size s - mf_position s;
              n = (if remaining < howmuch then remaining else howmuch)
          in Some (CHOP_OK, take n (drop (mf_position s) (mf_map s)),
                   s\<lparr>mf_position := mf_position s + n\<rparr>))"

section \<open>The contract of a stream\<close>

text \<open>\<open>rest s\<close> is what is left to read.  A read of at least one byte returns a
  non-empty part of it, or says that nothing is left.\<close>

locale byte_stream =
  fixes rd :: "'s stream_read"
    and inv :: "'s \<Rightarrow> bool"
    and rest :: "'s \<Rightarrow> bytes"
  assumes read_law:
    "inv s \<Longrightarrow> 0 < n \<Longrightarrow>
      (if rest s = [] then \<exists>s'. chop_stream_read rd s n = Some (CHOP_STREAM_END, [], s') \<and> inv s' \<and> rest s' = []
       else \<exists>bs s'. chop_stream_read rd s n = Some (CHOP_OK, bs, s') \<and> inv s' \<and> rest s = bs @ rest s'
              \<and> bs \<noteq> [] \<and> length bs \<le> n)"
begin

lemma read_end:
  assumes "inv s" "0 < n" "rest s = []"
  obtains s' where "chop_stream_read rd s n = Some (CHOP_STREAM_END, [], s')" "inv s'" "rest s' = []"
  using read_law [OF assms(1,2)] assms(3) by auto

lemma read_some:
  assumes "inv s" "0 < n" "rest s \<noteq> []"
  obtains bs s' where "chop_stream_read rd s n = Some (CHOP_OK, bs, s')" "inv s'" "rest s = bs @ rest s'"
    "bs \<noteq> []" "length bs \<le> n"
  using read_law [OF assms(1,2)] assms(3) by auto

end

definition ms_inv :: "mem_stream \<Rightarrow> bool" where
  "ms_inv s \<longleftrightarrow> ms_size s \<le> length (ms_base s)"

definition ms_rest :: "mem_stream \<Rightarrow> bytes" where
  "ms_rest s = drop (ms_offset s) (take (ms_size s) (ms_base s))"

lemma window_split:
  assumes "n \<le> sz - i"
  shows "take n (drop i xs) @ drop (i + n) (take sz xs) = drop i (take sz xs)"
proof -
  have "take n (drop i xs) = take n (drop i (take sz xs))"
    using assms by (simp add: drop_take min_absorb1)
  moreover have "drop (i + n) (take sz xs) = drop n (drop i (take sz xs))"
    by (simp add: add.commute)
  ultimately show ?thesis by (simp only: append_take_drop_id)
qed

interpretation mem: byte_stream chop_mem_stream_read ms_inv ms_rest
proof (unfold_locales, goal_cases)
  case (1 s n)
  show ?case
  proof (cases "ms_size s \<le> ms_offset s")
    case True
    with 1 show ?thesis by (simp add: chop_stream_read_def chop_mem_stream_read_def ms_rest_def)
  next
    case False
    let ?n = "if ms_size s - ms_offset s < n then ms_size s - ms_offset s else n"
    have "ms_rest s = take ?n (drop (ms_offset s) (ms_base s)) @ ms_rest (s\<lparr>ms_offset := ms_offset s + ?n\<rparr>)"
      using window_split [of ?n "ms_size s" "ms_offset s" "ms_base s"] by (simp add: ms_rest_def)
    moreover have "take ?n (drop (ms_offset s) (ms_base s)) \<noteq> []" "length (take ?n (drop (ms_offset s) (ms_base s))) \<le> n"
      using 1 False by (auto simp: ms_inv_def)
    ultimately show ?thesis
      using 1 False by (simp add: chop_stream_read_def chop_mem_stream_read_def Let_def ms_inv_def)
  qed
qed

definition mf_inv :: "mapped_file_stream \<Rightarrow> bool" where
  "mf_inv s \<longleftrightarrow> mf_size s \<le> length (mf_map s)"

definition mf_rest :: "mapped_file_stream \<Rightarrow> bytes" where
  "mf_rest s = drop (mf_position s) (take (mf_size s) (mf_map s))"

text \<open>A mapped file is read as memory is.\<close>

definition mem_of_mapped :: "mapped_file_stream \<Rightarrow> mem_stream" where
  "mem_of_mapped s = \<lparr>ms_base = mf_map s, ms_offset = mf_position s, ms_size = mf_size s\<rparr>"

lemma mapped_read_simulates:
  "chop_mem_stream_read (mem_of_mapped s) n =
    map_option (\<lambda>(err, bs, s'). (err, bs, mem_of_mapped s')) (chop_mapped_file_stream_read s n)"
  by (simp add: chop_mem_stream_read_def chop_mapped_file_stream_read_def mem_of_mapped_def Let_def)

interpretation mapped: byte_stream chop_mapped_file_stream_read mf_inv mf_rest
proof (unfold_locales, goal_cases)
  case (1 s n)
  have abs: "ms_inv (mem_of_mapped t) = mf_inv t" "ms_rest (mem_of_mapped t) = mf_rest t" for t
    by (simp_all add: ms_inv_def mf_inv_def ms_rest_def mf_rest_def mem_of_mapped_def)
  from mem.read_law [of "mem_of_mapped s" n] 1 show ?case
    by (auto simp: chop_stream_read_def mapped_read_simulates abs split: if_splits)
qed

text \<open>Files that can be read without errors: \<open>unread\<close> is what a descriptor has yet to deliver, and
  \<^verbatim>\<open>full_read\<close> reads as much as it is asked for, or all of it.\<close>

definition readable_files :: "'o file_system \<Rightarrow> ('o \<Rightarrow> int \<Rightarrow> bytes) \<Rightarrow> bool" where
  "readable_files sys unread \<longleftrightarrow>
    (\<forall>s fd n. case full_read sys s fd n of (bs, errno, s') \<Rightarrow>
       bs = take n (unread s fd) \<and> errno = 0 \<and> unread s' fd = drop n (unread s fd))"

definition file_rest :: "('o \<Rightarrow> int \<Rightarrow> bytes) \<Rightarrow> 'o file_stream \<Rightarrow> bytes" where
  "file_rest unread s = unread (fs_system s) (fs_fd s)"

interpretation open_file: byte_stream "chop_file_stream_read sys" "\<lambda>s. readable_files sys unread" "file_rest unread"
  for sys :: "'o file_system" and unread
proof (unfold_locales, goal_cases)
  case (1 s n)
  obtain bs e s' where r: "full_read sys (fs_system s) (fs_fd s) n = (bs, e, s')"
    by (metis prod.exhaust)
  with 1(1) have "bs = take n (file_rest unread s)" "e = 0" "unread s' (fs_fd s) = drop n (file_rest unread s)"
    unfolding readable_files_def file_rest_def by (metis (mono_tags, lifting) case_prod_conv)+
  with 1 r show ?case
    by (auto simp: chop_stream_read_def chop_file_stream_read_def file_rest_def)
qed

end
