(* ===== verification/Chop_Choppers.thy ===== *)
theory Chop_Choppers
  imports Chop_Streams
begin

text \<open>
  Choppers (\<^verbatim>\<open>include/chop/choppers.h\<close>) cut a stream into blocks: the interface, its contract
  (the locale \<open>block_source\<close>), and the two simple choppers,
  \<^verbatim>\<open>src/src/chopper-fixed-size.c\<close> and \<^verbatim>\<open>src/src/chopper-whole-stream.c\<close>.
\<close>

section \<open>Interface\<close>

text \<open>Reading a block takes the old contents of the buffer; it gives a code, the new contents
  and \<^verbatim>\<open>*size\<close>, or None when it does not return.\<close>

type_synonym 'c read_block = "'c \<Rightarrow> bytes \<Rightarrow> ((chop_error \<times> bytes \<times> nat) \<times> 'c) option"

definition chop_chopper_read_block ::
  "'c read_block \<Rightarrow> 'c \<Rightarrow> bytes \<Rightarrow> ((chop_error \<times> bytes \<times> nat) \<times> 'c) option" where
  "chop_chopper_read_block rb c buffer = rb c buffer"

section \<open>Fixed-size choppers\<close>

record 's fixed_size_chopper =
  fc_stream :: 's
  fc_block_size :: nat
  fc_pad_blocks :: bool

definition chop_fixed_size_chopper_init :: "'s \<Rightarrow> nat \<Rightarrow> bool \<Rightarrow> 's fixed_size_chopper" where
  "chop_fixed_size_chopper_init input block_size pad_blocks =
    \<lparr>fc_stream = input, fc_block_size = block_size, fc_pad_blocks = pad_blocks\<rparr>"

definition chop_fs_generic_open :: "'s \<Rightarrow> nat \<Rightarrow> nat \<Rightarrow> 's fixed_size_chopper" where
  "chop_fs_generic_open input preferred_block_size block_size =
    chop_fixed_size_chopper_init input
      (if block_size = 0 then preferred_block_size else block_size) False"

text \<open>The loop that fills \<^verbatim>\<open>block\<close>, with the last code.\<close>

partial_function (option) fixed_fill ::
  "'s stream_read \<Rightarrow> nat \<Rightarrow> chop_error \<Rightarrow> bytes \<Rightarrow> 's \<Rightarrow> (chop_error \<times> bytes \<times> 's) option" where
  "fixed_fill rd block_size err block s =
    (if length block < block_size then
       Option.bind (chop_stream_read rd s (block_size - length block)) (\<lambda>(err, bs, s').
         if err \<noteq> CHOP_OK then Some (err, block @ bs, s')
         else fixed_fill rd block_size err (block @ bs) s')
     else Some (err, block, s))"

declare fixed_fill.simps [code]

text \<open>Padding writes the character \<^verbatim>\<open>'0'\<close>.\<close>

definition chop_fixed_chopper_read_block :: "'s stream_read \<Rightarrow> 's fixed_size_chopper read_block" where
  "chop_fixed_chopper_read_block rd fixed buffer =
    Option.bind (fixed_fill rd (fc_block_size fixed) CHOP_OK [] (fc_stream fixed)) (\<lambda>(err, block, s').
      let fixed' = fixed\<lparr>fc_stream := s'\<rparr> in
      if err \<noteq> CHOP_OK \<and> err \<noteq> CHOP_STREAM_END then Some ((err, buffer, length block), fixed')
      else if block = [] then Some ((err, buffer, 0), fixed')
      else let block' = (if fc_pad_blocks fixed \<and> length block < fc_block_size fixed
                         then block @ replicate (fc_block_size fixed - length block) (of_char CHR ''0'')
                         else block)
           in Some ((CHOP_OK, block', length block'), fixed'))"

section \<open>Whole-stream choppers\<close>

text \<open>Appending to the buffer succeeds, so a read that ends the stream and still brings bytes
  is followed by another one.\<close>

partial_function (option) whole_loop ::
  "'s stream_read \<Rightarrow> bytes \<Rightarrow> 's \<Rightarrow> (chop_error \<times> bytes \<times> 's) option" where
  "whole_loop rd buffer s =
    Option.bind (chop_stream_read rd s 4096) (\<lambda>(err, bs, s').
      if (err = CHOP_OK \<or> err = CHOP_STREAM_END) \<and> 0 < length bs
      then whole_loop rd (buffer @ bs) s'
      else if err \<noteq> CHOP_OK then Some (err, buffer, s')
      else whole_loop rd buffer s')"

declare whole_loop.simps [code]

definition read_whole_stream :: "'s stream_read \<Rightarrow> 's read_block" where
  "read_whole_stream rd s buffer0 =
    Option.bind (whole_loop rd [] s) (\<lambda>(err, buffer, s').
      if err = CHOP_STREAM_END then
        if buffer = [] then Some ((err, buffer, 0), s')
        else Some ((CHOP_OK, buffer, length buffer), s')
      else Some ((err, buffer, length buffer), s'))"

text \<open>Reading blocks until the first code other than success, as every client does.\<close>

partial_function (option) drain :: "'c read_block \<Rightarrow> 'c \<Rightarrow> bytes list \<Rightarrow> (chop_error \<times> bytes list \<times> 'c) option"
where
  "drain rb c acc =
    Option.bind (chop_chopper_read_block rb c []) (\<lambda>((err, b, n), c').
      if err \<noteq> CHOP_OK then Some (err, acc, c') else drain rb c' (acc @ [b]))"

declare drain.simps [code]

section \<open>The contract of a chopper\<close>

text \<open>\<open>blocks c\<close> is the list of the blocks still to come; none is empty.\<close>

locale block_source =
  fixes rb :: "'c read_block"
    and inv :: "'c \<Rightarrow> bool"
    and blocks :: "'c \<Rightarrow> bytes list"
  assumes read_block_law:
      "inv c \<Longrightarrow> (case blocks c of
         [] \<Rightarrow> \<exists>buf c'. chop_chopper_read_block rb c buffer = Some ((CHOP_STREAM_END, buf, 0), c')
                \<and> inv c' \<and> blocks c' = []
       | b # bs \<Rightarrow> \<exists>c'. chop_chopper_read_block rb c buffer = Some ((CHOP_OK, b, length b), c')
                \<and> inv c' \<and> blocks c' = bs)"
    and blocks_nonempty: "inv c \<Longrightarrow> [] \<notin> set (blocks c)"
begin

lemma read_last:
  assumes "inv c" "blocks c = []"
  obtains buf c' where "chop_chopper_read_block rb c buffer = Some ((CHOP_STREAM_END, buf, 0), c')"
    "inv c'" "blocks c' = []"
  using read_block_law [OF assms(1), of buffer] assms(2) by auto

lemma read_next:
  assumes "inv c" "blocks c = b # bs"
  obtains c' where "chop_chopper_read_block rb c buffer = Some ((CHOP_OK, b, length b), c')"
    "inv c'" "blocks c' = bs" "b \<noteq> []"
  using read_block_law [OF assms(1), of buffer] blocks_nonempty [OF assms(1)] assms(2) by auto

lemma drain_list:
  assumes "inv c" "blocks c = xs"
  shows "\<exists>c'. drain rb c acc = Some (CHOP_STREAM_END, acc @ xs, c') \<and> inv c'"
  using assms
proof (induction xs arbitrary: c acc)
  case Nil
  then obtain buf c' where "chop_chopper_read_block rb c [] = Some ((CHOP_STREAM_END, buf, 0), c')" "inv c'"
    using read_last by metis
  then show ?case by (subst drain.simps) simp
next
  case (Cons b bs)
  then obtain c' where c': "chop_chopper_read_block rb c [] = Some ((CHOP_OK, b, length b), c')"
    "inv c'" "blocks c' = bs"
    using read_next by metis
  with Cons.IH [of c' "acc @ [b]"] show ?case
    by (subst drain.simps) simp
qed

lemmas drain_blocks = drain_list [OF _ refl]

end

section \<open>The choppers meet the contract\<close>

text \<open>Cutting a list into pieces of one size, the last one shorter, possibly padded.\<close>

function chunks :: "nat \<Rightarrow> 'a list \<Rightarrow> 'a list list" where
  "chunks n xs = (if n = 0 \<or> xs = [] then [] else take n xs # chunks n (drop n xs))"
  by auto
termination by (relation "measure (\<lambda>(n, xs). length xs)") auto

declare chunks.simps [simp del]

lemma chunks_Nil [simp]: "chunks n [] = []"
  by (simp add: chunks.simps)

lemma chunks_step: "0 < n \<Longrightarrow> xs \<noteq> [] \<Longrightarrow> chunks n xs = take n xs # chunks n (drop n xs)"
  by (simp add: chunks.simps)

lemma concat_chunks: "0 < n \<Longrightarrow> concat (chunks n xs) = xs"
  by (induction n xs rule: chunks.induct) (subst chunks.simps, simp)

lemma chunks_nonempty: "0 < n \<Longrightarrow> [] \<notin> set (chunks n xs)"
  by (induction n xs rule: chunks.induct) (subst chunks.simps, simp)

definition pad_to :: "nat \<Rightarrow> bytes \<Rightarrow> bytes" where
  "pad_to n b = b @ replicate (n - length b) (of_char CHR ''0'')"

definition fixed_blocks :: "('s \<Rightarrow> bytes) \<Rightarrow> 's fixed_size_chopper \<Rightarrow> bytes list" where
  "fixed_blocks rest fixed =
    map (if fc_pad_blocks fixed then pad_to (fc_block_size fixed) else (\<lambda>b. b))
      (chunks (fc_block_size fixed) (rest (fc_stream fixed)))"

definition whole_blocks :: "('s \<Rightarrow> bytes) \<Rightarrow> 's \<Rightarrow> bytes list" where
  "whole_blocks rest s = (if rest s = [] then [] else [rest s])"

locale chopped_stream = byte_stream rd inv rest
  for rd :: "'s stream_read" and inv and rest
begin

lemma fixed_fill_spec:
  assumes "inv s" "length block \<le> n"
  shows "\<exists>e s'. fixed_fill rd n CHOP_OK block s = Some (e, block @ take (n - length block) (rest s), s')
    \<and> inv s' \<and> rest s' = drop (n - length block) (rest s)
    \<and> (e = CHOP_OK \<or> e = CHOP_STREAM_END \<and> length (rest s) < n - length block)"
  using assms
proof (induction "n - length block" arbitrary: block s rule: less_induct)
  case less
  show ?case
  proof (cases "length block < n")
    case False
    then show ?thesis using less.prems by (subst fixed_fill.simps) auto
  next
    case True
    let ?k = "n - length block"
    show ?thesis
    proof (cases "rest s = []")
      case True
      with less.prems \<open>length block < n\<close> obtain s' where
        "chop_stream_read rd s ?k = Some (CHOP_STREAM_END, [], s')" "inv s'" "rest s' = []"
        using read_end [of s ?k] by auto
      with True \<open>length block < n\<close> show ?thesis by (subst fixed_fill.simps) auto
    next
      case False
      with less.prems \<open>length block < n\<close> obtain bs s1 where r:
        "chop_stream_read rd s ?k = Some (CHOP_OK, bs, s1)" "inv s1" "rest s = bs @ rest s1"
        "bs \<noteq> []" "length bs \<le> ?k"
        using read_some [of s ?k] by auto
      have "n - length (block @ bs) < ?k" "length (block @ bs) \<le> n"
        using r(4,5) True less.prems by (auto simp flip: length_greater_0_conv)
      from less.hyps [OF this(1) r(2) this(2)] r True show ?thesis
        by (subst fixed_fill.simps) (auto simp: add.commute)
    qed
  qed
qed

lemma whole_loop_spec:
  assumes "inv s"
  shows "\<exists>s'. whole_loop rd buffer s = Some (CHOP_STREAM_END, buffer @ rest s, s') \<and> inv s' \<and> rest s' = []"
  using assms
proof (induction "length (rest s)" arbitrary: buffer s rule: less_induct)
  case less
  show ?case
  proof (cases "rest s = []")
    case True
    with less.prems obtain s' where "chop_stream_read rd s 4096 = Some (CHOP_STREAM_END, [], s')"
      "inv s'" "rest s' = []"
      using read_end [of s 4096] by auto
    with True show ?thesis by (subst whole_loop.simps) simp
  next
    case False
    with less.prems obtain bs s1 where r: "chop_stream_read rd s 4096 = Some (CHOP_OK, bs, s1)" "inv s1"
      "rest s = bs @ rest s1" "bs \<noteq> []"
      using read_some [of s 4096] by (metis zero_less_numeral)
    from less.hyps [OF _ r(2), of "buffer @ bs"] r show ?thesis
      by (subst whole_loop.simps) auto
  qed
qed

lemma fixed_read_block:
  assumes "inv (fc_stream c)" "0 < fc_block_size c"
  shows "case fixed_blocks rest c of
     [] \<Rightarrow> \<exists>buf c'. chop_chopper_read_block (chop_fixed_chopper_read_block rd) c buffer
              = Some ((CHOP_STREAM_END, buf, 0), c') \<and> inv (fc_stream c') \<and> fixed_blocks rest c' = []
              \<and> fc_block_size c' = fc_block_size c
   | b # bs \<Rightarrow> \<exists>c'. chop_chopper_read_block (chop_fixed_chopper_read_block rd) c buffer
              = Some ((CHOP_OK, b, length b), c') \<and> inv (fc_stream c') \<and> fixed_blocks rest c' = bs
              \<and> fc_block_size c' = fc_block_size c"
proof -
  let ?n = "fc_block_size c" and ?r = "rest (fc_stream c)"
  obtain e s' where f: "fixed_fill rd ?n CHOP_OK [] (fc_stream c) = Some (e, take ?n ?r, s')"
    "inv s'" "rest s' = drop ?n ?r" "e = CHOP_OK \<or> e = CHOP_STREAM_END \<and> length ?r < ?n"
    using fixed_fill_spec [OF assms(1), of "[]" ?n] by auto
  show ?thesis
  proof (cases "?r = []")
    case True
    with assms(2) f(1) have "e = CHOP_STREAM_END"
      using read_law [OF assms] by (subst (asm) fixed_fill.simps) (auto simp: True)
    with f True show ?thesis
      by (simp add: chop_chopper_read_block_def chop_fixed_chopper_read_block_def fixed_blocks_def Let_def)
  next
    case False
    have "replicate (?n - min (length ?r) ?n) (of_char CHR ''0'' :: byte) = []" if "?n \<le> length ?r"
      using that by simp
    with f False assms(2) show ?thesis
      by (auto simp: chop_chopper_read_block_def chop_fixed_chopper_read_block_def fixed_blocks_def
          Let_def chunks_step pad_to_def)
  qed
qed

end

text \<open>A stream that keeps the contract gives a chopper that keeps the contract.\<close>

sublocale chopped_stream \<subseteq> fixed: block_source "chop_fixed_chopper_read_block rd"
  "\<lambda>c. inv (fc_stream c) \<and> 0 < fc_block_size c" "fixed_blocks rest"
proof (unfold_locales, goal_cases)
  case (1 c buffer)
  then show ?case using fixed_read_block [of c buffer] by (auto split: list.splits)
next
  case (2 c)
  then show ?case using chunks_nonempty [of "fc_block_size c" "rest (fc_stream c)"]
    by (auto simp: fixed_blocks_def pad_to_def)
qed

sublocale chopped_stream \<subseteq> whole: block_source "read_whole_stream rd" inv "whole_blocks rest"
proof (unfold_locales, goal_cases)
  case (1 s buffer)
  obtain s' where "whole_loop rd [] s = Some (CHOP_STREAM_END, rest s, s')" "inv s'" "rest s' = []"
    using whole_loop_spec [OF 1, of "[]"] by auto
  then show ?case
    by (cases "rest s = []")
       (simp_all add: whole_blocks_def chop_chopper_read_block_def read_whole_stream_def)
qed (auto simp: whole_blocks_def split: if_splits)

interpretation mem_chop: chopped_stream chop_mem_stream_read ms_inv ms_rest
  by unfold_locales

interpretation mapped_chop: chopped_stream chop_mapped_file_stream_read mf_inv mf_rest
  by unfold_locales



end
