(* ===== verification/Chop_Tree.thy ===== *)
theory Chop_Tree
  imports Chop_Block_Indexers Chop_Choppers
begin

text \<open>
  The stream indexer of \<^verbatim>\<open>src/src/indexer-tree.c\<close>, writing side: the blocks of a stream are
  indexed one by one, their handles are gathered in key blocks, full key blocks are indexed
  in turn and their handles go to the parent key block.  The chain of pending key
  blocks is a list, the current (bottom) block first and the rest of the list its parents.
  A call that fails an assertion or never returns is None.
\<close>

section \<open>Key blocks\<close>

definition KEY_BLOCK_HEADER_SIZE :: nat where
  "KEY_BLOCK_HEADER_SIZE = 10"

definition KEY_BLOCK_MAGIC :: bytes where
  "KEY_BLOCK_MAGIC = ascii ''HT''"

record key_block =
  kb_keys :: bytes
  kb_key_count :: nat
  kb_depth :: nat

definition chop_key_block_new :: key_block where
  "chop_key_block_new =
    \<lparr>kb_keys = replicate KEY_BLOCK_HEADER_SIZE 0, kb_key_count = 0, kb_depth = 0\<rparr>"

definition chop_key_block_reinit :: "key_block \<Rightarrow> key_block" where
  "chop_key_block_reinit block =
    block\<lparr>kb_keys := replicate KEY_BLOCK_HEADER_SIZE 0, kb_key_count := 0\<rparr>"

text \<open>The header: magic, number of keys on four bytes, depth on two, two zero bytes.\<close>

definition key_block_header :: "nat \<Rightarrow> nat \<Rightarrow> bytes" where
  "key_block_header count depth =
    KEY_BLOCK_MAGIC @ le32 count @ [of_nat (depth mod 256), of_nat (depth div 256 mod 256)] @ [0, 0]"

definition chop_key_block_fill_header :: "key_block \<Rightarrow> key_block option" where
  "chop_key_block_fill_header block =
    (if length (kb_keys block) < KEY_BLOCK_HEADER_SIZE \<or> 2 ^ 32 \<le> kb_key_count block
        \<or> 2 ^ 16 \<le> kb_depth block
     then None
     else Some (block\<lparr>kb_keys := key_block_header (kb_key_count block) (kb_depth block)
                        @ drop KEY_BLOCK_HEADER_SIZE (kb_keys block)\<rparr>))"

definition chop_key_block_flush ::
  "('i, 'w, 'h) block_indexer \<Rightarrow> 'w block_store \<Rightarrow> key_block \<Rightarrow> 'i \<times> 'w
     \<Rightarrow> ('h result \<times> key_block \<times> 'i \<times> 'w) option" where
  "chop_key_block_flush bi metadata block iw =
    Option.bind (chop_key_block_fill_header block) (\<lambda>block'.
      Option.bind (chop_block_indexer_index bi metadata (kb_keys block') iw) (\<lambda>(r, iw').
        Some (r, block', iw')))"

text \<open>The end of \<^verbatim>\<open>chop_key_block_add_index\<close>: append the binary form of the handle.\<close>

definition key_block_append :: "'h handle_class \<Rightarrow> key_block \<Rightarrow> 'h \<Rightarrow> (chop_error \<times> key_block) option" where
  "key_block_append hc block index =
    (case hc_serialize hc CHOP_SERIAL_BINARY index of
       None \<Rightarrow> None
     | Some (Inl err) \<Rightarrow> Some (err, block)
     | Some (Inr bin) \<Rightarrow>
         if length bin \<noteq> chop_index_handle_binary_size hc index then None
         else Some (CHOP_OK, block\<lparr>kb_keys := kb_keys block @ bin,
                                   kb_key_count := kb_key_count block + 1\<rparr>))"

text \<open>An orphan block gets a parent before the recursive call.\<close>

definition key_block_parents :: "key_block \<Rightarrow> key_block list \<Rightarrow> key_block list" where
  "key_block_parents block parents =
    (if parents = [] then [chop_key_block_new\<lparr>kb_depth := kb_depth block + 1\<rparr>] else parents)"

partial_function (option) chop_key_block_add_index ::
  "('i, 'w, 'h) block_indexer \<Rightarrow> 'h handle_class \<Rightarrow> 'w block_store \<Rightarrow> nat
     \<Rightarrow> key_block list \<Rightarrow> 'h \<Rightarrow> 'i \<times> 'w \<Rightarrow> (chop_error \<times> key_block list \<times> 'i \<times> 'w) option" where
  "chop_key_block_add_index bi hc metadata indexes_per_block chain index iw =
    (case chain of
       [] \<Rightarrow> None
     | block # parents \<Rightarrow>
        if indexes_per_block \<le> kb_key_count block + 1 then
          Option.bind (chop_key_block_flush bi metadata block iw) (\<lambda>(r, block1, iw1).
            case r of
              Inl err \<Rightarrow> Some (err, block1 # parents, iw1)
            | Inr block_index \<Rightarrow>
                Option.bind (chop_key_block_add_index bi hc metadata indexes_per_block
                    (key_block_parents block1 parents) block_index iw1) (\<lambda>(err, parents2, iw2).
                  if err \<noteq> CHOP_OK then Some (err, block1 # parents2, iw2)
                  else Option.bind (key_block_append hc (chop_key_block_reinit block1) index)
                    (\<lambda>(err, block3). Some (err, block3 # parents2, iw2))))
        else
          Option.bind (key_block_append hc block index)
            (\<lambda>(err, block3). Some (err, block3 # parents, iw)))"

declare chop_key_block_add_index.simps [code]

section \<open>The tree of key blocks\<close>

record key_block_tree =
  kt_chain :: "key_block list"
  kt_indexes_per_block :: nat

definition chop_block_tree_init :: "nat \<Rightarrow> key_block_tree" where
  "chop_block_tree_init indexes_per_block =
    \<lparr>kt_chain = [], kt_indexes_per_block = indexes_per_block\<rparr>"

definition chop_block_tree_add_index ::
  "('i, 'w, 'h) block_indexer \<Rightarrow> 'h handle_class \<Rightarrow> 'w block_store \<Rightarrow> key_block_tree \<Rightarrow> 'h
     \<Rightarrow> 'i \<times> 'w \<Rightarrow> (chop_error \<times> key_block_tree \<times> 'i \<times> 'w) option" where
  "chop_block_tree_add_index bi hc metadata tree index iw =
    (let chain = (if kt_chain tree = [] then [chop_key_block_new] else kt_chain tree)
     in Option.bind (chop_key_block_add_index bi hc metadata (kt_indexes_per_block tree) chain index iw)
          (\<lambda>(err, chain', iw'). Some (err, tree\<lparr>kt_chain := chain'\<rparr>, iw')))"

text \<open>The loop of \<^verbatim>\<open>chop_block_tree_flush\<close> over the chain.  The code of adding a handle to the
  parent is overwritten by the next round.  \<open>d\<close> and \<open>ld\<close> are \<^verbatim>\<open>depth\<close> and \<^verbatim>\<open>last_depth\<close>.\<close>

partial_function (option) block_tree_flush_loop ::
  "('i, 'w, 'h) block_indexer \<Rightarrow> 'h handle_class \<Rightarrow> 'w block_store \<Rightarrow> nat \<Rightarrow> key_block list
     \<Rightarrow> nat \<Rightarrow> nat \<Rightarrow> 'h option \<Rightarrow> 'i \<times> 'w \<Rightarrow> (chop_error \<times> nat \<times> nat \<times> 'h option \<times> 'i \<times> 'w) option" where
  "block_tree_flush_loop bi hc metadata indexes_per_block chain d ld root_index iw =
    (case chain of
       [] \<Rightarrow> Some (CHOP_OK, d, ld, root_index, iw)
     | block # parents \<Rightarrow>
        Option.bind (chop_key_block_flush bi metadata block iw) (\<lambda>(r, block1, iw1).
          case r of
            Inl err \<Rightarrow> Some (err, d + 1, kb_depth block, None, iw1)
          | Inr h \<Rightarrow>
              if parents = []
              then block_tree_flush_loop bi hc metadata indexes_per_block [] (d + 1) (kb_depth block) (Some h) iw1
              else Option.bind (chop_key_block_add_index bi hc metadata indexes_per_block parents h iw1)
                (\<lambda>(err, parents2, iw2).
                  block_tree_flush_loop bi hc metadata indexes_per_block parents2 (d + 1) (kb_depth block)
                    (Some h) iw2)))"

declare block_tree_flush_loop.simps [code]

definition chop_block_tree_flush ::
  "('i, 'w, 'h) block_indexer \<Rightarrow> 'h handle_class \<Rightarrow> 'w block_store \<Rightarrow> key_block_tree \<Rightarrow> 'h option
     \<Rightarrow> 'i \<times> 'w \<Rightarrow> (chop_error \<times> 'h option \<times> 'i \<times> 'w) option" where
  "chop_block_tree_flush bi hc metadata tree root_index iw =
    Option.bind (block_tree_flush_loop bi hc metadata (kt_indexes_per_block tree) (kt_chain tree) 0 0 root_index iw)
      (\<lambda>(err, d, ld, root_index', iw').
        if 0 < d \<and> ld \<noteq> d - 1 then None else Some (err, root_index', iw'))"

section \<open>Indexing a stream\<close>

text \<open>The loop of \<^verbatim>\<open>chop_tree_index_blocks\<close>.  The code of adding a handle to the tree is dropped.\<close>

partial_function (option) tree_index_loop ::
  "'c read_block \<Rightarrow> ('i, 'w, 'h) block_indexer \<Rightarrow> 'h handle_class \<Rightarrow> 'w block_store \<Rightarrow> 'w block_store
     \<Rightarrow> key_block_tree \<Rightarrow> nat \<Rightarrow> 'h option \<Rightarrow> 'c \<Rightarrow> 'i \<times> 'w
     \<Rightarrow> (chop_error \<times> key_block_tree \<times> nat \<times> 'h option \<times> 'c \<times> 'i \<times> 'w) option" where
  "tree_index_loop rb bi hc out metadata tree total_amount index c iw =
    Option.bind (chop_chopper_read_block rb c []) (\<lambda>((err, buffer, amount), c').
      if err \<noteq> CHOP_OK then Some (err, tree, total_amount, index, c', iw)
      else if amount = 0 then tree_index_loop rb bi hc out metadata tree total_amount index c' iw
      else Option.bind (chop_block_indexer_index bi out buffer iw) (\<lambda>(r, iw').
        case r of
          Inl err \<Rightarrow> Some (err, tree, total_amount + amount, None, c', iw')
        | Inr h \<Rightarrow>
            Option.bind (chop_block_tree_add_index bi hc metadata tree h iw') (\<lambda>(err, tree', iw'').
              tree_index_loop rb bi hc out metadata tree' (total_amount + amount) (Some h) c' iw'')))"

declare tree_index_loop.simps [code]

definition chop_tree_index_blocks ::
  "nat \<Rightarrow> 'c read_block \<Rightarrow> ('i, 'w, 'h) block_indexer \<Rightarrow> 'h handle_class \<Rightarrow> 'w block_store \<Rightarrow> 'w block_store
     \<Rightarrow> 'c \<Rightarrow> 'i \<times> 'w \<Rightarrow> (chop_error \<times> 'h option \<times> 'c \<times> 'i \<times> 'w) option" where
  "chop_tree_index_blocks indexes_per_block rb bi hc out metadata c iw =
    Option.bind (tree_index_loop rb bi hc out metadata (chop_block_tree_init indexes_per_block) 0 None c iw)
      (\<lambda>(err, tree, total_amount, index, c', iw').
        Option.bind
          (if err = CHOP_STREAM_END \<and> 0 < total_amount then chop_block_tree_flush bi hc metadata tree index iw'
           else Some (err, index, iw'))
          (\<lambda>(err, index', iw'').
            Some (if total_amount = 0 then CHOP_INDEXER_EMPTY_SOURCE else err, index', c', iw'')))"

section \<open>How the counts of a chain evolve\<close>

text \<open>A block takes \<open>c\<close> keys, one less than \<^verbatim>\<open>indexes_per_block\<close>.  The numbers of keys of a
  chain are the digits, from 1 to \<open>c\<close>, of the number of blocks indexed so far.\<close>

primrec incr :: "nat \<Rightarrow> nat list \<Rightarrow> nat list" where
  "incr c [] = [1]"
| "incr c (n # ns) = (if n < c then (n + 1) # ns else 1 # incr c ns)"

primrec numeral_value :: "nat \<Rightarrow> nat list \<Rightarrow> nat" where
  "numeral_value c [] = 0"
| "numeral_value c (n # ns) = n + c * numeral_value c ns"

definition digits :: "nat \<Rightarrow> nat list \<Rightarrow> bool" where
  "digits c ns \<longleftrightarrow> (\<forall>n \<in> set ns. 1 \<le> n \<and> n \<le> c)"

lemma incr_not_Nil [simp]: "incr c ns \<noteq> []" "[] \<noteq> incr c ns"
  by (cases ns; simp)+

lemma digits_Cons [simp]: "digits c (n # ns) \<longleftrightarrow> 1 \<le> n \<and> n \<le> c \<and> digits c ns"
  by (auto simp: digits_def)

lemma digits_Nil [simp]: "digits c []"
  by (simp add: digits_def)

lemma digits_incr: "0 < c \<Longrightarrow> digits c ns \<Longrightarrow> digits c (incr c ns)"
  by (induction ns) auto

lemma value_incr: "digits c ns \<Longrightarrow> numeral_value c (incr c ns) = numeral_value c ns + 1"
  by (induction ns) (auto simp: algebra_simps)

lemma length_incr: "length (incr c ns) \<le> length ns + 1" "length ns \<le> length (incr c ns)"
  by (induction ns) auto

lemma incr_grows:
  assumes "length (incr c ns) = Suc (length ns)" "2 \<le> c"
  shows "last (incr c ns) = 1" and "ns \<noteq> [] \<Longrightarrow> digits c ns \<Longrightarrow> last ns = c"
  using assms by (induction ns) (auto split: if_splits)

text \<open>The flush loop drops the lowest digit and carries into the rest; this decreases.\<close>

definition flush_measure :: "nat \<Rightarrow> nat list \<Rightarrow> nat" where
  "flush_measure c ns = 2 * length ns + (if ns \<noteq> [] \<and> last ns = c then 1 else 0)"

lemma flush_measure_decreases:
  assumes "2 \<le> c" "digits c ns" "ns \<noteq> []"
  shows "flush_measure c (incr c ns) < flush_measure c (n # ns)"
proof (cases "length (incr c ns) = Suc (length ns)")
  case True
  with incr_grows [OF True assms(1)] assms show ?thesis by (simp add: flush_measure_def)
next
  case False
  then have "length (incr c ns) = length ns" using length_incr(1) [of c ns] length_incr(2) [of ns c] by simp
  then show ?thesis by (simp add: flush_measure_def)
qed

text \<open>Every digit adds a factor to the value, so that the chain stays short.\<close>

lemma value_lower_bound:
  "2 \<le> c \<Longrightarrow> digits c ns \<Longrightarrow> 2 ^ length ns \<le> numeral_value c ns + 1"
proof (induction ns)
  case (Cons n ns)
  then have "2 ^ length ns \<le> numeral_value c ns + 1" by simp
  then have "2 * 2 ^ length ns \<le> 2 * numeral_value c ns + 2" by simp
  also have "2 * numeral_value c ns \<le> c * numeral_value c ns" using Cons.prems by simp
  finally show ?case using Cons.prems by simp
qed simp

text \<open>The bound kept by the flush loop at round \<open>d\<close>.\<close>

definition flush_bound :: "nat \<Rightarrow> nat \<Rightarrow> nat \<Rightarrow> nat list \<Rightarrow> bool" where
  "flush_bound N c d ns \<longleftrightarrow> 2 ^ d * (numeral_value c ns - 1) < N \<and> (d = 0 \<or> 2 ^ d < N)"

lemma flush_bound_step:
  assumes "flush_bound N c d (n # ns)" "2 \<le> c" "digits c (n # ns)" "ns \<noteq> []"
  shows "flush_bound N c (Suc d) (incr c ns)"
proof -
  have v: "numeral_value c (incr c ns) - 1 = numeral_value c ns"
    using assms by (simp add: value_incr)
  have pos: "1 \<le> numeral_value c ns" using assms(3,4) by (cases ns) auto
  have "2 * numeral_value c ns \<le> c * numeral_value c ns" using assms(2) by simp
  also have "\<dots> \<le> numeral_value c (n # ns) - 1" using assms(3) by auto
  finally have "2 ^ d * (2 * numeral_value c ns) \<le> 2 ^ d * (numeral_value c (n # ns) - 1)"
    by (rule mult_le_mono2)
  also have "\<dots> < N" using assms(1) by (simp only: flush_bound_def)
  finally have lt: "2 ^ Suc d * numeral_value c ns < N" by (simp add: mult.left_commute)
  have "2 ^ Suc d \<le> 2 ^ Suc d * numeral_value c ns" using pos by simp
  from le_less_trans [OF this lt] lt show ?thesis unfolding flush_bound_def v by blast
qed

lemma flush_bound_length:
  assumes "flush_bound N c d ns" "N \<le> 2 ^ 64" "2 \<le> c" "digits c ns" "ns \<noteq> []"
  shows "d + length ns \<le> 66"
proof (cases "length ns = 1")
  case True
  have "d < 64" if "d \<noteq> 0"
  proof -
    have "(2::nat) ^ d < 2 ^ 64" using assms(1,2) that by (auto simp: flush_bound_def)
    then show ?thesis by (rule power_less_imp_less_exp [rotated]) simp
  qed
  with True show ?thesis by (cases "d = 0") auto
next
  case False
  then obtain k where k: "length ns = Suc (Suc k)" using assms(5) by (cases ns; cases "tl ns") auto
  have "2 ^ length ns \<le> numeral_value c ns + 1" using assms by (intro value_lower_bound) auto
  moreover have "(1::nat) \<le> 2 ^ k" by simp
  ultimately have "2 ^ Suc k \<le> numeral_value c ns - 1" unfolding k power_Suc by linarith
  then have "2 ^ (d + Suc k) \<le> 2 ^ d * (numeral_value c ns - 1)" by (simp add: power_add)
  also have "\<dots> < 2 ^ 64" using assms(1,2) by (auto simp: flush_bound_def)
  finally have "d + Suc k < 64" by (rule power_less_imp_less_exp [rotated]) simp
  with k show ?thesis by simp
qed

end
