(* ===== verification/Chop_Tree_Writer.thy ===== *)
theory Chop_Tree_Writer
  imports Chop_Tree
begin

text \<open>
  Correctness of the writing side of the tree indexer: whatever the block indexer, if
  it meets its contract, indexing a stream terminates and leaves in the store a tree of key
  blocks whose leaves are the blocks of the stream, in order.
\<close>

section \<open>Trees in a log\<close>

text \<open>\<open>tree_of wh enc L d h b\<close>: the log \<open>L\<close> holds, under the handle \<open>h\<close>, a tree of height \<open>d\<close>
  for the bytes \<open>b\<close>: a data block for height 0, else a key block of depth \<open>d - 1\<close> with the
  handles of trees of that height.\<close>

inductive tree_of ::
  "('h \<Rightarrow> bool) \<Rightarrow> ('h \<Rightarrow> bytes) \<Rightarrow> ('h \<times> bytes) set \<Rightarrow> nat \<Rightarrow> 'h \<Rightarrow> bytes \<Rightarrow> bool"
  for wh :: "'h \<Rightarrow> bool" and enc :: "'h \<Rightarrow> bytes" and L :: "('h \<times> bytes) set"
where
  data_block: "(h, b) \<in> L \<Longrightarrow> b \<noteq> [] \<Longrightarrow> tree_of wh enc L 0 h b"
| node_block: "(h, key_block_header (length hs) d @ concat (map enc hs)) \<in> L \<Longrightarrow> hs \<noteq> []
    \<Longrightarrow> length hs < 2 ^ 32 \<Longrightarrow> d < 2 ^ 16 \<Longrightarrow> \<forall>x \<in> set hs. wh x
    \<Longrightarrow> list_all2 (tree_of wh enc L d) hs bs \<Longrightarrow> tree_of wh enc L (Suc d) h (concat bs)"

inductive_cases tree_of_0E: "tree_of wh enc L 0 h b"
inductive_cases tree_of_SucE: "tree_of wh enc L (Suc d) h b"

lemma tree_of_mono:
  assumes "tree_of wh enc L d h b" "L \<subseteq> L'"
  shows "tree_of wh enc L' d h b"
  using assms
proof (induction rule: tree_of.induct)
  case (data_block h b)
  then show ?case by (auto intro: tree_of.data_block)
next
  case (node_block h hs d bs)
  then have "list_all2 (tree_of wh enc L' d) hs bs"
    by (auto elim: list.rel_mono_strong)
  with node_block show ?case by (auto intro: tree_of.node_block)
qed

lemma tree_of_nonempty: "tree_of wh enc L d h b \<Longrightarrow> b \<noteq> []"
proof (induction rule: tree_of.induct)
  case (node_block h hs d bs)
  then have "list_all2 (\<lambda>h b. b \<noteq> []) hs bs" by (auto elim: list.rel_mono_strong)
  with node_block.hyps(2) show ?case by (cases hs; cases bs) auto
qed

section \<open>Chains of pending key blocks\<close>

text \<open>\<open>chain_ok wh enc L d chain b\<close>: the key blocks of the chain, from depth \<open>d\<close> up, hold
  handles of trees for \<open>b\<close>, the topmost block the oldest part.\<close>

fun chain_ok ::
  "('h \<Rightarrow> bool) \<Rightarrow> ('h \<Rightarrow> bytes) \<Rightarrow> ('h \<times> bytes) set \<Rightarrow> nat \<Rightarrow> key_block list \<Rightarrow> bytes \<Rightarrow> bool" where
  "chain_ok wh enc L d [] b = (b = [])"
| "chain_ok wh enc L d (block # parents) b =
    (\<exists>pre hs bs b'. kb_keys block = pre @ concat (map enc hs) \<and> length pre = KEY_BLOCK_HEADER_SIZE
       \<and> kb_key_count block = length hs \<and> kb_depth block = d \<and> (\<forall>x \<in> set hs. wh x)
       \<and> list_all2 (tree_of wh enc L d) hs bs \<and> chain_ok wh enc L (Suc d) parents b'
       \<and> b = b' @ concat bs)"

declare chain_ok.simps(2) [simp del]

lemma chain_okI:
  assumes "kb_keys block = pre @ concat (map enc hs)" "length pre = KEY_BLOCK_HEADER_SIZE"
    "kb_key_count block = length hs" "kb_depth block = d" "\<forall>x \<in> set hs. wh x"
    "list_all2 (tree_of wh enc L d) hs bs" "chain_ok wh enc L (Suc d) parents b'" "b = b' @ concat bs"
  shows "chain_ok wh enc L d (block # parents) b"
  using assms unfolding chain_ok.simps by blast

lemma chain_okE:
  assumes "chain_ok wh enc L d (block # parents) b"
  obtains pre hs bs b' where "kb_keys block = pre @ concat (map enc hs)"
    "length pre = KEY_BLOCK_HEADER_SIZE" "kb_key_count block = length hs" "kb_depth block = d"
    "\<forall>x \<in> set hs. wh x" "list_all2 (tree_of wh enc L d) hs bs"
    "chain_ok wh enc L (Suc d) parents b'" "b = b' @ concat bs"
  using assms unfolding chain_ok.simps by blast

lemma chain_ok_mono:
  "chain_ok wh enc L d chain b \<Longrightarrow> L \<subseteq> L' \<Longrightarrow> chain_ok wh enc L' d chain b"
proof (induction chain arbitrary: d b)
  case (Cons block parents)
  have *: "list_all2 (tree_of wh enc L d) hs bs \<Longrightarrow> list_all2 (tree_of wh enc L' d) hs bs" for hs bs
    using tree_of_mono [OF _ Cons.prems(2)] by (auto elim: list.rel_mono_strong)
  from Cons.prems(1) obtain pre hs bs b' where ch: "kb_keys block = pre @ concat (map enc hs)"
    "length pre = KEY_BLOCK_HEADER_SIZE" "kb_key_count block = length hs" "kb_depth block = d"
    "\<forall>x \<in> set hs. wh x" "list_all2 (tree_of wh enc L d) hs bs"
    "chain_ok wh enc L (Suc d) parents b'" "b = b' @ concat bs"
    by (rule chain_okE)
  show ?case
    using ch(1-5) * [OF ch(6)] Cons.IH [OF ch(7) Cons.prems(2)] ch(8) by (rule chain_okI)
qed simp

lemma chain_ok_new:
  "chain_ok wh enc L d [chop_key_block_new\<lparr>kb_depth := d\<rparr>] []"
  by (rule chain_okI [of _ "replicate KEY_BLOCK_HEADER_SIZE 0" _ "[]" _ _ _ "[]"])
     (simp_all add: chop_key_block_new_def)

lemma length_concat_enc:
  assumes "\<forall>x \<in> set hs. length (enc x) \<le> k"
  shows "length (concat (map enc hs)) \<le> length hs * k"
  using assms by (induction hs) (auto intro: add_mono)

lemma length_header [simp]: "length (key_block_header n d) = 10"
  by (simp add: key_block_header_def KEY_BLOCK_MAGIC_def ascii_def)

definition key_counts :: "key_block list \<Rightarrow> nat list" where
  "key_counts = map kb_key_count"

lemma key_counts_simps [simp]:
  "key_counts [] = []" "key_counts (b # bs) = kb_key_count b # key_counts bs"
  "length (key_counts bs) = length bs"
  by (simp_all add: key_counts_def)

section \<open>Adding a handle\<close>

text \<open>The limits that keep every assertion of the code true: \<open>c\<close> keys of at most \<open>hsize\<close> bytes
  make a block that can be indexed.\<close>

locale tree_writing = reliable_indexing hc wf_handle encode canon bi bf store J I F compat max_block hsize
  for hc :: "'h handle_class" and wf_handle encode canon
    and bi :: "('i, 'w, 'h) block_indexer" and bf store J I F compat max_block hsize +
  fixes c :: nat
  assumes c_pos: "0 < c" and c_small: "c < 2 ^ 32" and block_fits: "10 + c * hsize \<le> max_block"
begin

abbreviation wfh :: "'h \<Rightarrow> bool" where
  "wfh h \<equiv> wf_handle h \<and> length (encode h) \<le> hsize"

abbreviation trees :: "('i \<times> 'h block_log) \<times> 'w \<Rightarrow> nat \<Rightarrow> 'h \<Rightarrow> bytes \<Rightarrow> bool" where
  "trees s \<equiv> tree_of wfh encode (set (log_of s))"

abbreviation chains :: "('i \<times> 'h block_log) \<times> 'w \<Rightarrow> nat \<Rightarrow> key_block list \<Rightarrow> bytes \<Rightarrow> bool" where
  "chains s \<equiv> chain_ok wfh encode (set (log_of s))"

lemma logged_succeeds:
  assumes "J (erase_log s)" "length block \<le> max_block"
  obtains h s' where "chop_block_indexer_index (logged bi) store block s = Some (Inr h, s')"
    "index_run bi store s s'" "J (erase_log s')" "wfh h" "(h, block) \<in> set (log_of s')"
proof -
  obtain h u where u: "chop_block_indexer_index bi store block (erase_log s) = Some (Inr h, u)"
    using index_succeeds [OF assms(1), of block] by blast
  then obtain s' where l: "chop_block_indexer_index (logged bi) store block s = Some (Inr h, s')"
    by (cases s; cases "fst s"; cases u) (auto simp: logged_index_eq)
  note ll = logged_log [OF l]
  have "J (erase_log s') \<and> wf_handle h \<and> length (encode h) \<le> hsize"
    using index_law [OF assms(1) _ assms(2)] ll(2) by simp
  moreover have "index_run bi store s s'" using run_step [OF run_refl l] .
  ultimately show thesis using that [of h s'] l ll(1) by simp
qed

lemma append_ok:
  assumes "wfh h" "tree_of wfh encode L d h b" "chain_ok wfh encode L d (block # parents) b0"
  shows "\<exists>block'. key_block_append hc block h = Some (CHOP_OK, block')
    \<and> kb_key_count block' = kb_key_count block + 1
    \<and> chain_ok wfh encode L d (block' # parents) (b0 @ b)"
proof -
  let ?block = "block\<lparr>kb_keys := kb_keys block @ encode h, kb_key_count := kb_key_count block + 1\<rparr>"
  from assms(3) obtain pre hs bs b' where ch: "kb_keys block = pre @ concat (map encode hs)"
    "length pre = KEY_BLOCK_HEADER_SIZE" "kb_key_count block = length hs" "kb_depth block = d"
    "\<forall>x \<in> set hs. wfh x" "list_all2 (tree_of wfh encode L d) hs bs"
    "chain_ok wfh encode L (Suc d) parents b'" "b0 = b' @ concat bs"
    by (rule chain_okE)
  have "list_all2 (tree_of wfh encode L d) (hs @ [h]) (bs @ [b])"
    using ch(6) assms(2) by (simp add: list_all2_appendI)
  then have "chain_ok wfh encode L d (?block # parents) (b0 @ b)"
    using ch assms(1) by (intro chain_okI [of _ pre _ "hs @ [h]" _ _ _ "bs @ [b]" _ b']) auto
  with serialize_law [of h] binary_size_law [of h] assms(1) show ?thesis
    by (auto simp: key_block_append_def intro!: exI [of _ ?block])
qed

text \<open>Flushing a key block: its handle is that of a tree one level higher.\<close>

lemma flush_ok:
  assumes "J (erase_log s)" "chains s d (block # parents) b" "d < 2 ^ 16"
    and "kb_key_count block \<noteq> 0" "kb_key_count block \<le> c"
  obtains r h block' s' b0 b1 where
    "chop_key_block_flush (logged bi) store block s = Some (Inr h, block', s')"
    "index_run bi store s s'" "J (erase_log s')" "wfh h"
    "trees s' (Suc d) h b1" "chains s' (Suc d) parents b0" "b = b0 @ b1"
    "kb_depth block' = d"
proof -
  from assms(2) obtain pre hs bs b0 where ch: "kb_keys block = pre @ concat (map encode hs)"
    "length pre = KEY_BLOCK_HEADER_SIZE" "kb_key_count block = length hs" "kb_depth block = d"
    "\<forall>x \<in> set hs. wfh x" "list_all2 (trees s d) hs bs"
    "chains s (Suc d) parents b0" "b = b0 @ concat bs"
    by (rule chain_okE)
  let ?content = "key_block_header (length hs) d @ concat (map encode hs)"
  have len: "length ?content \<le> max_block"
  proof -
    have "length (concat (map encode hs)) \<le> length hs * hsize"
      using ch(5) by (intro length_concat_enc) simp
    also have "\<dots> \<le> c * hsize" using assms(5) ch(3) by simp
    finally show ?thesis using block_fits by simp
  qed
  from logged_succeeds [OF assms(1) len] obtain h s' where s':
    "chop_block_indexer_index (logged bi) store ?content s = Some (Inr h, s')"
    "index_run bi store s s'" "J (erase_log s')" "wfh h" "(h, ?content) \<in> set (log_of s')" .
  note sub = index_run_mono [OF s'(2)]
  have "list_all2 (trees s' d) hs bs"
    using ch(6) tree_of_mono [OF _ sub] by (auto elim: list.rel_mono_strong)
  then have "trees s' (Suc d) h (concat bs)"
    using s'(5) ch assms(3-5) c_small by (intro tree_of.node_block) auto
  moreover have "chop_key_block_flush (logged bi) store block s
      = Some (Inr h, block\<lparr>kb_keys := ?content\<rparr>, s')"
    using ch s'(1) assms(3,5) c_small
    by (simp add: chop_key_block_flush_def chop_key_block_fill_header_def)
  ultimately show thesis
    using that s' ch chain_ok_mono [OF ch(7) sub] by auto
qed

text \<open>What adding a handle does to a chain: no failure, the bytes of the handle's tree at the end, one
  more in the numeral of counts.\<close>

definition adds :: "('i \<times> 'h block_log) \<times> 'w \<Rightarrow> nat \<Rightarrow> key_block list \<Rightarrow> 'h \<Rightarrow> bytes \<Rightarrow> bool" where
  "adds s d chain h b \<longleftrightarrow>
    (\<exists>chain' s'. chop_key_block_add_index (logged bi) hc store (c + 1) chain h s = Some (CHOP_OK, chain', s')
       \<and> index_run bi store s s' \<and> J (erase_log s') \<and> chains s' d chain' b
       \<and> key_counts chain' = incr c (key_counts chain))"

lemma add_room:
  assumes "J (erase_log s)" "chains s d (block # parents) b0" "wfh h" "trees s d h b"
    and "kb_key_count block < c"
  shows "adds s d (block # parents) h (b0 @ b)"
proof -
  obtain block' where "key_block_append hc block h = Some (CHOP_OK, block')"
    "kb_key_count block' = kb_key_count block + 1" "chains s d (block' # parents) (b0 @ b)"
    using append_ok [OF assms(3,4,2)] by blast
  with assms show ?thesis
    unfolding adds_def by (subst chop_key_block_add_index.simps) (auto intro: run_refl)
qed

lemma add_full:
  assumes "J (erase_log s)" "chains s d (block # parents) b0" "wfh h" "trees s d h b"
    and "kb_key_count block = c" "d < 2 ^ 16"
    and parents: "\<And>s1 block1 h1 b1 b2. \<lbrakk>J (erase_log s1); chains s1 (Suc d) parents b2; wfh h1;
        trees s1 (Suc d) h1 b1; kb_depth block1 = d\<rbrakk>
       \<Longrightarrow> adds s1 (Suc d) (key_block_parents block1 parents) h1 (b2 @ b1)"
    and counts: "\<And>block1. kb_depth block1 = d \<Longrightarrow>
        incr c (key_counts (key_block_parents block1 parents)) = incr c (key_counts parents)"
  shows "adds s d (block # parents) h (b0 @ b)"
proof -
  have "kb_key_count block \<noteq> 0" "kb_key_count block \<le> c" using assms(5) c_pos by auto
  from flush_ok [OF assms(1,2,6) this] obtain h1 block1 s1 b2 b1 where f:
    "chop_key_block_flush (logged bi) store block s = Some (Inr h1, block1, s1)"
    "index_run bi store s s1" "J (erase_log s1)" "wfh h1"
    "trees s1 (Suc d) h1 b1" "chains s1 (Suc d) parents b2" "b0 = b2 @ b1" "kb_depth block1 = d" .
  from parents [OF f(3,6,4,5,8)] obtain chain2 s2 where p:
    "chop_key_block_add_index (logged bi) hc store (c + 1) (key_block_parents block1 parents) h1 s1
       = Some (CHOP_OK, chain2, s2)"
    "index_run bi store s1 s2" "J (erase_log s2)" "chains s2 (Suc d) chain2 b0"
    "key_counts chain2 = incr c (key_counts parents)"
    unfolding adds_def f(7) counts [OF f(8)] by blast
  have run: "index_run bi store s s2" using index_run_trans [OF p(2) f(2)] .
  have "chains s2 d (chop_key_block_reinit block1 # chain2) b0"
    using p(4) f(8)
    by (intro chain_okI [of _ "replicate KEY_BLOCK_HEADER_SIZE 0" _ "[]" _ _ _ "[]"])
       (simp_all add: chop_key_block_reinit_def)
  from append_ok [OF assms(3) tree_of_mono [OF assms(4) index_run_mono [OF run]] this]
  obtain block3 where
    "key_block_append hc (chop_key_block_reinit block1) h = Some (CHOP_OK, block3)"
    "kb_key_count block3 = 1" "chains s2 d (block3 # chain2) (b0 @ b)"
    by (auto simp: chop_key_block_reinit_def)
  with f(1) p run assms(5) show ?thesis
    unfolding adds_def by (subst chop_key_block_add_index.simps) auto
qed

lemma add_index_ok:
  assumes "J (erase_log s)" "chains s d (block # parents) b0" "wfh h" "trees s d h b"
    and "kb_key_count block \<le> c" "digits c (key_counts parents)" "d + length parents < 2 ^ 16"
  shows "adds s d (block # parents) h (b0 @ b)"
  using assms
proof (induction parents arbitrary: s d block b0 h b)
  case Nil
  show ?case
  proof (cases "kb_key_count block < c")
    case True
    with Nil show ?thesis by (intro add_room) auto
  next
    case False
    then have full: "kb_key_count block = c" using Nil.prems(5) by simp
    show ?thesis
    proof (rule add_full [OF Nil.prems(1-4) full])
      show "adds s1 (Suc d) (key_block_parents block1 []) h1 (b2 @ b1)"
        if "J (erase_log s1)" "chains s1 (Suc d) [] b2" "wfh h1" "trees s1 (Suc d) h1 b1"
          "kb_depth block1 = d" for s1 block1 h1 b1 b2
        using that add_room [OF that(1) chain_ok_new that(3,4)] c_pos
        by (simp add: key_block_parents_def chop_key_block_new_def)
    qed (use Nil.prems c_pos in \<open>auto simp: key_block_parents_def chop_key_block_new_def\<close>)
  qed
next
  case (Cons p ps)
  show ?case
  proof (cases "kb_key_count block < c")
    case True
    with Cons.prems show ?thesis by (intro add_room) auto
  next
    case False
    then have full: "kb_key_count block = c" using Cons.prems(5) by simp
    show ?thesis
    proof (rule add_full [OF Cons.prems(1-4) full])
      show "adds s1 (Suc d) (key_block_parents block1 (p # ps)) h1 (b2 @ b1)"
        if "J (erase_log s1)" "chains s1 (Suc d) (p # ps) b2" "wfh h1" "trees s1 (Suc d) h1 b1"
          "kb_depth block1 = d" for s1 block1 h1 b1 b2
        using that Cons.prems by (auto simp: key_block_parents_def intro!: Cons.IH)
    qed (use Cons.prems in \<open>auto simp: key_block_parents_def\<close>)
  qed
qed

lemma flush_loop_ok:
  assumes "2 \<le> c" "N \<le> 2 ^ 64" "J (erase_log s)" "chains s d chain b" "chain \<noteq> []"
    and "digits c (key_counts chain)" "flush_bound N c d (key_counts chain)"
  shows "\<exists>h s' k. block_tree_flush_loop (logged bi) hc store (c + 1) chain d ld rt s
       = Some (CHOP_OK, Suc k, k, Some h, s')
    \<and> index_run bi store s s' \<and> J (erase_log s') \<and> wfh h \<and> trees s' (Suc k) h b"
  using assms(3-)
proof (induction "flush_measure c (key_counts chain)" arbitrary: s d chain b ld rt rule: less_induct)
  case less
  obtain block parents where chain: "chain = block # parents" using less.prems(3) by (cases chain) auto
  have cnt: "kb_key_count block \<noteq> 0" "kb_key_count block \<le> c" "digits c (key_counts parents)"
    using less.prems(4) by (auto simp: chain)
  have depth: "d + length parents < 2 ^ 16"
    using flush_bound_length [OF less.prems(5) assms(2,1) less.prems(4)] by (simp add: chain)
  then have "d < 2 ^ 16" by simp
  from flush_ok [OF less.prems(1) less.prems(2) [unfolded chain] this cnt(1,2)] obtain h block1 s1 b0 b1 where f:
    "chop_key_block_flush (logged bi) store block s = Some (Inr h, block1, s1)"
    "index_run bi store s s1" "J (erase_log s1)" "wfh h"
    "trees s1 (Suc d) h b1" "chains s1 (Suc d) parents b0" "b = b0 @ b1" .
  have kd: "kb_depth block = d" using less.prems(2) unfolding chain by (auto elim: chain_okE)
  show ?case
  proof (cases parents)
    case Nil
    with f kd show ?thesis
      unfolding chain by (subst block_tree_flush_loop.simps) (simp add: block_tree_flush_loop.simps)
  next
    case (Cons p ps)
    have "adds s1 (Suc d) parents h (b0 @ b1)"
      using add_index_ok [OF f(3) _ f(4,5)] f(6) cnt(3) depth by (simp add: Cons)
    then obtain chain2 s2 where a: "chop_key_block_add_index (logged bi) hc store (c + 1) parents h s1
        = Some (CHOP_OK, chain2, s2)" "index_run bi store s1 s2" "J (erase_log s2)"
      "chains s2 (Suc d) chain2 b" "key_counts chain2 = incr c (key_counts parents)"
      unfolding adds_def f(7) by blast
    have ne: "key_counts parents \<noteq> []" using Cons by simp
    have "flush_measure c (key_counts chain2) < flush_measure c (key_counts chain)"
      using flush_measure_decreases [OF assms(1) cnt(3) ne] by (simp add: a(5) chain)
    moreover have "chain2 \<noteq> []" using a(5) by auto
    moreover have "digits c (key_counts chain2)" using a(5) digits_incr [OF c_pos cnt(3)] by simp
    moreover have "flush_bound N c (Suc d) (key_counts chain2)"
      using flush_bound_step [OF _ assms(1) _ ne] less.prems(4,5) by (simp add: a(5) chain)
    ultimately obtain h' s' k where
      "block_tree_flush_loop (logged bi) hc store (c + 1) chain2 (Suc d) (kb_depth block) (Some h) s2
         = Some (CHOP_OK, Suc k, k, Some h', s')"
      "index_run bi store s2 s'" "J (erase_log s')" "wfh h'" "trees s' (Suc k) h' b"
      using less.hyps [of chain2 s2 "Suc d" b "kb_depth block" "Some h"] a by blast
    moreover have "index_run bi store s s'"
      using index_run_trans [OF calculation(2) index_run_trans [OF a(2) f(2)]] .
    ultimately show ?thesis
      unfolding chain using f(1) a(1) Cons by (subst block_tree_flush_loop.simps) simp
  qed
qed

text \<open>The state of the tree after \<open>n\<close> blocks, with bytes \<open>b\<close>.\<close>

definition tree_state :: "('i \<times> 'h block_log) \<times> 'w \<Rightarrow> key_block_tree \<Rightarrow> bytes \<Rightarrow> nat \<Rightarrow> bool" where
  "tree_state s t b n \<longleftrightarrow> kt_indexes_per_block t = c + 1 \<and> chains s 0 (kt_chain t) b
     \<and> digits c (key_counts (kt_chain t)) \<and> numeral_value c (key_counts (kt_chain t)) = n"

lemma tree_state_init: "tree_state s (chop_block_tree_init (c + 1)) [] 0"
  by (simp add: tree_state_def chop_block_tree_init_def)

lemma tree_add_ok:
  assumes "2 \<le> c" "tree_state s t b0 n" "n < 2 ^ 64" "J (erase_log s)" "wfh h" "trees s 0 h b"
  obtains t' s' where "chop_block_tree_add_index (logged bi) hc store t h s = Some (CHOP_OK, t', s')"
    "index_run bi store s s'" "J (erase_log s')" "tree_state s' t' (b0 @ b) (Suc n)" "kt_chain t' \<noteq> []"
proof -
  define chain where "chain = (if kt_chain t = [] then [chop_key_block_new] else kt_chain t)"
  obtain block parents where bp: "chain = block # parents" by (cases chain) (auto simp: chain_def split: if_splits)
  note st = assms(2) [unfolded tree_state_def]
  have ch: "chains s 0 chain b0"
    using st chain_ok_new [of wfh encode "set (log_of s)" 0] by (auto simp: chain_def chop_key_block_new_def)
  have "2 ^ length (kt_chain t) \<le> n + 1"
    using value_lower_bound [OF assms(1), of "key_counts (kt_chain t)"] st by simp
  also have "\<dots> < 2 ^ 65" using assms(3) by simp
  finally have "length (kt_chain t) < 65" by (rule power_less_imp_less_exp [rotated]) simp
  then have "length chain < 66" by (simp add: chain_def)
  then have len: "0 + length parents < 2 ^ 16" by (simp add: bp)
  have cnt: "kb_key_count block \<le> c" "digits c (key_counts parents)"
    using st bp c_pos by (auto simp: chain_def chop_key_block_new_def split: if_splits)
  have inc: "incr c (key_counts chain) = incr c (key_counts (kt_chain t))"
    using c_pos by (simp add: chain_def chop_key_block_new_def)
  from add_index_ok [OF assms(4) ch [unfolded bp] assms(5,6) cnt len] obtain chain' s' where
    "chop_key_block_add_index (logged bi) hc store (c + 1) chain h s = Some (CHOP_OK, chain', s')"
    "index_run bi store s s'" "J (erase_log s')" "chains s' 0 chain' (b0 @ b)"
    "key_counts chain' = incr c (key_counts (kt_chain t))"
    unfolding adds_def bp [symmetric] inc by blast
  with st digits_incr [OF c_pos] value_incr show thesis
    by (intro that [of "t\<lparr>kt_chain := chain'\<rparr>" s'])
       (auto simp: chop_block_tree_add_index_def chain_def [symmetric] tree_state_def Let_def)
qed

lemma tree_flush_ok:
  assumes "2 \<le> c" "tree_state s t b n" "0 < n" "n \<le> 2 ^ 64" "J (erase_log s)"
  obtains h s' k where "chop_block_tree_flush (logged bi) hc store t rt s = Some (CHOP_OK, Some h, s')"
    "index_run bi store s s'" "J (erase_log s')" "wfh h" "trees s' (Suc k) h b"
proof -
  note st = assms(2) [unfolded tree_state_def]
  have ne: "kt_chain t \<noteq> []" using st assms(3) by auto
  have "flush_bound n c 0 (key_counts (kt_chain t))" using st assms(3) by (simp add: flush_bound_def)
  from flush_loop_ok [OF assms(1,4,5) _ ne _ this] st obtain h s' k where
    "block_tree_flush_loop (logged bi) hc store (c + 1) (kt_chain t) 0 0 rt s
       = Some (CHOP_OK, Suc k, k, Some h, s')"
    "index_run bi store s s'" "J (erase_log s')" "wfh h" "trees s' (Suc k) h b"
    by blast
  with st show thesis by (intro that [of h s' k]) (auto simp: chop_block_tree_flush_def)
qed

end

section \<open>Indexing a whole stream\<close>

locale stream_indexing = tree_writing hc wf_handle encode canon bi bf store J I F compat max_block hsize c
    + src: block_source rb cinv blocks
  for hc :: "'h handle_class" and wf_handle encode canon
    and bi :: "('i, 'w, 'h) block_indexer" and bf store J I F compat max_block hsize c
    and rb :: "'c read_block" and cinv blocks +
  assumes c_two: "2 \<le> c"
begin

lemma index_loop_ok:
  assumes "cinv ch" "blocks ch = xs" "\<forall>x \<in> set xs. length x \<le> max_block"
    and "J (erase_log s)" "tree_state s t b n" "n + length xs \<le> 2 ^ 64"
  shows "\<exists>t' idx ch' s'. tree_index_loop rb (logged bi) hc store store t total_amount index ch s
       = Some (CHOP_STREAM_END, t', total_amount + length (concat xs), idx, ch', s')
    \<and> index_run bi store s s' \<and> J (erase_log s') \<and> tree_state s' t' (b @ concat xs) (n + length xs)"
  using assms
proof (induction xs arbitrary: ch t b n total_amount index s)
  case Nil
  then obtain buf ch' where "chop_chopper_read_block rb ch [] = Some ((CHOP_STREAM_END, buf, 0), ch')"
    using src.read_last by metis
  with Nil show ?case by (subst tree_index_loop.simps) (auto intro: run_refl)
next
  case (Cons x xs)
  obtain ch' where ch': "chop_chopper_read_block rb ch [] = Some ((CHOP_OK, x, length x), ch')"
    "cinv ch'" "blocks ch' = xs" "x \<noteq> []"
    using src.read_next Cons.prems(1,2) by metis
  have "length x \<le> max_block" using Cons.prems(3) by simp
  from logged_succeeds [OF Cons.prems(4) this] obtain h s1 where i:
    "chop_block_indexer_index (logged bi) store x s = Some (Inr h, s1)"
    "index_run bi store s s1" "J (erase_log s1)" "wfh h" "(h, x) \<in> set (log_of s1)" .
  have t1: "tree_state s1 t b n"
    using Cons.prems(5) chain_ok_mono [OF _ index_run_mono [OF i(2)]] by (auto simp: tree_state_def)
  have leaf: "trees s1 0 h x" using i(5) ch'(4) by (rule tree_of.data_block)
  have "n < 2 ^ 64" using Cons.prems(6) by simp
  from tree_add_ok [OF c_two t1 this i(3,4) leaf] obtain t2 s2 where a:
    "chop_block_tree_add_index (logged bi) hc store t h s1 = Some (CHOP_OK, t2, s2)"
    "index_run bi store s1 s2" "J (erase_log s2)" "tree_state s2 t2 (b @ x) (Suc n)" .
  have "\<forall>x \<in> set xs. length x \<le> max_block" "Suc n + length xs \<le> 2 ^ 64" using Cons.prems(3,6) by auto
  from Cons.IH [OF ch'(2,3) this(1) a(3,4) this(2), of "total_amount + length x" "Some h"]
  obtain t' idx ch'' s' where r:
    "tree_index_loop rb (logged bi) hc store store t2 (total_amount + length x) (Some h) ch' s2
       = Some (CHOP_STREAM_END, t', total_amount + length x + length (concat xs), idx, ch'', s')"
    "index_run bi store s2 s'" "J (erase_log s')" "tree_state s' t' ((b @ x) @ concat xs) (Suc n + length xs)"
    by blast
  have run: "index_run bi store s s'"
    using index_run_trans [OF r(2) index_run_trans [OF a(2) i(2)]] .
  show ?case
    using r run i(1) a(1) ch'(1,4)
    by (subst tree_index_loop.simps) (simp add: add.assoc)
qed

text \<open>Indexing a non-empty stream succeeds; the handle it gives is that of a tree for the stream.\<close>

lemma index_blocks_ok:
  assumes "cinv ch" "blocks ch \<noteq> []" "\<forall>x \<in> set (blocks ch). length x \<le> max_block"
    and "length (blocks ch) \<le> 2 ^ 64" "J (erase_log s)"
  obtains h ch' s' k where
    "chop_tree_index_blocks (c + 1) rb (logged bi) hc store store ch s = Some (CHOP_OK, Some h, ch', s')"
    "index_run bi store s s'" "J (erase_log s')" "wfh h" "trees s' (Suc k) h (concat (blocks ch))"
proof -
  have "0 + length (blocks ch) \<le> 2 ^ 64" using assms(4) by simp
  from index_loop_ok [OF assms(1) refl assms(3,5) tree_state_init this, of 0 None] obtain t idx ch' s1 where l:
    "tree_index_loop rb (logged bi) hc store store (chop_block_tree_init (c + 1)) 0 None ch s
       = Some (CHOP_STREAM_END, t, length (concat (blocks ch)), idx, ch', s1)"
    "index_run bi store s s1" "J (erase_log s1)" "tree_state s1 t (concat (blocks ch)) (length (blocks ch))"
    unfolding add_0 append_Nil by blast
  obtain b bs where "blocks ch = b # bs" using assms(2) by (cases "blocks ch") auto
  then have pos: "0 < length (concat (blocks ch))"
    using src.blocks_nonempty [OF assms(1)] by auto
  have "0 < length (blocks ch)" using assms(2) by simp
  from tree_flush_ok [OF c_two l(4) this assms(4) l(3), of idx] obtain h s' k where
    "chop_block_tree_flush (logged bi) hc store t idx s1 = Some (CHOP_OK, Some h, s')"
    "index_run bi store s1 s'" "J (erase_log s')" "wfh h" "trees s' (Suc k) h (concat (blocks ch))" .
  with l pos show thesis
    by (intro that [of h ch' s' k]) (auto simp: chop_tree_index_blocks_def intro: index_run_trans)
qed

end

end
