(* ===== verification/Chop_Tree_Erase.thy ===== *)
theory Chop_Tree_Erase
  imports Chop_Tree_Writer
begin

text \<open>
  The log of the proofs is invisible to the program: a run of the tree indexer with the logging
  wrapper is a run with the indexer itself, once the log is forgotten.
\<close>

lemma flush_erase:
  assumes "chop_key_block_flush (logged bi) metadata block s = Some (r, block', s')"
  shows "chop_key_block_flush bi metadata block (erase_log s) = Some (r, block', erase_log s')"
proof -
  obtain b1 where b1: "chop_key_block_fill_header block = Some b1"
    using assms by (auto simp: chop_key_block_flush_def bind_eq_Some_conv)
  obtain r1 s1 where i: "chop_block_indexer_index (logged bi) metadata (kb_keys b1) s = Some (r1, s1)"
    using assms b1 by (auto simp: chop_key_block_flush_def bind_eq_Some_conv)
  from assms b1 i logged_log(2) [OF i] show ?thesis
    by (simp add: chop_key_block_flush_def)
qed
text \<open>What forgetting the log means for the two recursive functions.\<close>

definition add_index_erases where
  "add_index_erases bi' hc metadata n chain h s r \<longleftrightarrow>
    (\<forall>bi. bi' = logged bi \<longrightarrow> chop_key_block_add_index bi hc metadata n chain h (erase_log s)
       = Some (fst r, fst (snd r), erase_log (snd (snd r))))"

lemma add_index_erases_all:
  assumes "chop_key_block_add_index bi' hc metadata n chain h s = Some r"
  shows "add_index_erases bi' hc metadata n chain h s r"
  using _ assms
proof (rule chop_key_block_add_index.raw_induct [where P = add_index_erases], goal_cases)
  case (1 f bi' hc metadata n chain h s r)
  have IH: "f (logged bi) hc metadata n chain h s = Some y \<Longrightarrow>
      chop_key_block_add_index bi hc metadata n chain h (erase_log s)
       = Some (fst y, fst (snd y), erase_log (snd (snd y)))" for bi hc metadata n chain h s y
    using 1(1) by (auto simp: add_index_erases_def)
  show ?case
    unfolding add_index_erases_def
  proof (intro allI impI)
    fix bi
    assume "bi' = logged bi"
    note body = 1(2) [unfolded this]
    obtain block parents where chain: "chain = block # parents" using body by (cases chain) auto
    show "chop_key_block_add_index bi hc metadata n chain h (erase_log s)
       = Some (fst r, fst (snd r), erase_log (snd (snd r)))"
    proof (cases "n \<le> kb_key_count block + 1")
      case False
      with body show ?thesis
        by (subst chop_key_block_add_index.simps) (auto simp: chain bind_eq_Some_conv)
    next
      case True
      with body obtain fr block1 s1 where fl:
        "chop_key_block_flush (logged bi) metadata block s = Some (fr, block1, s1)"
        by (auto simp: chain bind_eq_Some_conv)
      show ?thesis
      proof (cases fr)
        case (Inl err)
        with True body fl flush_erase [OF fl] show ?thesis
          by (subst chop_key_block_add_index.simps) (auto simp: chain)
      next
        case (Inr h1)
        with True body fl obtain err parents2 s2 where rec:
          "f (logged bi) hc metadata n (key_block_parents block1 parents) h1 s1 = Some (err, parents2, s2)"
          by (auto simp: chain bind_eq_Some_conv)
        from IH [OF rec] True body fl flush_erase [OF fl] Inr rec show ?thesis
          by (subst chop_key_block_add_index.simps) (auto simp: chain bind_eq_Some_conv split: if_splits)
      qed
    qed
  qed
qed

lemma add_index_erase:
  "chop_key_block_add_index (logged bi) hc metadata n chain h s = Some (err, chain', s') \<Longrightarrow>
   chop_key_block_add_index bi hc metadata n chain h (erase_log s) = Some (err, chain', erase_log s')"
  by (drule add_index_erases_all) (simp add: add_index_erases_def)

lemma tree_add_erase:
  assumes "chop_block_tree_add_index (logged bi) hc metadata t h s = Some (err, t', s')"
  shows "chop_block_tree_add_index bi hc metadata t h (erase_log s) = Some (err, t', erase_log s')"
proof -
  define chain where "chain = (if kt_chain t = [] then [chop_key_block_new] else kt_chain t)"
  obtain chain' where "chop_key_block_add_index (logged bi) hc metadata (kt_indexes_per_block t) chain h s
      = Some (err, chain', s')" "t' = t\<lparr>kt_chain := chain'\<rparr>"
    using assms by (auto simp: chop_block_tree_add_index_def chain_def [symmetric] Let_def bind_eq_Some_conv)
  with add_index_erase [OF this(1)] show ?thesis
    by (simp add: chop_block_tree_add_index_def chain_def [symmetric] Let_def)
qed

definition flush_loop_erases where
  "flush_loop_erases bi' hc metadata n chain d ld rt s r \<longleftrightarrow>
    (\<forall>bi. bi' = logged bi \<longrightarrow> block_tree_flush_loop bi hc metadata n chain d ld rt (erase_log s)
       = (case r of (err, d', ld', rt', s') \<Rightarrow> Some (err, d', ld', rt', erase_log s')))"

lemma flush_loop_erases_all:
  assumes "block_tree_flush_loop bi' hc metadata n chain d ld rt s = Some r"
  shows "flush_loop_erases bi' hc metadata n chain d ld rt s r"
  using _ assms
proof (rule block_tree_flush_loop.raw_induct [where P = flush_loop_erases], goal_cases)
  case (1 f bi' hc metadata n chain d ld rt s r)
  have IH: "f (logged bi) hc metadata n chain d ld rt s = Some y \<Longrightarrow>
      block_tree_flush_loop bi hc metadata n chain d ld rt (erase_log s)
       = (case y of (err, d', ld', rt', s') \<Rightarrow> Some (err, d', ld', rt', erase_log s'))"
    for bi hc metadata n chain d ld rt s y
    using 1(1) by (auto simp: flush_loop_erases_def)
  show ?case
    unfolding flush_loop_erases_def
  proof (intro allI impI)
    fix bi
    assume "bi' = logged bi"
    note body = 1(2) [unfolded this]
    show "block_tree_flush_loop bi hc metadata n chain d ld rt (erase_log s)
       = (case r of (err, d', ld', rt', s') \<Rightarrow> Some (err, d', ld', rt', erase_log s'))"
    proof (cases chain)
      case Nil
      with body show ?thesis by (subst block_tree_flush_loop.simps) auto
    next
      case chain: (Cons block parents)
      with body obtain fr block1 s1 where fl:
        "chop_key_block_flush (logged bi) metadata block s = Some (fr, block1, s1)"
        by (auto simp: bind_eq_Some_conv)
      note fe = flush_erase [OF fl]
      consider (err) e where "fr = Inl e" | (top) h where "fr = Inr h" "parents = []"
        | (up) h where "fr = Inr h" "parents \<noteq> []" by (cases fr) auto
      then show ?thesis
      proof cases
        case err
        with body fl fe show ?thesis by (subst block_tree_flush_loop.simps) (auto simp: chain)
      next
        case top
        with body fl have "f (logged bi) hc metadata n [] (d + 1) (kb_depth block) (Some h) s1 = Some r"
          by (simp add: chain)
        from IH [OF this] fe top show ?thesis
          by (subst block_tree_flush_loop.simps) (simp add: chain)
      next
        case up
        with body fl obtain e parents2 s2 where a:
          "chop_key_block_add_index (logged bi) hc metadata n parents h s1 = Some (e, parents2, s2)"
          "f (logged bi) hc metadata n parents2 (d + 1) (kb_depth block) (Some h) s2 = Some r"
          by (auto simp: chain bind_eq_Some_conv)
        from IH [OF a(2)] add_index_erase [OF a(1)] fe up show ?thesis
          by (subst block_tree_flush_loop.simps) (simp add: chain)
      qed
    qed
  qed
qed

lemma tree_flush_erase:
  assumes "chop_block_tree_flush (logged bi) hc metadata t rt s = Some (err, rt', s')"
  shows "chop_block_tree_flush bi hc metadata t rt (erase_log s) = Some (err, rt', erase_log s')"
proof -
  obtain d ld where l: "block_tree_flush_loop (logged bi) hc metadata (kt_indexes_per_block t) (kt_chain t) 0 0 rt s
      = Some (err, d, ld, rt', s')" "\<not> (0 < d \<and> ld \<noteq> d - 1)"
    using assms by (auto simp: chop_block_tree_flush_def bind_eq_Some_conv split: if_splits)
  from flush_loop_erases_all [OF l(1)] l(2) show ?thesis
    by (simp add: flush_loop_erases_def chop_block_tree_flush_def)
qed

definition index_loop_erases where
  "index_loop_erases rb bi' hc out metadata t ta idx c s r \<longleftrightarrow>
    (\<forall>bi. bi' = logged bi \<longrightarrow> tree_index_loop rb bi hc out metadata t ta idx c (erase_log s)
       = (case r of (err, t', ta', idx', c', s') \<Rightarrow> Some (err, t', ta', idx', c', erase_log s')))"

lemma index_loop_erases_all:
  assumes "tree_index_loop rb bi' hc out metadata t ta idx c s = Some r"
  shows "index_loop_erases rb bi' hc out metadata t ta idx c s r"
  using _ assms
proof (rule tree_index_loop.raw_induct [where P = index_loop_erases], goal_cases)
  case (1 f rb bi' hc out metadata t ta idx c s r)
  have IH: "f rb (logged bi) hc out metadata t ta idx c s = Some y \<Longrightarrow>
      tree_index_loop rb bi hc out metadata t ta idx c (erase_log s)
       = (case y of (err, t', ta', idx', c', s') \<Rightarrow> Some (err, t', ta', idx', c', erase_log s'))"
    for rb bi hc out metadata t ta idx c s y
    using 1(1) by (auto simp: index_loop_erases_def)
  show ?case
    unfolding index_loop_erases_def
  proof (intro allI impI)
    fix bi
    assume "bi' = logged bi"
    note body = 1(2) [unfolded this]
    obtain err b n c' where rd: "chop_chopper_read_block rb c [] = Some ((err, b, n), c')"
      using body by (auto simp: bind_eq_Some_conv)
    consider (stop) "err \<noteq> CHOP_OK" | (skip) "err = CHOP_OK" "n = 0"
      | (fail) e s1 where "err = CHOP_OK" "n \<noteq> 0" "chop_block_indexer_index (logged bi) out b s = Some (Inl e, s1)"
      | (ok) h s1 where "err = CHOP_OK" "n \<noteq> 0" "chop_block_indexer_index (logged bi) out b s = Some (Inr h, s1)"
    proof -
      have "chop_block_indexer_index (logged bi) out b s \<noteq> None" if "err = CHOP_OK" "n \<noteq> 0"
        using body rd that by (cases "chop_block_indexer_index (logged bi) out b s") simp_all
      with that show thesis by (metis not_None_eq old.sum.exhaust surj_pair)
    qed
    then show "tree_index_loop rb bi hc out metadata t ta idx c (erase_log s)
       = (case r of (err, t', ta', idx', c', s') \<Rightarrow> Some (err, t', ta', idx', c', erase_log s'))"
    proof cases
      case stop
      with body rd show ?thesis by (subst tree_index_loop.simps) auto
    next
      case skip
      with body rd have "f rb (logged bi) hc out metadata t ta idx c' s = Some r" by simp
      from IH [OF this] skip rd show ?thesis by (subst tree_index_loop.simps) simp
    next
      case fail
      with body rd logged_log(2) [OF fail(3)] show ?thesis by (subst tree_index_loop.simps) auto
    next
      case ok
      with body rd obtain e t2 s2 where a:
        "chop_block_tree_add_index (logged bi) hc metadata t h s1 = Some (e, t2, s2)"
        "f rb (logged bi) hc out metadata t2 (ta + n) (Some h) c' s2 = Some r"
        by (auto simp: bind_eq_Some_conv)
      from IH [OF a(2)] tree_add_erase [OF a(1)] ok rd logged_log(2) [OF ok(3)] show ?thesis
        by (subst tree_index_loop.simps) simp
    qed
  qed
qed

lemma index_blocks_erase:
  assumes "chop_tree_index_blocks n rb (logged bi) hc out metadata c s = Some (err, idx, c', s')"
  shows "chop_tree_index_blocks n rb bi hc out metadata c (erase_log s) = Some (err, idx, c', erase_log s')"
proof -
  obtain e1 t ta idx1 c1 s1 where l:
    "tree_index_loop rb (logged bi) hc out metadata (chop_block_tree_init n) 0 None c s
       = Some (e1, t, ta, idx1, c1, s1)"
    using assms by (auto simp: chop_tree_index_blocks_def bind_eq_Some_conv)
  have le: "tree_index_loop rb bi hc out metadata (chop_block_tree_init n) 0 None c (erase_log s)
       = Some (e1, t, ta, idx1, c1, erase_log s1)"
    using index_loop_erases_all [OF l] by (simp add: index_loop_erases_def)
  show ?thesis
  proof (cases "e1 = CHOP_STREAM_END \<and> 0 < ta")
    case True
    with assms l obtain e2 where "chop_block_tree_flush (logged bi) hc metadata t idx1 s1 = Some (e2, idx, s')"
      "err = (if ta = 0 then CHOP_INDEXER_EMPTY_SOURCE else e2)" "c1 = c'"
      by (auto simp: chop_tree_index_blocks_def bind_eq_Some_conv split: if_splits)
    with tree_flush_erase [OF this(1)] le True show ?thesis by (simp add: chop_tree_index_blocks_def)
  next
    case False
    then show ?thesis using assms l le by (auto simp: chop_tree_index_blocks_def split: if_splits)
  qed
qed

end
