(* ===== verification/Chop_Tree_Stream.thy ===== *)
theory Chop_Tree_Stream
  imports Chop_Tree
begin

text \<open>
  The stream indexer of \<^verbatim>\<open>src/src/indexer-tree.c\<close>, reading side: the stream object that
  decodes a tree of key blocks, keeping one block per level in memory.  The path from
  the current data block up to the top-level key block is a list: \<^verbatim>\<open>current_child\<close> is the
  previous element, \<^verbatim>\<open>parent\<close> the next one where \<open>dk_has_parent\<close> holds, else NULL.  \<open>junk\<close> stands for the contents of memory fresh from
  \<^verbatim>\<open>malloc\<close>: fields the code does not initialise take their value from it.
\<close>

section \<open>Decoded blocks\<close>

record decoded_block =
  dk_buffer :: bytes
  dk_offset :: nat
  dk_is_key_block :: bool
  dk_depth :: nat
  dk_key_count :: nat
  dk_current_child_number :: nat
  dk_has_parent :: bool

definition chop_decoded_block_decode_header :: "decoded_block \<Rightarrow> chop_error \<times> decoded_block" where
  "chop_decoded_block_decode_header block =
    (let buffer = dk_buffer block in
     if length buffer < KEY_BLOCK_HEADER_SIZE then (CHOP_INDEXER_ERROR, block)
     else if take 2 buffer \<noteq> KEY_BLOCK_MAGIC
     then (CHOP_INDEXER_ERROR, block\<lparr>dk_current_child_number := 0, dk_key_count := 0, dk_depth := 0\<rparr>)
     else (CHOP_OK, block\<lparr>dk_key_count := le32_value (drop 2 buffer),
                           dk_depth := unat (buffer ! 6) + 256 * unat (buffer ! 7),
                           dk_offset := KEY_BLOCK_HEADER_SIZE,
                           dk_current_child_number := 0\<rparr>))"

definition chop_decoded_block_new :: "decoded_block \<Rightarrow> decoded_block" where
  "chop_decoded_block_new junk = junk\<lparr>dk_has_parent := False, dk_current_child_number := 0, dk_buffer := []\<rparr>"

definition CHILDREN_ARE_KEY_BLOCKS :: "decoded_block \<Rightarrow> bool" where
  "CHILDREN_ARE_KEY_BLOCKS block = (dk_is_key_block block \<and> 0 < dk_depth block)"

definition chop_decoded_block_fetch ::
  "('f, 'w, 'h) block_fetcher \<Rightarrow> 'w block_store \<Rightarrow> 'h \<Rightarrow> decoded_block option \<Rightarrow> decoded_block \<Rightarrow> 'f \<times> 'w
     \<Rightarrow> ((chop_error \<times> decoded_block) \<times> 'f \<times> 'w) option" where
  "chop_decoded_block_fetch bf store index parent block w =
    (let is_key_block = (case parent of Some p \<Rightarrow> CHILDREN_ARE_KEY_BLOCKS p | None \<Rightarrow> True) in
     Option.bind (chop_block_fetcher_fetch bf index store [] w) (\<lambda>((err, buffer, block_size), w').
       if err \<noteq> CHOP_OK then Some ((err, block\<lparr>dk_buffer := buffer\<rparr>), w')
       else let block' = block\<lparr>dk_buffer := buffer, dk_is_key_block := is_key_block, dk_offset := 0\<rparr>
            in (case (if is_key_block then chop_decoded_block_decode_header block' else (CHOP_OK, block')) of
                  (err', block'') \<Rightarrow> Some ((err', block''\<lparr>dk_has_parent := (parent \<noteq> None)\<rparr>), w'))))"

text \<open>\<^verbatim>\<open>chop_decoded_block_next_child\<close>, for the block at the head of \<open>path\<close> and its current child:
  refetching an exhausted block through its parent, then \<^verbatim>\<open>goto start\<close>.  An error of the
  recursive call leaves the contents it gave to the block.\<close>

partial_function (option) chop_decoded_block_next_child ::
  "('f, 'w, 'h) block_fetcher \<Rightarrow> 'h handle_class \<Rightarrow> 'w block_store \<Rightarrow> 'w block_store \<Rightarrow> decoded_block
     \<Rightarrow> decoded_block list \<Rightarrow> decoded_block option \<Rightarrow> 'f \<times> 'w
     \<Rightarrow> (chop_error \<times> decoded_block list \<times> decoded_block option \<times> 'f \<times> 'w) option" where
  "chop_decoded_block_next_child bf hc metadata_store data_store junk path child w =
    (case path of
       [] \<Rightarrow> None
     | block # parents \<Rightarrow>
        if dk_key_count block \<le> dk_current_child_number block
           \<or> length (dk_buffer block) \<le> dk_offset block
        then
          if \<not> dk_has_parent block then Some (CHOP_STREAM_END, path, child, w)
          else Option.bind (chop_decoded_block_next_child bf hc metadata_store data_store junk parents
                 (Some block) w) (\<lambda>(err, parents', block', w').
            case block' of
              None \<Rightarrow> None
            | Some block1 \<Rightarrow>
                if err \<noteq> CHOP_OK then Some (err, block1 # parents', child, w')
                else chop_decoded_block_next_child bf hc metadata_store data_store junk
                       (block1 # parents') child w')
        else
          (case hc_deserialize hc CHOP_SERIAL_BINARY (drop (dk_offset block) (dk_buffer block)) of
             None \<Rightarrow> None
           | Some (Inl err) \<Rightarrow> Some (err, path, child, w)
           | Some (Inr (index, serialized_size)) \<Rightarrow>
               let block1 = block\<lparr>dk_offset := dk_offset block + serialized_size\<rparr>;
                   child0 = (case child of None \<Rightarrow> chop_decoded_block_new junk | Some c \<Rightarrow> c);
                   the_store = (if CHILDREN_ARE_KEY_BLOCKS block1 then metadata_store else data_store)
               in Option.bind (chop_decoded_block_fetch bf the_store index (Some block1) child0 w)
                    (\<lambda>((err, child1), w').
                       if err \<noteq> CHOP_OK then Some (err, block1 # parents, Some child1, w')
                       else Some (CHOP_OK,
                              block1\<lparr>dk_current_child_number := dk_current_child_number block1 + 1\<rparr> # parents,
                              Some child1, w'))))"

declare chop_decoded_block_next_child.simps [code]

section \<open>Reading\<close>

text \<open>The loop of \<^verbatim>\<open>chop_decoded_block_read\<close> on a data block, with the bytes copied so far.\<close>

partial_function (option) decoded_data_read ::
  "('f, 'w, 'h) block_fetcher \<Rightarrow> 'h handle_class \<Rightarrow> 'w block_store \<Rightarrow> 'w block_store \<Rightarrow> decoded_block
     \<Rightarrow> nat \<Rightarrow> decoded_block \<Rightarrow> decoded_block list \<Rightarrow> bytes \<Rightarrow> 'f \<times> 'w
     \<Rightarrow> (chop_error \<times> bytes \<times> decoded_block \<times> decoded_block list \<times> 'f \<times> 'w) option" where
  "decoded_data_read bf hc metadata_store data_store junk sz block parents got w =
    (if length got < sz then
       let copy = (\<lambda>b. take (sz - length got) (drop (dk_offset b) (dk_buffer b))) in
       if length (dk_buffer block) \<le> dk_offset block then
         Option.bind (chop_decoded_block_next_child bf hc metadata_store data_store junk parents
             (Some block) w) (\<lambda>(err, parents', block', w').
           case block' of
             None \<Rightarrow> None
           | Some b1 \<Rightarrow>
               if err = CHOP_STREAM_END then
                 if got = [] then Some (err, got, b1, parents', w')
                 else Some (CHOP_OK, got @ copy b1, b1\<lparr>dk_offset := dk_offset b1 + length (copy b1)\<rparr>, parents', w')
               else if err \<noteq> CHOP_OK then Some (err, got, b1, parents', w')
               else decoded_data_read bf hc metadata_store data_store junk sz
                      (b1\<lparr>dk_offset := dk_offset b1 + length (copy b1)\<rparr>) parents' (got @ copy b1) w')
       else decoded_data_read bf hc metadata_store data_store junk sz
              (block\<lparr>dk_offset := dk_offset block + length (copy block)\<rparr>) parents (got @ copy block) w
     else Some (CHOP_OK, got, block, parents, w))"

declare decoded_data_read.simps [code]

text \<open>\<^verbatim>\<open>chop_decoded_block_read\<close> from the block at the head of \<open>path\<close>, whose children are \<open>below\<close>:
  down to the data block, fetching the first child where there is none.  It gives
  the new path from the bottom.\<close>

partial_function (option) chop_decoded_block_read ::
  "('f, 'w, 'h) block_fetcher \<Rightarrow> 'h handle_class \<Rightarrow> 'w block_store \<Rightarrow> 'w block_store \<Rightarrow> decoded_block
     \<Rightarrow> nat \<Rightarrow> decoded_block list \<Rightarrow> decoded_block list \<Rightarrow> 'f \<times> 'w
     \<Rightarrow> (chop_error \<times> bytes \<times> decoded_block list \<times> 'f \<times> 'w) option" where
  "chop_decoded_block_read bf hc metadata_store data_store junk sz below path w =
    (case path of
       [] \<Rightarrow> None
     | block # parents \<Rightarrow>
        if dk_is_key_block block then
          (case below of
             [] \<Rightarrow>
               Option.bind (chop_decoded_block_next_child bf hc metadata_store data_store junk path None w)
                 (\<lambda>(err, path', child, w').
                   if err \<noteq> CHOP_OK
                   then Some (err, [], (case child of None \<Rightarrow> path' | Some c \<Rightarrow> c # path'), w')
                   else (case child of
                           None \<Rightarrow> None
                         | Some c \<Rightarrow> chop_decoded_block_read bf hc metadata_store data_store junk sz []
                                       (c # path') w'))
           | c # below' \<Rightarrow>
               chop_decoded_block_read bf hc metadata_store data_store junk sz below' (c # path) w)
        else if \<not> dk_has_parent block then None
        else Option.bind (decoded_data_read bf hc metadata_store data_store junk sz block parents [] w)
               (\<lambda>(err, got, block', parents', w'). Some (err, got, rev below @ block' # parents', w')))"

declare chop_decoded_block_read.simps [code]

section \<open>The stream\<close>

record 'h tree_stream =
  ts_index :: 'h
  ts_path :: "decoded_block list"
  ts_current_offset :: nat

definition chop_tree_fetch_stream :: "'h \<Rightarrow> 'h tree_stream" where
  "chop_tree_fetch_stream handle = \<lparr>ts_index = handle, ts_path = [], ts_current_offset = 0\<rparr>"

definition chop_decoded_block_tree_read ::
  "('f, 'w, 'h) block_fetcher \<Rightarrow> 'h handle_class \<Rightarrow> 'w block_store \<Rightarrow> 'w block_store \<Rightarrow> decoded_block
     \<Rightarrow> ('h tree_stream \<times> 'f \<times> 'w) stream_read" where
  "chop_decoded_block_tree_read bf hc metadata_store data_store junk tw sz =
    (case tw of (tree, w0) \<Rightarrow>
      Option.bind
        (if ts_path tree = []
         then Option.bind (chop_decoded_block_fetch bf metadata_store (ts_index tree) None
                (chop_decoded_block_new junk) w0) (\<lambda>((err, top_level), w1).
                  Some (err, tree\<lparr>ts_path := [top_level]\<rparr>, w1))
         else Some (CHOP_OK, tree, w0)) (\<lambda>(err, tree1, w1).
        if err \<noteq> CHOP_OK then Some (err, [], tree1, w1)
        else Option.bind (chop_decoded_block_read bf hc metadata_store data_store junk sz
               (tl (rev (ts_path tree1))) [last (ts_path tree1)] w1) (\<lambda>(err, got, path, w2).
          Some (err, got, tree1\<lparr>ts_path := path, ts_current_offset := ts_current_offset tree1 + length got\<rparr>, w2))))"

definition tree_stream_read ::
  "('f, 'w, 'h) block_fetcher \<Rightarrow> 'h handle_class \<Rightarrow> 'w block_store \<Rightarrow> 'w block_store \<Rightarrow> decoded_block
     \<Rightarrow> ('h tree_stream \<times> 'f \<times> 'w) stream_read" where
  "tree_stream_read bf hc metadata_store data_store junk tw sz =
    chop_decoded_block_tree_read bf hc metadata_store data_store junk tw sz"

end
