(* ===== verification/Chop_Tree_Reader.thy ===== *)
theory Chop_Tree_Reader
  imports Chop_Tree_Writer Chop_Tree_Stream
begin

text \<open>
  Correctness of the reading side of the tree indexer: the stream over a tree that the
  block indexer's log holds delivers the bytes of the tree, all of them and in order, and is a
  stream in the sense of the locale \<open>byte_stream\<close>.
\<close>

section \<open>Decoding headers\<close>

lemma decode_header_round_trip:
  assumes "dk_buffer block = key_block_header n d @ rest" "n < 2 ^ 32" "d < 2 ^ 16"
  shows "chop_decoded_block_decode_header block =
    (CHOP_OK, block\<lparr>dk_key_count := n, dk_depth := d, dk_offset := 10, dk_current_child_number := 0\<rparr>)"
proof -
  have len: "length KEY_BLOCK_MAGIC = 2" by (simp add: KEY_BLOCK_MAGIC_def ascii_def)
  let ?depth = "[of_nat (d mod 256), of_nat (d div 256 mod 256)] @ [0, 0] :: bytes"
  have b: "dk_buffer block = KEY_BLOCK_MAGIC @ le32 n @ ?depth @ rest"
    using assms(1) by (simp add: key_block_header_def)
  have "dk_buffer block ! 6 = of_nat (d mod 256)" "dk_buffer block ! 7 = of_nat (d div 256 mod 256)"
    using len by (simp_all add: b nth_append)
  moreover have "d div 256 < 256" using assms(3) by (simp add: less_mult_imp_div_less)
  ultimately have "unat (dk_buffer block ! 6) + 256 * unat (dk_buffer block ! 7) = d"
    by (simp add: unat_byte_of_nat)
  moreover have "le32_value (drop 2 (dk_buffer block)) = n"
    using len le32_value_le32 [OF assms(2)] by (simp add: b)
  moreover have "take 2 (dk_buffer block) = KEY_BLOCK_MAGIC" using len by (simp add: b)
  moreover have "10 \<le> length (dk_buffer block)" using len by (simp add: b)
  ultimately show ?thesis
    by (simp add: chop_decoded_block_decode_header_def KEY_BLOCK_HEADER_SIZE_def Let_def)
qed

section \<open>What is left to read\<close>

lemma take_drop_length: "take n xs @ drop (length (take n xs)) xs = xs"
  by (cases "n \<le> length xs") simp_all

lemma list_all2_concat_Nil:
  "list_all2 (tree_of wh enc L d) hs bs \<Longrightarrow> concat bs = [] \<Longrightarrow> hs = []"
  by (cases hs; cases bs) (auto dest: tree_of_nonempty)

text \<open>\<open>kids wh enc L d block b\<close>: the key block of depth \<open>d\<close> has yet to deliver the
  children for the bytes \<open>b\<close>.\<close>

definition kids ::
  "('h \<Rightarrow> bool) \<Rightarrow> ('h \<Rightarrow> bytes) \<Rightarrow> ('h \<times> bytes) set \<Rightarrow> nat \<Rightarrow> decoded_block \<Rightarrow> bytes \<Rightarrow> bool" where
  "kids wh enc L d block b \<longleftrightarrow>
    dk_is_key_block block \<and> dk_depth block = d \<and> dk_offset block \<le> length (dk_buffer block)
    \<and> (\<exists>hs bs. drop (dk_offset block) (dk_buffer block) = concat (map enc hs)
         \<and> dk_key_count block = dk_current_child_number block + length hs
         \<and> (\<forall>x \<in> set hs. wh x) \<and> list_all2 (tree_of wh enc L d) hs bs \<and> b = concat bs)"

fun path_ok ::
  "('h \<Rightarrow> bool) \<Rightarrow> ('h \<Rightarrow> bytes) \<Rightarrow> ('h \<times> bytes) set \<Rightarrow> nat \<Rightarrow> decoded_block list \<Rightarrow> bytes \<Rightarrow> bool" where
  "path_ok wh enc L d [] b = (b = [])"
| "path_ok wh enc L d (block # parents) b =
    (\<exists>b1 b2. kids wh enc L d block b1 \<and> dk_has_parent block = (parents \<noteq> [])
       \<and> path_ok wh enc L (Suc d) parents b2 \<and> b = b1 @ b2)"

text \<open>A child just fetched, of a block of depth \<open>d\<close>.\<close>

definition fresh_child ::
  "('h \<Rightarrow> bool) \<Rightarrow> ('h \<Rightarrow> bytes) \<Rightarrow> ('h \<times> bytes) set \<Rightarrow> nat \<Rightarrow> decoded_block \<Rightarrow> bytes \<Rightarrow> bool" where
  "fresh_child wh enc L d block b \<longleftrightarrow> b \<noteq> [] \<and> dk_has_parent block \<and>
    (case d of 0 \<Rightarrow> \<not> dk_is_key_block block \<and> dk_offset block = 0 \<and> dk_buffer block = b
     | Suc e \<Rightarrow> kids wh enc L e block b)"

context block_indexing
begin

abbreviation good :: "'h \<Rightarrow> bool" where
  "good h \<equiv> wf_handle h \<and> length (encode h) \<le> hsize"

abbreviation rtree :: "'h block_log \<Rightarrow> nat \<Rightarrow> 'h \<Rightarrow> bytes \<Rightarrow> bool" where
  "rtree lg \<equiv> tree_of good encode (set lg)"

abbreviation rkids :: "'h block_log \<Rightarrow> nat \<Rightarrow> decoded_block \<Rightarrow> bytes \<Rightarrow> bool" where
  "rkids lg \<equiv> kids good encode (set lg)"

abbreviation rpath :: "'h block_log \<Rightarrow> nat \<Rightarrow> decoded_block list \<Rightarrow> bytes \<Rightarrow> bool" where
  "rpath lg \<equiv> path_ok good encode (set lg)"

abbreviation rfresh :: "'h block_log \<Rightarrow> nat \<Rightarrow> decoded_block \<Rightarrow> bytes \<Rightarrow> bool" where
  "rfresh lg \<equiv> fresh_child good encode (set lg)"

abbreviation next_child where
  "next_child junk \<equiv> chop_decoded_block_next_child bf hc store store junk"

text \<open>Fetching a key block: it has all its children to deliver.\<close>

lemma fetch_key_block:
  assumes "fetchable lg i w" "rtree lg (Suc e) h b" "h' \<in> {h, canon h}"
    and "case parent of Some p \<Rightarrow> CHILDREN_ARE_KEY_BLOCKS p | None \<Rightarrow> True"
  obtains c w' where "chop_decoded_block_fetch bf store h' parent block w = Some ((CHOP_OK, c), w')"
    "fetchable lg i w'" "rkids lg e c b" "dk_has_parent c = (parent \<noteq> None)"
proof -
  from assms(2) obtain hs bs where t: "b = concat bs"
    "(h, key_block_header (length hs) e @ concat (map encode hs)) \<in> set lg" "length hs < 2 ^ 32"
    "e < 2 ^ 16" "\<forall>x \<in> set hs. good x" "list_all2 (rtree lg e) hs bs"
    by (auto elim!: tree_of_SucE)
  let ?data = "key_block_header (length hs) e @ concat (map encode hs)"
  obtain w' where f: "chop_block_fetcher_fetch bf h' store [] w = Some ((CHOP_OK, ?data, length ?data), w')"
    "fetchable lg i w'"
    using fetch_result [OF assms(1) t(2) assms(3)] .
  let ?b = "block\<lparr>dk_buffer := ?data, dk_is_key_block := True, dk_offset := 0\<rparr>"
  have "dk_buffer ?b = ?data" by simp
  note d = decode_header_round_trip [OF this t(3,4)]
  show thesis
    using f t assms(4) d
    by (intro that [of "?b\<lparr>dk_key_count := length hs, dk_depth := e, dk_offset := 10,
         dk_current_child_number := 0, dk_has_parent := (parent \<noteq> None)\<rparr>" w'])
       (auto simp: chop_decoded_block_fetch_def kids_def split: option.splits)
qed

lemma fetch_child:
  assumes "fetchable lg i w" "rtree lg d h b" "h' \<in> {h, canon h}" "dk_is_key_block block" "dk_depth block = d"
  obtains c' w' where "chop_decoded_block_fetch bf store h' (Some block) c w = Some ((CHOP_OK, c'), w')"
    "fetchable lg i w'" "rfresh lg d c' b"
proof (cases d)
  case 0
  with assms(2) have "(h, b) \<in> set lg" "b \<noteq> []" by (auto elim: tree_of_0E)
  with fetch_result [OF assms(1) _ assms(3), of b "[]"] obtain w' where
    "chop_block_fetcher_fetch bf h' store [] w = Some ((CHOP_OK, b, length b), w')" "fetchable lg i w'" by blast
  with 0 assms \<open>b \<noteq> []\<close> show thesis
    by (intro that [of "c\<lparr>dk_buffer := b, dk_is_key_block := False, dk_offset := 0, dk_has_parent := True\<rparr>" w'])
       (auto simp: chop_decoded_block_fetch_def CHILDREN_ARE_KEY_BLOCKS_def fresh_child_def)
next
  case (Suc e)
  with assms(4,5) have "case Some block of Some p \<Rightarrow> CHILDREN_ARE_KEY_BLOCKS p | None \<Rightarrow> True"
    by (simp add: CHILDREN_ARE_KEY_BLOCKS_def)
  from fetch_key_block [OF assms(1) assms(2) [unfolded Suc] assms(3) this, of c] that Suc
    tree_of_nonempty [OF assms(2)]
  show thesis by (auto simp: fresh_child_def)
qed

text \<open>The next child of a block that has some.\<close>

lemma next_child_here:
  assumes "fetchable lg i w" "rpath lg d (block # parents) b" "rkids lg d block b1" "b1 \<noteq> []"
    and "rpath lg (Suc d) parents b2" "dk_has_parent block = (parents \<noteq> [])"
  obtains block' c b3 b4 w' where
    "next_child junk (block # parents) child w = Some (CHOP_OK, block' # parents, Some c, w')"
    "fetchable lg i w'" "rpath lg d (block' # parents) (b4 @ b2)" "rfresh lg d c b3" "b1 = b3 @ b4"
proof -
  from assms(3) obtain hs bs where k: "dk_is_key_block block" "dk_depth block = d"
    "drop (dk_offset block) (dk_buffer block) = concat (map encode hs)"
    "dk_key_count block = dk_current_child_number block + length hs"
    "\<forall>x \<in> set hs. good x" "list_all2 (rtree lg d) hs bs" "b1 = concat bs"
    unfolding kids_def by blast
  with assms(4) obtain h hs' b3 bs' where hs: "hs = h # hs'" "bs = b3 # bs'" by (cases hs; cases bs) auto
  have h: "good h" "rtree lg d h b3" using k(5,6) hs by auto
  have rest: "drop (dk_offset block) (dk_buffer block) = encode h @ concat (map encode hs')"
    using k(3) hs by simp
  then have len: "length (dk_buffer block) - dk_offset block = length (encode h) + length (concat (map encode hs'))"
    by (metis length_append length_drop)
  moreover have "0 < length (encode h)" using encode_nonempty [of h] h(1) by simp
  ultimately have room: "dk_offset block < length (dk_buffer block)"
    and off: "dk_offset block + length (encode h) \<le> length (dk_buffer block)" by linarith+
  let ?b1 = "block\<lparr>dk_offset := dk_offset block + length (encode h)\<rparr>"
  let ?child = "case child of None \<Rightarrow> chop_decoded_block_new junk | Some c \<Rightarrow> c"
  have "dk_is_key_block ?b1" "dk_depth ?b1 = d" using k by simp_all
  from fetch_child [OF assms(1) h(2) _ this, of "canon h" ?child] obtain c w' where f:
    "chop_decoded_block_fetch bf store (canon h) (Some ?b1) ?child w = Some ((CHOP_OK, c), w')"
    "fetchable lg i w'" "rfresh lg d c b3" by auto
  let ?b2 = "?b1\<lparr>dk_current_child_number := dk_current_child_number block + 1\<rparr>"
  have "next_child junk (block # parents) child w = Some (CHOP_OK, ?b2 # parents, Some c, w')"
    using k(4) hs(1) room f(1) deserialize_law [of h] h(1)
    by (subst chop_decoded_block_next_child.simps) (simp add: rest Let_def)
  moreover have "drop (dk_offset ?b2) (dk_buffer ?b2) = concat (map encode hs')"
    using arg_cong [OF rest, of "drop (length (encode h))"] by (simp add: add.commute)
  then have "rkids lg d ?b2 (concat bs')"
    using k hs off unfolding kids_def by auto
  with assms(5,6) have "rpath lg d (?b2 # parents) (concat bs' @ b2)" by auto
  ultimately show thesis using that f k(7) hs(2) by simp
qed

text \<open>The next child on a path, from the block or from an ancestor of it.\<close>

definition next_ok :: "'h block_log \<Rightarrow> 'i \<Rightarrow> decoded_block \<Rightarrow> nat \<Rightarrow> decoded_block list \<Rightarrow> decoded_block option
    \<Rightarrow> 'f \<times> 'w \<Rightarrow> bytes \<Rightarrow> bool" where
  "next_ok lg i junk d path child w b \<longleftrightarrow>
    (\<exists>path' c b1 b2 w'. next_child junk path child w = Some (CHOP_OK, path', Some c, w')
       \<and> fetchable lg i w' \<and> rpath lg d path' b2 \<and> path' \<noteq> [] \<and> rfresh lg d c b1 \<and> b = b1 @ b2)"

lemma next_ok_here:
  assumes "fetchable lg i w" "rkids lg d block b1" "b1 \<noteq> []" "rpath lg (Suc d) parents b2"
    and "dk_has_parent block = (parents \<noteq> [])"
  shows "next_ok lg i junk d (block # parents) child w (b1 @ b2)"
proof -
  have "rpath lg d (block # parents) (b1 @ b2)" using assms by auto
  from next_child_here [OF assms(1) this assms(2-5), of junk child] obtain block' c b3 b4 w' where
    "next_child junk (block # parents) child w = Some (CHOP_OK, block' # parents, Some c, w')"
    "fetchable lg i w'" "rpath lg d (block' # parents) (b4 @ b2)" "rfresh lg d c b3" "b1 = b3 @ b4" .
  then show ?thesis unfolding next_ok_def
    by (intro exI [of _ "block' # parents"] exI [of _ c] exI [of _ b3] exI [of _ "b4 @ b2"] exI [of _ w']) simp
qed

lemma next_child_next:
  assumes "fetchable lg i w" "rpath lg d path b" "path \<noteq> []" "b \<noteq> []"
  shows "next_ok lg i junk d path child w b"
  using assms
proof (induction path arbitrary: d b child w)
  case (Cons block parents)
  from Cons.prems(2) obtain b1 b2 where b: "rkids lg d block b1" "dk_has_parent block = (parents \<noteq> [])"
    "rpath lg (Suc d) parents b2" "b = b1 @ b2"
    by auto
  show ?case
  proof (cases "b1 = []")
    case False
    from next_ok_here [OF Cons.prems(1) b(1) False b(3,2)] b(4) show ?thesis by simp
  next
    case True
    with b Cons.prems(4) have up: "parents \<noteq> []" "b2 \<noteq> []" "b = b2" by auto
    from b(1) True have exhausted: "dk_key_count block \<le> dk_current_child_number block"
      by (auto simp: kids_def dest!: list_all2_concat_Nil)
    from Cons.IH [OF Cons.prems(1) b(3) up(1,2), of "Some block"] obtain parents' c b3 b4 w' where n:
      "next_child junk parents (Some block) w = Some (CHOP_OK, parents', Some c, w')"
      "fetchable lg i w'" "rpath lg (Suc d) parents' b4" "parents' \<noteq> []" "rfresh lg (Suc d) c b3" "b2 = b3 @ b4"
      unfolding next_ok_def by blast
    have c: "rkids lg d c b3" "b3 \<noteq> []" "dk_has_parent c = (parents' \<noteq> [])"
      using n(4,5) by (auto simp: fresh_child_def)
    from next_ok_here [OF n(2) c(1,2) n(3) c(3)] n(6) up(3)
    have "next_ok lg i junk d (c # parents') child w' b" by simp
    moreover have "next_child junk (block # parents) child w = next_child junk (c # parents') child w'"
      using exhausted b(2) up(1) n(1) by (subst chop_decoded_block_next_child.simps) simp
    ultimately show ?thesis unfolding next_ok_def by simp
  qed
qed simp

lemma next_child_end:
  assumes "rpath lg d path []" "path \<noteq> []"
  shows "next_child junk path child w = Some (CHOP_STREAM_END, path, child, w)"
  using assms
proof (induction path arbitrary: d child)
  case (Cons block parents)
  from Cons.prems(1) have b: "rkids lg d block []" "dk_has_parent block = (parents \<noteq> [])"
    "rpath lg (Suc d) parents []" by auto
  from b(1) have "dk_key_count block \<le> dk_current_child_number block"
    by (auto simp: kids_def dest!: list_all2_concat_Nil)
  with b(2) Cons.IH [OF b(3)] show ?case
    by (subst chop_decoded_block_next_child.simps) auto
qed simp

section \<open>Reading from the current data block\<close>

text \<open>\<open>at_data lg path b\<close>: the path starts at a data block and the bytes \<open>b\<close> are left.\<close>

definition at_data :: "'h block_log \<Rightarrow> decoded_block list \<Rightarrow> bytes \<Rightarrow> bool" where
  "at_data lg path b \<longleftrightarrow> (\<exists>block parents b'. path = block # parents \<and> parents \<noteq> []
     \<and> \<not> dk_is_key_block block \<and> dk_has_parent block \<and> rpath lg 0 parents b'
     \<and> b = drop (dk_offset block) (dk_buffer block) @ b')"

abbreviation data_read where
  "data_read junk \<equiv> decoded_data_read bf hc store store junk"

lemma rfresh_data: "rfresh lg 0 c b \<Longrightarrow> path \<noteq> [] \<Longrightarrow> rpath lg 0 path b' \<Longrightarrow> at_data lg (c # path) (b @ b')"
  by (auto simp: fresh_child_def at_data_def)

lemma at_data_copy:
  assumes "at_data lg (block # parents) b" "bs = take n (drop (dk_offset block) (dk_buffer block))"
  obtains b' where "at_data lg (block\<lparr>dk_offset := dk_offset block + length bs\<rparr> # parents) b'" "b = bs @ b'"
proof -
  from assms(1) obtain b' where b': "parents \<noteq> []" "\<not> dk_is_key_block block" "dk_has_parent block"
    "rpath lg 0 parents b'" "b = drop (dk_offset block) (dk_buffer block) @ b'"
    by (auto simp: at_data_def)
  have "drop (dk_offset block) (dk_buffer block) = bs @ drop (dk_offset block + length bs) (dk_buffer block)"
    using take_drop_length [of n "drop (dk_offset block) (dk_buffer block)"]
    unfolding assms(2) drop_drop by (simp add: add.commute)
  with b' that show thesis by (auto simp: at_data_def)
qed

text \<open>Reading from a data block gives as much as is left, up to the size asked for.\<close>

definition data_read_ok :: "'h block_log \<Rightarrow> 'i \<Rightarrow> decoded_block \<Rightarrow> nat \<Rightarrow> decoded_block \<Rightarrow> decoded_block list
    \<Rightarrow> bytes \<Rightarrow> 'f \<times> 'w \<Rightarrow> bytes \<Rightarrow> bool" where
  "data_read_ok lg i junk sz block parents got w b \<longleftrightarrow>
    (\<exists>block' parents' w'. data_read junk sz block parents got w
       = Some (if got = [] \<and> b = [] \<and> 0 < sz then CHOP_STREAM_END else CHOP_OK,
               got @ take (sz - length got) b, block', parents', w')
     \<and> fetchable lg i w' \<and> at_data lg (block' # parents') (drop (sz - length got) b))"

lemma data_read_step:
  assumes IH: "\<And>block parents got w b'. \<lbrakk>length b' < length b; fetchable lg i w; at_data lg (block # parents) b'\<rbrakk>
      \<Longrightarrow> data_read_ok lg i junk sz block parents got w b'"
    and "fetchable lg i w" "at_data lg (block # parents) b" "dk_offset block < length (dk_buffer block)"
    and "length got < sz" "bs = take (sz - length got) (drop (dk_offset block) (dk_buffer block))"
    and eq: "data_read junk sz block0 parents0 got w0
      = data_read junk sz (block\<lparr>dk_offset := dk_offset block + length bs\<rparr>) parents (got @ bs) w"
  shows "data_read_ok lg i junk sz block0 parents0 got w0 b"
proof -
  from at_data_copy [OF assms(3,6)] obtain b' where b':
    "at_data lg (block\<lparr>dk_offset := dk_offset block + length bs\<rparr> # parents) b'" "b = bs @ b'" .
  have bs: "bs \<noteq> []" "length bs \<le> sz - length got" using assms(4-6) by auto
  then have "length b' < length b" using b'(2) by simp
  note IH [OF this assms(2) b'(1), of "got @ bs"]
  with bs b'(2) assms(5) eq show ?thesis by (simp add: data_read_ok_def)
qed

lemma data_read_all:
  assumes "fetchable lg i w" "at_data lg (block # parents) b"
  shows "data_read_ok lg i junk sz block parents got w b"
  using assms
proof (induction "length b" arbitrary: b block parents got w rule: less_induct)
  case less
  note IH = less.hyps
  show ?case
  proof (cases "length got < sz")
    case False
    then show ?thesis
      using less.prems unfolding data_read_ok_def by (subst decoded_data_read.simps) auto
  next
    case small: True
    show ?thesis
    proof (cases "dk_offset block < length (dk_buffer block)")
      case True
      show ?thesis
        by (rule data_read_step [OF _ less.prems True small refl], (rule IH; assumption))
           (use small True in \<open>subst decoded_data_read.simps, simp add: Let_def\<close>)
    next
      case False
      with less.prems(2) have up: "parents \<noteq> []" "rpath lg 0 parents b" by (auto simp: at_data_def)
      show ?thesis
      proof (cases "b = []")
        case True
        with next_child_end [of lg 0 parents junk "Some block" w] up False small less.prems show ?thesis
          unfolding data_read_ok_def by (subst decoded_data_read.simps) (cases w, auto simp: at_data_def)
      next
        case ne: False
        from next_child_next [OF less.prems(1) up(2,1) ne, of junk "Some block"]
        obtain path' c b1 b2 w' where n:
          "next_child junk parents (Some block) w = Some (CHOP_OK, path', Some c, w')"
          "fetchable lg i w'" "rpath lg 0 path' b2" "path' \<noteq> []" "rfresh lg 0 c b1" "b = b1 @ b2"
          unfolding next_ok_def by blast
        have at: "at_data lg (c # path') b" using rfresh_data [OF n(5,4,3)] n(6) by simp
        have c: "dk_offset c < length (dk_buffer c)" using n(5) by (simp add: fresh_child_def)
        show ?thesis
          by (rule data_read_step [OF _ n(2) at c small refl], (rule IH; assumption))
             (use small False n(1) in \<open>subst decoded_data_read.simps, simp add: Let_def\<close>)
      qed
    qed
  qed
qed

section \<open>Reading from the top\<close>

abbreviation block_read where
  "block_read junk \<equiv> chop_decoded_block_read bf hc store store junk"

lemma rpath_keys: "rpath lg d path b \<Longrightarrow> \<forall>x \<in> set path. dk_is_key_block x"
  by (induction path arbitrary: d b) (auto simp: kids_def)

lemma read_at_data:
  assumes "\<not> dk_is_key_block block" "dk_has_parent block"
  shows "block_read junk sz [] (block # parents) w =
    map_option (\<lambda>(err, got, block', parents', w'). (err, got, block' # parents', w'))
      (data_read junk sz block parents [] w)"
  using assms
  by (subst chop_decoded_block_read.simps) (cases "data_read junk sz block parents [] w"; auto)

lemma read_down:
  assumes "dk_is_key_block x" "\<forall>y \<in> set ys. dk_is_key_block y"
  shows "block_read junk sz (ys @ [block]) (x # up) w = block_read junk sz [] (block # rev ys @ x # up) w"
  using assms
proof (induction ys arbitrary: x up)
  case Nil
  then show ?case by (subst chop_decoded_block_read.simps) simp
next
  case (Cons y ys)
  have "block_read junk sz ((y # ys) @ [block]) (x # up) w = block_read junk sz (ys @ [block]) (y # x # up) w"
    using Cons.prems(1) by (subst chop_decoded_block_read.simps) simp
  with Cons show ?case by simp
qed

definition read_ok :: "'h block_log \<Rightarrow> 'i \<Rightarrow> decoded_block \<Rightarrow> nat \<Rightarrow> decoded_block list \<Rightarrow> decoded_block list
    \<Rightarrow> 'f \<times> 'w \<Rightarrow> bytes \<Rightarrow> bool" where
  "read_ok lg i junk sz below path w b \<longleftrightarrow>
    (\<exists>path' w'. block_read junk sz below path w
       = Some (if b = [] \<and> 0 < sz then CHOP_STREAM_END else CHOP_OK, take sz b, path', w')
     \<and> fetchable lg i w' \<and> at_data lg path' (drop sz b))"

lemma read_ok_at_data:
  assumes "fetchable lg i w" "at_data lg (block # parents) b"
  shows "read_ok lg i junk sz [] (block # parents) w b"
proof -
  have "\<not> dk_is_key_block block" "dk_has_parent block" using assms(2) by (auto simp: at_data_def)
  with data_read_all [OF assms, of junk sz "[]"] show ?thesis
    by (auto simp: read_ok_def data_read_ok_def read_at_data)
qed

text \<open>A path that already goes down to a data block.\<close>

lemma read_again:
  assumes "fetchable lg i w" "at_data lg path b"
  shows "read_ok lg i junk sz (tl (rev path)) [last path] w b"
proof -
  from assms(2) obtain block parents b' where p: "path = block # parents" "parents \<noteq> []"
    "rpath lg 0 parents b'" by (auto simp: at_data_def)
  have keys: "\<forall>x \<in> set parents. dk_is_key_block x" using rpath_keys [OF p(3)] .
  then have "\<forall>y \<in> set (tl (rev parents)). dk_is_key_block y" by (metis list.set_sel(2) p(2) rev_is_Nil_conv set_rev)
  moreover have "tl (rev path) = tl (rev parents) @ [block]" "last path = last parents"
    using p(1,2) by (simp_all add: tl_append2)
  moreover have "rev (tl (rev parents)) @ [last parents] = parents"
    using p(2) by (metis append_butlast_last_id butlast_rev rev_rev_ident)
  ultimately have "block_read junk sz (tl (rev path)) [last path] w = block_read junk sz [] path w"
    using read_down [of "last parents" "tl (rev parents)" junk sz block "[]" w] keys p(1,2) by simp
  with read_ok_at_data [OF assms(1), of block parents b] assms(2) p(1) show ?thesis
    by (simp add: read_ok_def)
qed

text \<open>A path whose first block has not fetched a child yet.\<close>

lemma read_first:
  assumes "fetchable lg i w" "rpath lg d path b" "path \<noteq> []" "b \<noteq> []"
  shows "read_ok lg i junk sz [] path w b"
  using assms
proof (induction d arbitrary: path w)
  case (0 path w)
  from next_child_next [OF 0, of junk None] obtain path' c b1 b2 w' where n:
    "next_child junk path None w = Some (CHOP_OK, path', Some c, w')"
    "fetchable lg i w'" "rpath lg 0 path' b2" "path' \<noteq> []" "rfresh lg 0 c b1" "b = b1 @ b2"
    unfolding next_ok_def by blast
  have "block_read junk sz [] path w = block_read junk sz [] (c # path') w'"
    using n(1) rpath_keys [OF 0(2)] 0(3) by (cases path) (subst chop_decoded_block_read.simps, auto)+
  with read_ok_at_data [OF n(2) rfresh_data [OF n(5,4,3)]] n(6) show ?case by (simp add: read_ok_def)
next
  case (Suc d path w)
  from next_child_next [OF Suc.prems, of junk None] obtain path' c b1 b2 w' where n:
    "next_child junk path None w = Some (CHOP_OK, path', Some c, w')"
    "fetchable lg i w'" "rpath lg (Suc d) path' b2" "path' \<noteq> []" "rfresh lg (Suc d) c b1" "b = b1 @ b2"
    unfolding next_ok_def by blast
  have "block_read junk sz [] path w = block_read junk sz [] (c # path') w'"
    using n(1) rpath_keys [OF Suc.prems(2)] Suc.prems(3)
    by (cases path) (subst chop_decoded_block_read.simps, auto)+
  moreover have "rpath lg d (c # path') b" using n(3-6) by (auto simp: fresh_child_def)
  from Suc.IH [OF n(2) this _ Suc.prems(4)] have "read_ok lg i junk sz [] (c # path') w' b" by simp
  ultimately show ?case by (simp add: read_ok_def)
qed

end

section \<open>The tree stream\<close>

text \<open>A tree of the log \<open>lg\<close> for the bytes \<open>contents\<close>, and a stream opened on its handle.\<close>

locale tree_reading = block_indexing hc wf_handle encode canon bi bf store J I F compat max_block hsize
  for hc :: "'h handle_class" and wf_handle encode canon
    and bi :: "('i, 'w, 'h) block_indexer" and bf :: "('f, 'w, 'h) block_fetcher" and store J I F compat max_block hsize +
  fixes junk :: decoded_block and lg :: "'h block_log" and i :: 'i and data :: bytes
begin

definition ts_inv :: "'h tree_stream \<times> 'f \<times> 'w \<Rightarrow> bool" where
  "ts_inv tw \<longleftrightarrow> fetchable lg i (snd tw) \<and>
    (if ts_path (fst tw) = []
     then ts_current_offset (fst tw) = 0 \<and> (\<exists>k h. rtree lg (Suc k) h data \<and> ts_index (fst tw) \<in> {h, canon h})
     else at_data lg (ts_path (fst tw)) (drop (ts_current_offset (fst tw)) data))"

definition ts_rest :: "'h tree_stream \<times> 'f \<times> 'w \<Rightarrow> bytes" where
  "ts_rest tw = drop (ts_current_offset (fst tw)) data"

lemma ts_inv_open:
  assumes "fetchable lg i w" "rtree lg (Suc k) h data" "h' \<in> {h, canon h}"
  shows "ts_inv (chop_tree_fetch_stream h', w)" "ts_rest (chop_tree_fetch_stream h', w) = data"
  using assms by (auto simp: ts_inv_def ts_rest_def chop_tree_fetch_stream_def)

lemma at_data_not_Nil: "at_data l path b \<Longrightarrow> path \<noteq> []"
  by (auto simp: at_data_def)

lemma tree_stream_read_result:
  assumes "read_ok lg i junk sz below path w (ts_rest (t, w0))"
    and "tree_stream_read bf hc store store junk (t, w0) sz =
      Option.bind (block_read junk sz below path w) (\<lambda>(err, got, path, w2).
        Some (err, got, t\<lparr>ts_path := path, ts_current_offset := ts_current_offset t + length got\<rparr>, w2))"
  obtains tw' where "tree_stream_read bf hc store store junk (t, w0) sz =
      Some (if ts_rest (t, w0) = [] \<and> 0 < sz then CHOP_STREAM_END else CHOP_OK, take sz (ts_rest (t, w0)), tw')"
    "ts_inv tw'" "ts_rest tw' = drop sz (ts_rest (t, w0))"
proof -
  let ?b = "ts_rest (t, w0)"
  from assms(1) obtain path' w' where r: "block_read junk sz below path w
       = Some (if ?b = [] \<and> 0 < sz then CHOP_STREAM_END else CHOP_OK, take sz ?b, path', w')"
    "fetchable lg i w'" "at_data lg path' (drop sz ?b)"
    unfolding read_ok_def by blast
  let ?t = "t\<lparr>ts_path := path', ts_current_offset := ts_current_offset t + length (take sz ?b)\<rparr>"
  have "drop (ts_current_offset ?t) data = drop sz ?b"
    by (cases "sz \<le> length ?b") (simp_all add: ts_rest_def add.commute)
  with r at_data_not_Nil [OF r(3)] show thesis
    by (intro that [of "(?t, w')"]) (simp_all add: assms(2) ts_inv_def ts_rest_def)
qed

text \<open>One read gives the next bytes, as many as asked for as long as there are some.\<close>

lemma tree_stream_read_ok:
  assumes "ts_inv (t, w)"
  obtains tw' where "tree_stream_read bf hc store store junk (t, w) sz =
      Some (if ts_rest (t, w) = [] \<and> 0 < sz then CHOP_STREAM_END else CHOP_OK, take sz (ts_rest (t, w)), tw')"
    "ts_inv tw'" "ts_rest tw' = drop sz (ts_rest (t, w))"
proof (cases "ts_path t = []")
  case False
  with assms have "read_ok lg i junk sz (tl (rev (ts_path t))) [last (ts_path t)] w (ts_rest (t, w))"
    by (auto simp: ts_inv_def ts_rest_def intro!: read_again)
  from tree_stream_read_result [OF this] False that show thesis
    by (auto simp: tree_stream_read_def chop_decoded_block_tree_read_def)
next
  case True
  with assms obtain k h where k: "fetchable lg i w" "ts_current_offset t = 0" "rtree lg (Suc k) h data"
    "ts_index t \<in> {h, canon h}"
    by (auto simp: ts_inv_def)
  from fetch_key_block [OF k(1,3,4), of None "chop_decoded_block_new junk"] obtain c w' where c:
    "chop_decoded_block_fetch bf store (ts_index t) None (chop_decoded_block_new junk) w = Some ((CHOP_OK, c), w')"
    "fetchable lg i w'" "rkids lg k c data" "\<not> dk_has_parent c" by auto
  have "read_ok lg i junk sz [] [c] w' (ts_rest (t, w))"
    using read_first [OF c(2), of k "[c]" data] c(3,4) tree_of_nonempty [OF k(3)] k(2)
    by (simp add: ts_rest_def)
  from tree_stream_read_result [OF this] True c(1) that show thesis
    by (auto simp: tree_stream_read_def chop_decoded_block_tree_read_def)
qed

end

sublocale tree_reading \<subseteq> strm: byte_stream "tree_stream_read bf hc store store junk" ts_inv ts_rest
proof (unfold_locales, goal_cases)
  case (1 s n)
  obtain t w where s: "s = (t, w)" by (cases s)
  from tree_stream_read_ok [OF 1(1) [unfolded s], of n] obtain tw' where
    "tree_stream_read bf hc store store junk (t, w) n =
      Some (if ts_rest (t, w) = [] \<and> 0 < n then CHOP_STREAM_END else CHOP_OK, take n (ts_rest (t, w)), tw')"
    "ts_inv tw'" "ts_rest tw' = drop n (ts_rest (t, w))" .
  with 1(2) s show ?case by (auto simp: chop_stream_read_def)
qed

end
