(* ===== verification/Chop_Hash.thy ===== *)
theory Chop_Hash
  imports Chop_Base32 Chop_Block_Indexers
begin

text \<open>
  Hash methods (\<^verbatim>\<open>src/src/hash.c\<close>), and the block indexer that names a block by its hash
  (\<^verbatim>\<open>src/src/block-indexer-hash.c\<close>): its handles with their text and binary forms, indexing,
  fetching with the integrity checks, and the proof that it meets the contract of
  \<open>block_indexing\<close>.  The digest function of libgcrypt is a parameter.
\<close>

section \<open>Hash methods\<close>

datatype chop_hash_method =
    CHOP_HASH_NONE | CHOP_HASH_SHA1 | CHOP_HASH_RMD160 | CHOP_HASH_MD5 | CHOP_HASH_MD4
  | CHOP_HASH_MD2 | CHOP_HASH_TIGER | CHOP_HASH_HAVAL | CHOP_HASH_SHA256 | CHOP_HASH_SHA384
  | CHOP_HASH_SHA512

text \<open>The table \<^verbatim>\<open>hash_methods\<close>, in the order of the enumeration.\<close>

definition hash_methods :: "(chop_hash_method \<times> string \<times> nat) list" where
  "hash_methods =
    [(CHOP_HASH_NONE, ''NONE'', 0), (CHOP_HASH_SHA1, ''SHA1'', 20), (CHOP_HASH_RMD160, ''RMD160'', 20),
     (CHOP_HASH_MD5, ''MD5'', 16), (CHOP_HASH_MD4, ''MD4'', 16), (CHOP_HASH_MD2, ''MD2'', 0),
     (CHOP_HASH_TIGER, ''TIGER'', 24), (CHOP_HASH_HAVAL, ''HAVAL'', 20),
     (CHOP_HASH_SHA256, ''SHA256'', 32), (CHOP_HASH_SHA384, ''SHA384'', 48),
     (CHOP_HASH_SHA512, ''SHA512'', 64)]"

primrec hash_method_index :: "chop_hash_method \<Rightarrow> nat" where
  "hash_method_index CHOP_HASH_NONE = 0"
| "hash_method_index CHOP_HASH_SHA1 = 1"
| "hash_method_index CHOP_HASH_RMD160 = 2"
| "hash_method_index CHOP_HASH_MD5 = 3"
| "hash_method_index CHOP_HASH_MD4 = 4"
| "hash_method_index CHOP_HASH_MD2 = 5"
| "hash_method_index CHOP_HASH_TIGER = 6"
| "hash_method_index CHOP_HASH_HAVAL = 7"
| "hash_method_index CHOP_HASH_SHA256 = 8"
| "hash_method_index CHOP_HASH_SHA384 = 9"
| "hash_method_index CHOP_HASH_SHA512 = 10"

definition chop_hash_size :: "chop_hash_method \<Rightarrow> nat" where
  "chop_hash_size m = snd (snd (hash_methods ! hash_method_index m))"

definition chop_hash_method_name :: "chop_hash_method \<Rightarrow> bytes" where
  "chop_hash_method_name m = ascii (fst (snd (hash_methods ! hash_method_index m)))"

definition strcasecmp_eq :: "bytes \<Rightarrow> bytes \<Rightarrow> bool" where
  "strcasecmp_eq s t = (map toupper s = map toupper t)"

definition chop_hash_method_lookup :: "bytes \<Rightarrow> chop_hash_method result" where
  "chop_hash_method_lookup name =
    (case find (\<lambda>p. strcasecmp_eq (ascii (fst (snd p))) name) hash_methods of
       Some p \<Rightarrow> Inr (fst p)
     | None \<Rightarrow> Inl CHOP_ERR_NOT_FOUND)"

text \<open>\<^verbatim>\<open>gcry_md_hash_buffer\<close>: a function of the method and the buffer.\<close>

type_synonym gcry_md = "chop_hash_method \<Rightarrow> bytes \<Rightarrow> bytes"

text \<open>What libgcrypt documents: a digest has the size of its algorithm.\<close>

definition md_laws :: "gcry_md \<Rightarrow> bool" where
  "md_laws G \<longleftrightarrow> (\<forall>m b. chop_hash_size m \<noteq> 0 \<longrightarrow> length (G m b) = chop_hash_size m)"

lemma tolower_name_lookup:
  "chop_hash_method_lookup (chop_hash_method_name m) = Inr m"
  by (cases m) (simp_all add: chop_hash_method_lookup_def chop_hash_method_name_def hash_methods_def
      strcasecmp_eq_def ascii_def toupper_def)

lemma hash_size_bound: "chop_hash_size m \<le> 64"
  by (cases m) (simp_all add: chop_hash_size_def hash_methods_def)

section \<open>Index handles\<close>

text \<open>\<open>hih_content\<close> holds the \<^verbatim>\<open>key_size\<close> valid bytes of the 1024-byte array;
  \<open>hih_size\<close> is the \<^verbatim>\<open>size\<close> field of the parent class.\<close>

record hash_index_handle =
  hih_block_size :: nat
  hih_key_size :: nat
  hih_content :: bytes
  hih_size :: nat

definition hih_equalp :: "hash_index_handle \<Rightarrow> hash_index_handle \<Rightarrow> bool" where
  "hih_equalp h1 h2 =
    (hih_block_size h1 = hih_block_size h2 \<and> hih_key_size h1 = hih_key_size h2
     \<and> take (hih_key_size h1) (hih_content h1) = take (hih_key_size h1) (hih_content h2))"

text \<open>\<^verbatim>\<open>sprintf ("%zx")\<close> and \<^verbatim>\<open>strtoul (.., 16)\<close> of the C library.\<close>

fun sprintf_zx :: "nat \<Rightarrow> bytes" where
  "sprintf_zx n =
    (if n < 16 then [hex_tochar (of_nat n)]
     else sprintf_zx (n div 16) @ [hex_tochar (of_nat (n mod 16))])"

declare sprintf_zx.simps [simp del]

definition isspace :: "byte \<Rightarrow> bool" where
  "isspace c = (c = 32 \<or> (9 \<le> c \<and> c \<le> 13))"

definition xdigit_value :: "byte \<Rightarrow> nat" where
  "xdigit_value c =
    (if of_char CHR ''a'' \<le> c then unat c - 87
     else if of_char CHR ''A'' \<le> c then unat c - 55 else unat c - 48)"

definition strtoul16 :: "bytes \<Rightarrow> nat \<times> nat" where
  "strtoul16 s =
    (let ws = length (takeWhile isspace s);
         s1 = drop ws s;
         sign = (s1 \<noteq> [] \<and> (hd s1 = of_char CHR ''-'' \<or> hd s1 = of_char CHR ''+''));
         neg = (s1 \<noteq> [] \<and> hd s1 = of_char CHR ''-'');
         s2 = (if sign then tl s1 else s1);
         prefix = (2 < length s2 \<and> s2 ! 0 = of_char CHR ''0''
                   \<and> (s2 ! 1 = of_char CHR ''x'' \<or> s2 ! 1 = of_char CHR ''X'') \<and> isxdigit (s2 ! 2));
         s3 = (if prefix then drop 2 s2 else s2);
         digits = takeWhile isxdigit s3;
         v = foldl (\<lambda>acc c. 16 * acc + xdigit_value c) 0 digits
     in if digits = [] then (0, 0)
        else (if 2 ^ 64 \<le> v then 2 ^ 64 - 1 else if neg then (2 ^ 64 - v) mod 2 ^ 64 else v,
              ws + (if sign then 1 else 0) + (if prefix then 2 else 0) + length digits))"

text \<open>An assertion that fails is None.  The trailing NUL is part of the text form.\<close>

definition hih_serialize :: "chop_serial_method \<Rightarrow> hash_index_handle \<Rightarrow> bytes result option" where
  "hih_serialize meth handle =
    (case meth of
       CHOP_SERIAL_ASCII \<Rightarrow>
         Some (Inr (chop_buffer_to_base32_string (take (hih_key_size handle) (hih_content handle))
                    @ [of_char CHR ''/''] @ sprintf_zx (hih_block_size handle) @ [0]))
     | CHOP_SERIAL_BINARY \<Rightarrow>
         (if 2 ^ 32 \<le> hih_block_size handle \<or> 2 ^ 32 \<le> hih_key_size handle then None
          else Some (Inr (le32 (hih_block_size handle) @ le32 (hih_key_size handle)
                          @ take (hih_key_size handle) (hih_content handle)))))"

text \<open>A binary form that claims a key of more than 1024 bytes is copied all the same, past the
  end of the array: \<open>hih_content\<close> is then longer than the array.\<close>

definition hih_deserialize ::
  "chop_serial_method \<Rightarrow> bytes \<Rightarrow> (hash_index_handle \<times> nat) result option" where
  "hih_deserialize meth buffer =
    (case meth of
       CHOP_SERIAL_ASCII \<Rightarrow>
         (let input = take 1023 buffer @ [0];
              slash = length (takeWhile (\<lambda>c. c \<noteq> of_char CHR ''/'' \<and> c \<noteq> 0) input)
          in if input ! slash \<noteq> of_char CHR ''/'' then Some (Inl CHOP_DESERIAL_CORRUPT_INPUT)
             else (case chop_base32_string_to_buffer input slash of (content, end) \<Rightarrow>
               if end \<noteq> slash then Some (Inl CHOP_DESERIAL_CORRUPT_INPUT)
               else (case strtoul16 (drop (end + 1) input) of (block_size, used) \<Rightarrow>
                 if used = 0 then Some (Inl CHOP_DESERIAL_CORRUPT_INPUT)
                 else Some (Inr (\<lparr>hih_block_size = block_size, hih_key_size = length content,
                                  hih_content = content, hih_size = length content + 8\<rparr>,
                                 end + 1 + used)))))
     | CHOP_SERIAL_BINARY \<Rightarrow>
         (if length buffer < 8 then Some (Inl CHOP_DESERIAL_CORRUPT_INPUT)
          else let block_size = le32_value (take 4 buffer);
                   index_size = le32_value (take 4 (drop 4 buffer))
               in if length buffer - 8 < index_size then Some (Inl CHOP_DESERIAL_TOO_SHORT)
                  else Some (Inr (\<lparr>hih_block_size = block_size, hih_key_size = index_size,
                                   hih_content = take index_size (drop 8 buffer),
                                   hih_size = index_size + 8\<rparr>, index_size + 8))))"

definition hash_index_handle_class :: "hash_index_handle handle_class" where
  "hash_index_handle_class =
    \<lparr>hc_serialize = hih_serialize, hc_deserialize = hih_deserialize,
     chop_index_handle_binary_size = hih_size\<rparr>"

section \<open>The fetcher\<close>

record hash_block_fetcher =
  hbf_hash_method :: chop_hash_method

definition tolower :: "byte \<Rightarrow> byte" where
  "tolower c = (if of_char CHR ''A'' \<le> c \<and> c \<le> of_char CHR ''Z'' then c + 32 else c)"

definition isalnum :: "byte \<Rightarrow> bool" where
  "isalnum c =
    ((of_char CHR ''0'' \<le> c \<and> c \<le> of_char CHR ''9'') \<or> (of_char CHR ''a'' \<le> c \<and> c \<le> of_char CHR ''z'')
     \<or> (of_char CHR ''A'' \<le> c \<and> c \<le> of_char CHR ''Z''))"

definition ispunct :: "byte \<Rightarrow> bool" where
  "ispunct c = (33 \<le> c \<and> c \<le> 126 \<and> \<not> isalnum c)"

text \<open>Serialization takes the old contents of the buffer and gives the new contents.\<close>

definition hbf_serialize ::
  "chop_serial_method \<Rightarrow> hash_block_fetcher \<Rightarrow> bytes \<Rightarrow> chop_error \<times> bytes" where
  "hbf_serialize meth fetcher buffer =
    (case meth of
       CHOP_SERIAL_ASCII \<Rightarrow>
         if hbf_hash_method fetcher \<noteq> CHOP_HASH_NONE
         then (CHOP_OK, map tolower (chop_hash_method_name (hbf_hash_method fetcher)) @ [0])
         else (CHOP_OK, buffer)
     | CHOP_SERIAL_BINARY \<Rightarrow> (CHOP_ERR_NOT_IMPL, buffer))"

definition hbf_deserialize ::
  "chop_serial_method \<Rightarrow> bytes \<Rightarrow> (hash_block_fetcher \<times> nat) result" where
  "hbf_deserialize meth buffer =
    (case meth of
       CHOP_SERIAL_ASCII \<Rightarrow>
         (let name = takeWhile (\<lambda>c. c \<noteq> 0 \<and> \<not> ispunct c \<and> \<not> isspace c) buffer
          in if name \<noteq> []
             then (case chop_hash_method_lookup name of
                     Inl err \<Rightarrow> Inl CHOP_DESERIAL_CORRUPT_INPUT
                   | Inr m \<Rightarrow> Inr (\<lparr>hbf_hash_method = m\<rparr>, length name))
             else Inr (\<lparr>hbf_hash_method = CHOP_HASH_NONE\<rparr>, 0))
     | CHOP_SERIAL_BINARY \<Rightarrow> Inl CHOP_ERR_NOT_IMPL)"

definition hih_key :: "hash_index_handle \<Rightarrow> block_key" where
  "hih_key handle = take (hih_key_size handle) (hih_content handle)"

definition hash_blocks_exist ::
  "'w block_store \<Rightarrow> hash_index_handle list \<Rightarrow> bool list \<Rightarrow> 'w \<Rightarrow> (chop_error \<times> bool list) \<times> 'w" where
  "hash_blocks_exist store indices exists w =
    chop_store_blocks_exist store w (map hih_key indices) exists"

definition hash_block_fetch ::
  "gcry_md \<Rightarrow> 'w block_store \<Rightarrow> hash_index_handle \<Rightarrow> bytes \<Rightarrow> hash_block_fetcher \<times> 'w
     \<Rightarrow> ((chop_error \<times> bytes \<times> nat) \<times> hash_block_fetcher \<times> 'w) option" where
  "hash_block_fetch G store handle buffer0 fw =
    (case fw of (fetcher, w0) \<Rightarrow>
      (case chop_store_read_block store w0 (hih_key handle) buffer0 of
         ((err, buffer, sz), w) \<Rightarrow>
           Some (if err \<noteq> CHOP_OK then (err, buffer, sz)
             else if sz \<noteq> hih_block_size handle then (CHOP_BLOCK_INDEXER_ERROR, buffer, 0)
             else if hbf_hash_method fetcher \<noteq> CHOP_HASH_NONE then
               if hih_key_size handle = chop_hash_size (hbf_hash_method fetcher) then
                 if take (chop_hash_size (hbf_hash_method fetcher)) (G (hbf_hash_method fetcher) buffer)
                    \<noteq> take (chop_hash_size (hbf_hash_method fetcher)) (hih_content handle)
                 then (CHOP_BLOCK_INDEXER_ERROR, buffer, 0)
                 else (CHOP_OK, buffer, sz)
               else (CHOP_BLOCK_INDEXER_ERROR, buffer, sz)
             else (CHOP_OK, buffer, sz), fetcher, w)))"

definition hash_fetcher :: "gcry_md \<Rightarrow> (hash_block_fetcher, 'w, hash_index_handle) block_fetcher" where
  "hash_fetcher G =
    \<lparr>fetch_block = hash_block_fetch G, fetcher_blocks_exist = Some hash_blocks_exist\<rparr>"

section \<open>The indexer\<close>

record hash_block_indexer =
  hbi_hash_method :: chop_hash_method

definition hash_indexer_init_fetcher :: "hash_block_indexer \<Rightarrow> hash_block_fetcher" where
  "hash_indexer_init_fetcher indexer = \<lparr>hbf_hash_method = hbi_hash_method indexer\<rparr>"

definition hbi_serialize :: "chop_serial_method \<Rightarrow> hash_block_indexer \<Rightarrow> bytes result" where
  "hbi_serialize meth indexer =
    (case meth of
       CHOP_SERIAL_ASCII \<Rightarrow> Inr (chop_hash_method_name (hbi_hash_method indexer) @ [0])
     | CHOP_SERIAL_BINARY \<Rightarrow> Inl CHOP_ERR_NOT_IMPL)"

text \<open>A name of exactly 512 characters passes the test and its NUL is written one past the
  end of \<^verbatim>\<open>name\<close>; the lookup then fails.\<close>

definition hbi_deserialize ::
  "chop_serial_method \<Rightarrow> bytes \<Rightarrow> nat \<Rightarrow> (hash_block_indexer \<times> nat) result" where
  "hbi_deserialize meth buffer sz =
    (case meth of
       CHOP_SERIAL_ASCII \<Rightarrow>
         (let name = takeWhile isalnum (take sz buffer)
          in if 512 < length name then Inl CHOP_DESERIAL_CORRUPT_INPUT
             else (case chop_hash_method_lookup name of
                     Inl err \<Rightarrow> Inl CHOP_INVALID_ARG
                   | Inr m \<Rightarrow> Inr (\<lparr>hbi_hash_method = m\<rparr>, length name)))
     | CHOP_SERIAL_BINARY \<Rightarrow> Inl CHOP_ERR_NOT_IMPL)"

definition hash_block_index ::
  "gcry_md \<Rightarrow> 'w block_store \<Rightarrow> bytes \<Rightarrow> hash_block_indexer \<times> 'w
     \<Rightarrow> (hash_index_handle result \<times> hash_block_indexer \<times> 'w) option" where
  "hash_block_index G store buffer iw =
    (case iw of (indexer, w) \<Rightarrow>
      let hash_size = chop_hash_size (hbi_hash_method indexer)
      in if hash_size = 0 \<or> 1024 < hash_size then Some (Inl CHOP_INVALID_ARG, indexer, w)
         else let content = G (hbi_hash_method indexer) buffer in
           (case chop_store_write_block store w (take hash_size content) buffer of
              (err, w') \<Rightarrow>
                if err \<noteq> CHOP_OK then Some (Inl err, indexer, w')
                else Some (Inr \<lparr>hih_block_size = length buffer, hih_key_size = hash_size,
                                hih_content = content, hih_size = hash_size + 8\<rparr>, indexer, w')))"

definition hash_indexer :: "gcry_md \<Rightarrow> (hash_block_indexer, 'w, hash_index_handle) block_indexer" where
  "hash_indexer G = \<lparr>index_block = hash_block_index G\<rparr>"

definition chop_hash_block_indexer_open :: "chop_hash_method \<Rightarrow> hash_block_indexer" where
  "chop_hash_block_indexer_open m = \<lparr>hbi_hash_method = m\<rparr>"

section \<open>Binary handles\<close>

definition wf_hih :: "hash_index_handle \<Rightarrow> bool" where
  "wf_hih h \<longleftrightarrow> length (hih_content h) = hih_key_size h \<and> hih_key_size h \<le> 1024
     \<and> hih_block_size h < 2 ^ 32 \<and> hih_size h = hih_key_size h + 8"

definition hih_encode :: "hash_index_handle \<Rightarrow> bytes" where
  "hih_encode h = le32 (hih_block_size h) @ le32 (hih_key_size h) @ hih_content h"

interpretation hih_codec: handle_codec hash_index_handle_class wf_hih hih_encode "\<lambda>h. h"
proof (unfold_locales, goal_cases)
  case (1 h)
  then show ?case by (simp add: hash_index_handle_class_def hih_serialize_def hih_encode_def wf_hih_def)
next
  case (2 h rest)
  have "le32_value (take 4 (hih_encode h @ rest)) = hih_block_size h"
    and "le32_value (take 4 (drop 4 (hih_encode h @ rest))) = hih_key_size h"
    using 2 le32_value_le32 [of _ "[]"] by (simp_all add: hih_encode_def wf_hih_def)
  then show ?case
    using 2 by (simp add: hash_index_handle_class_def hih_deserialize_def wf_hih_def hih_encode_def Let_def)
next
  case (3 h)
  then show ?case by (simp add: hash_index_handle_class_def wf_hih_def hih_encode_def)
next
  case (4 h)
  then show ?case by (simp add: hih_encode_def le32_def)
qed

section \<open>The hash indexer meets the contract\<close>

definition hash_handle :: "gcry_md \<Rightarrow> chop_hash_method \<Rightarrow> bytes \<Rightarrow> hash_index_handle" where
  "hash_handle G m b =
    \<lparr>hih_block_size = length b, hih_key_size = chop_hash_size m, hih_content = G m b,
     hih_size = chop_hash_size m + 8\<rparr>"

text \<open>No two logged blocks collide, and sizes fit the four bytes of a binary handle.\<close>

definition hash_compat :: "hash_index_handle block_log \<Rightarrow> bool" where
  "hash_compat lg \<longleftrightarrow> (\<forall>(h, b) \<in> set lg. length b < 2 ^ 32) \<and> key_compat hih_key (\<lambda>h b. b) lg"

definition hash_ok ::
  "('w \<Rightarrow> bool) \<Rightarrow> gcry_md \<Rightarrow> chop_hash_method \<Rightarrow> hash_block_indexer \<times> 'w \<Rightarrow> bool" where
  "hash_ok ok G m iw \<longleftrightarrow>
     md_laws G \<and> chop_hash_size m \<noteq> 0 \<and> hbi_hash_method (fst iw) = m \<and> ok (snd iw)"

text \<open>What the state owes to a log: every logged block is in the store under its hash, and the store
  holds nothing else.\<close>

definition hash_inv ::
  "('w \<Rightarrow> bool) \<Rightarrow> ('w \<Rightarrow> block_key \<rightharpoonup> bytes) \<Rightarrow> gcry_md \<Rightarrow> chop_hash_method
     \<Rightarrow> hash_index_handle block_log \<Rightarrow> hash_block_indexer \<times> 'w \<Rightarrow> bool" where
  "hash_inv ok contents G m lg iw \<longleftrightarrow>
     hash_ok ok G m iw \<and> (\<forall>(h, b) \<in> set lg. h = hash_handle G m b)
     \<and> key_inv hih_key (\<lambda>h b. b) lg (contents (snd iw))"

locale hash_indexing = map_store store inv contents
  for store :: "'w block_store" and inv and contents +
  fixes G :: gcry_md and m :: chop_hash_method
begin

lemma key_of_handle:
  "md_laws G \<Longrightarrow> chop_hash_size m \<noteq> 0 \<Longrightarrow> hih_key (hash_handle G m b) = G m b"
  by (simp add: hih_key_def hash_handle_def md_laws_def)

lemma hash_index_cases:
  assumes J: "hash_ok inv G m iw"
    and ix: "chop_block_indexer_index (hash_indexer G) store block iw = Some (r, iw')"
  obtains e w' where "chop_store_write_block store (snd iw) (G m block) block = (e, w')"
    "iw' = (fst iw, w')" "hash_ok inv G m iw'" "length (G m block) = chop_hash_size m"
    "r = (if e = CHOP_OK then Inr (hash_handle G m block) else Inl e)"
proof -
  obtain i w where iw: "iw = (i, w)" by (cases iw)
  have G: "md_laws G" "chop_hash_size m \<noteq> 0" "hbi_hash_method i = m" "inv w"
    using J by (auto simp: hash_ok_def iw)
  have len: "length (G m block) = chop_hash_size m" using G by (simp add: md_laws_def)
  obtain e w' where wr: "chop_store_write_block store w (G m block) block = (e, w')"
    by (metis prod.exhaust)
  have "r = (if e = CHOP_OK then Inr (hash_handle G m block) else Inl e)" "iw' = (i, w')"
    using ix G len wr hash_size_bound [of m]
    by (auto simp: chop_block_indexer_index_def hash_indexer_def hash_block_index_def iw hash_handle_def
        Let_def split: if_splits)
  moreover have "inv w'" using write_block_law [OF G(4) wr] by simp
  ultimately show thesis using that [of e w'] wr len G by (simp add: iw hash_ok_def)
qed

lemma hash_index_returns:
  obtains r iw' where "chop_block_indexer_index (hash_indexer G) store block iw = Some (r, iw')"
proof -
  have "\<exists>x. chop_block_indexer_index (hash_indexer G) store block iw = Some x"
    by (cases iw) (auto simp: chop_block_indexer_index_def hash_indexer_def hash_block_index_def Let_def
      split: prod.splits)
  with that show thesis by auto
qed

lemma hash_log_law:
  assumes I: "hash_inv inv contents G m lg iw"
    and ix: "chop_block_indexer_index (hash_indexer G) store block iw = Some (Inr h, iw')"
    and comp: "hash_compat ((h, block) # lg)"
  shows "hash_inv inv contents G m ((h, block) # lg) iw'"
proof -
  have J: "hash_ok inv G m iw" using I by (simp add: hash_inv_def)
  from J ix obtain e w' where w': "chop_store_write_block store (snd iw) (G m block) block = (e, w')"
    "iw' = (fst iw, w')" "hash_ok inv G m iw'"
    "Inr h = (if e = CHOP_OK then Inr (hash_handle G m block) else Inl e)"
    by (rule hash_index_cases)
  then have h: "e = CHOP_OK" "h = hash_handle G m block" by (auto split: if_splits)
  have key: "hih_key h = G m block" using J h by (simp add: key_of_handle hash_ok_def)
  have "key_inv hih_key (\<lambda>h b. b) ((h, block) # lg) (contents w')"
    using keyed_write(2) [of "snd iw" hih_key "\<lambda>h b. b" lg h block w'] I comp w'(1) h(1) key
    by (simp add: hash_inv_def hash_ok_def hash_compat_def)
  with I w'(2,3) h(2) show ?thesis by (simp add: hash_inv_def)
qed

lemma hash_fetch_ok:
  assumes I: "hash_inv inv contents G m lg (i, w)" and b: "(h, block) \<in> set lg" and f: "hbf_hash_method f = m"
  shows "\<exists>w'. chop_block_fetcher_fetch (hash_fetcher G) h store buffer (f, w)
      = Some ((CHOP_OK, block, length block), f, w') \<and> hash_inv inv contents G m lg (i, w')"
proof -
  obtain r1 w1 where rd: "chop_store_read_block store w (hih_key h) buffer = (r1, w1)"
    by (metis prod.exhaust)
  have h: "h = hash_handle G m block" "inv w" "key_inv hih_key (\<lambda>h b. b) lg (contents w)"
    using I b by (auto simp: hash_inv_def hash_ok_def)
  note r1 = keyed_read [OF h(2,3) b rd]
  have "chop_block_fetcher_fetch (hash_fetcher G) h store buffer (f, w)
      = Some ((CHOP_OK, block, length block), f, w1)"
    using rd r1(1) h(1) f
    by (simp add: chop_block_fetcher_fetch_def hash_fetcher_def hash_block_fetch_def hash_handle_def)
  with r1 I show ?thesis by (auto simp: hash_inv_def hash_ok_def)
qed

end

sublocale hash_indexing \<subseteq> idx: block_indexing hash_index_handle_class wf_hih hih_encode "\<lambda>h. h"
  "hash_indexer G" "hash_fetcher G" store "hash_ok inv G m"
  "hash_inv inv contents G m" "\<lambda>f. hbf_hash_method f = m" hash_compat "2 ^ 32 - 1" 72
proof (unfold_locales, goal_cases)
  case (1 x lg)
  then show ?case by (auto simp: hash_compat_def dest: key_compat_tail)
next
  case (2 iw block h iw')
  from 2(1,2) obtain e where "hash_ok inv G m iw'" "length (G m block) = chop_hash_size m"
    "Inr h = (if e = CHOP_OK then Inr (hash_handle G m block) else Inl e)"
    by (rule hash_index_cases)
  with hash_size_bound [of m] 2(3) show ?case
    by (auto simp: wf_hih_def hih_encode_def hash_handle_def split: if_splits)
next
  case (3 iw block err iw')
  from 3(1,2) show ?case by (rule hash_index_cases) (auto split: if_splits)
next
  case (4 lg iw block h iw')
  then show ?case by (rule hash_log_law)
next
  case (5 lg iw block err iw')
  then have J: "hash_ok inv G m iw" by (simp add: hash_inv_def)
  from J 5(2) obtain e w' where w': "chop_store_write_block store (snd iw) (G m block) block = (e, w')"
    "iw' = (fst iw, w')" "hash_ok inv G m iw'"
    "Inl err = (if e = CHOP_OK then Inr (hash_handle G m block) else Inl e)"
    by (rule hash_index_cases)
  have "contents w' = contents (snd iw)"
    using write_block_law [OF _ w'(1)] J w'(4) by (auto simp: hash_ok_def split: if_splits)
  with 5(1) w'(2,3) show ?case by (simp add: hash_inv_def)
next
  case (6 lg i w f h block h' buffer)
  then show ?case using hash_fetch_ok by blast
qed

locale reliable_hash = hash_indexing + reliable_store

sublocale reliable_hash \<subseteq> ridx: reliable_indexing hash_index_handle_class wf_hih hih_encode "\<lambda>h. h"
  "hash_indexer G" "hash_fetcher G" store "hash_ok inv G m"
  "hash_inv inv contents G m" "\<lambda>f. hbf_hash_method f = m" hash_compat "2 ^ 32 - 1" 72
proof (unfold_locales, goal_cases)
  case (1 iw block)
  obtain r iw' where ix: "chop_block_indexer_index (hash_indexer G) store block iw = Some (r, iw')"
    by (rule hash_index_returns)
  from 1 ix obtain e w' where "chop_store_write_block store (snd iw) (G m block) block = (e, w')"
    "r = (if e = CHOP_OK then Inr (hash_handle G m block) else Inl e)"
    by (rule hash_index_cases)
  with 1 ix write_succeeds [of "snd iw" "G m block" block] show ?case by (auto simp: hash_ok_def)
qed

interpretation db_hash: hash_indexing "generic_db_store ops"
  "\<lambda>s. db_laws ops mp \<and> db_open s" "\<lambda>s. mp (db s)" G m
  for ops :: "'d db_ops" and mp and G and m
  by unfold_locales

interpretation reliable_db_hash: reliable_hash "generic_db_store ops"
  "\<lambda>s. (db_laws ops mp \<and> db_writable ops) \<and> db_open s" "\<lambda>s. mp (db s)" G m
  for ops :: "'d db_ops" and mp and G and m
  by unfold_locales

interpretation smart_hash: hash_indexing "smart_block_store ps (generic_db_store ops)"
  "\<lambda>s. db_laws ops mp \<and> db_open s" "\<lambda>s. mp (db s)" G m
  for ps and ops :: "'d db_ops" and mp and G and m
  by unfold_locales

section \<open>Text handles\<close>

lemma hex_tochar_xdigit:
  "\<forall>v \<in> set [0..<16]. isxdigit (hex_tochar (of_nat v)) \<and> xdigit_value (hex_tochar (of_nat v)) = v
     \<and> \<not> isspace (hex_tochar (of_nat v)) \<and> hex_tochar (of_nat v) \<notin> {0x2b, 0x2d, 0x78, 0x58}"
  by (simp add: upt_rec isxdigit_def xdigit_value_def hex_tochar_def isspace_def)

lemma hex_tochar_less_16:
  assumes "v < 16"
  shows "isxdigit (hex_tochar (of_nat v))" "xdigit_value (hex_tochar (of_nat v)) = v"
    "\<not> isspace (hex_tochar (of_nat v))" "hex_tochar (of_nat v) \<notin> {0x2b, 0x2d, 0x78, 0x58}"
  using bspec [OF hex_tochar_xdigit, of v] assms by simp_all

lemma sprintf_zx_chars:
  "c \<in> set (sprintf_zx n) \<Longrightarrow> isxdigit c \<and> \<not> isspace c \<and> c \<notin> {0x2b, 0x2d, 0x78, 0x58}"
proof (induction n rule: sprintf_zx.induct)
  case (1 n)
  show ?case
  proof (cases "n < 16")
    case True
    then show ?thesis using 1(2) hex_tochar_less_16 [of n] by (subst (asm) sprintf_zx.simps) auto
  next
    case False
    have "n mod 16 < 16" by simp
    with False 1 hex_tochar_less_16 [of "n mod 16"] show ?thesis
      by (subst (asm) (2) sprintf_zx.simps) auto
  qed
qed

lemma sprintf_zx_value: "foldl (\<lambda>acc c. 16 * acc + xdigit_value c) 0 (sprintf_zx n) = n"
proof (induction n rule: sprintf_zx.induct)
  case (1 n)
  then show ?case
    by (subst sprintf_zx.simps) (auto simp: hex_tochar_less_16)
qed

lemma sprintf_zx_not_Nil [simp]: "sprintf_zx n \<noteq> []"
  by (subst sprintf_zx.simps) simp

lemma strtoul16_sprintf_zx_before:
  assumes "n < 2 ^ 64" "\<not> isxdigit d" "d \<notin> {0x78, 0x58}"
  shows "strtoul16 (sprintf_zx n @ d # rest) = (n, length (sprintf_zx n))"
proof -
  obtain c cs where z: "sprintf_zx n = c # cs" by (cases "sprintf_zx n") auto
  have c: "isxdigit c" "\<not> isspace c" "c \<notin> {0x2b, 0x2d}"
    using sprintf_zx_chars [of c n] by (auto simp: z)
  have "takeWhile isxdigit (sprintf_zx n @ d # rest) = sprintf_zx n"
    using sprintf_zx_chars assms(2) by (subst takeWhile_append2) auto
  moreover have "(cs @ d # rest) ! 0 \<notin> {0x78, 0x58}"
    using sprintf_zx_chars [of _ n] assms(3) by (cases cs) (auto simp: z)
  ultimately show ?thesis
    using c assms(1) sprintf_zx_value [of n] by (simp add: strtoul16_def Let_def z)
qed

lemma strtoul16_sprintf_zx:
  assumes "n < 2 ^ 64"
  shows "strtoul16 (sprintf_zx n @ [0, 0]) = (n, length (sprintf_zx n))"
  using assms by (intro strtoul16_sprintf_zx_before) (simp_all add: isxdigit_def)

lemma base32_chars_no_slash:
  "set base32_chars \<subseteq> - {0, of_char CHR ''/'', of_char CHR '',''}"
  by (auto simp: base32_chars_eval)

lemma base32_string_no_slash:
  assumes "c \<in> set (chop_buffer_to_base32_string xs)"
  shows "c \<noteq> 0" "c \<noteq> of_char CHR ''/''" "c \<noteq> of_char CHR '',''"
proof -
  have "base32_chars ! unat (quintet bs) \<in> set base32_chars" for bs
    using quintet_less [of bs] by (intro nth_mem) (simp add: base32_chars_eval)
  moreover have "set (rfc4648_quintets bs) \<subseteq> range quintet" for bs
    by (induction bs rule: rfc4648_quintets.induct) (subst rfc4648_quintets.simps, auto)
  ultimately have "set (rfc4648_chars xs) \<subseteq> set base32_chars"
    by (auto simp: rfc4648_chars_def)
  then have "c \<in> set base32_chars \<or> c = of_char CHR ''=''"
    using assms by (auto simp: base32_encode_spec rfc4648_base32_def Let_def)
  with base32_chars_no_slash show "c \<noteq> 0" "c \<noteq> of_char CHR ''/''" "c \<noteq> of_char CHR '',''" by auto
qed

lemma hih_text_back:
  assumes "wf_hih h" "hih_serialize CHOP_SERIAL_ASCII h = Some (Inr str)" "length str \<le> 1023"
  shows "hih_deserialize CHOP_SERIAL_ASCII str = Some (Inr (h, length str - 1))"
proof -
  let ?b = "chop_buffer_to_base32_string (hih_content h)" and ?z = "sprintf_zx (hih_block_size h)"
  let ?input = "?b @ of_char CHR ''/'' # ?z @ [0, 0]"
  have txt_eq: "str = ?b @ of_char CHR ''/'' # ?z @ [0]"
    using assms(1,2) by (simp add: hih_serialize_def wf_hih_def)
  have input: "take 1023 str @ [0] = ?input" using assms(3) txt_eq by simp
  have slash: "takeWhile (\<lambda>c. c \<noteq> of_char CHR ''/'' \<and> c \<noteq> 0) ?input = ?b"
    using base32_string_no_slash by (subst takeWhile_append2) auto
  have "strtoul16 (?z @ [0, 0]) = (hih_block_size h, length ?z)"
    using assms(1) by (intro strtoul16_sprintf_zx) (simp add: wf_hih_def)
  with base32_round_trip [of "hih_content h" "of_char CHR ''/'' # ?z @ [0, 0]"] assms(1)
  show ?thesis
    unfolding hih_deserialize_def Let_def chop_serial_method.case input slash
    by (simp add: txt_eq wf_hih_def)
qed

text \<open>The text form of a handle, its key in base32, a slash and the size of its block in
  hexadecimal, is read back as the same handle, when it fits the 1023 characters the
  reader looks at.\<close>

theorem hih_ascii_round_trip:
  assumes "wf_hih h" "hih_serialize CHOP_SERIAL_ASCII h = Some (Inr str)" "length str \<le> 1023"
  shows "hih_deserialize CHOP_SERIAL_ASCII str = Some (Inr (h, length str - 1))"
  using assms by (rule hih_text_back)

theorem hih_ascii_round_trip_witness:
  "\<exists>str. hih_serialize CHOP_SERIAL_ASCII
      \<lparr>hih_block_size = 1102, hih_key_size = 1, hih_content = [255], hih_size = 9\<rparr> = Some (Inr str)
    \<and> hih_deserialize CHOP_SERIAL_ASCII str = Some (Inr
      (\<lparr>hih_block_size = 1102, hih_key_size = 1, hih_content = [255], hih_size = 9\<rparr>, length str - 1))"
proof -
  let ?h = "\<lparr>hih_block_size = 1102, hih_key_size = 1, hih_content = [255], hih_size = 9\<rparr>"
  let ?str = "chop_buffer_to_base32_string [255] @ [of_char CHR ''/''] @ sprintf_zx 1102 @ [0]"
  have ser: "hih_serialize CHOP_SERIAL_ASCII ?h = Some (Inr ?str)"
    by (simp add: hih_serialize_def)
  have "length (sprintf_zx 1102) \<le> 3" by (simp add: sprintf_zx.simps)
  then have "length ?str \<le> 1023"
    by (simp add: base32_encode_spec rfc4648_base32_def Let_def length_rfc4648_chars)
  with hih_ascii_round_trip [of ?h ?str] ser show ?thesis by (simp add: wf_hih_def)
qed


definition sample_md :: gcry_md where
  "sample_md m b = take (chop_hash_size m) (b @ replicate (chop_hash_size m) 0)"

lemma sample_md_laws: "md_laws sample_md"
  by (auto simp: md_laws_def sample_md_def min_def)


text \<open>A binary handle of the hash indexer, written by \<^verbatim>\<open>hih_serialize\<close>, is read back by
  \<^verbatim>\<open>hih_deserialize\<close> as the same handle, whatever bytes follow it, and the number of bytes
  read is the \<^verbatim>\<open>binary_size\<close> of the handle.\<close>

theorem hih_binary_round_trip:
  assumes "wf_hih h" "hih_serialize CHOP_SERIAL_BINARY h = Some (Inr bin)"
  shows "hih_deserialize CHOP_SERIAL_BINARY (bin @ rest) = Some (Inr (h, length bin))
    \<and> length bin = chop_index_handle_binary_size hash_index_handle_class h"
  using hih_codec.serialize_law [OF assms(1)] hih_codec.deserialize_law [OF assms(1), of rest]
    hih_codec.binary_size_law [OF assms(1)] assms(2)
  by (simp add: hash_index_handle_class_def)

theorem hih_binary_round_trip_witness:
  "hih_deserialize CHOP_SERIAL_BINARY ([2, 0, 0, 0, 1, 0, 0, 0, 9] @ [5, 5]) =
     Some (Inr (\<lparr>hih_block_size = 2, hih_key_size = 1, hih_content = [9], hih_size = 9\<rparr>, 9))"
  using hih_binary_round_trip [of "\<lparr>hih_block_size = 2, hih_key_size = 1, hih_content = [9], hih_size = 9\<rparr>"
      "[2, 0, 0, 0, 1, 0, 0, 0, 9]" "[5, 5]"]
  by (simp add: wf_hih_def hih_serialize_def le32_def)

text \<open>A binary handle that announces a key of more than 1024 bytes is accepted and copied
  beyond the 1024-byte array.\<close>

lemma hih_deserialize_overflows:
  "\<exists>h n. hih_deserialize CHOP_SERIAL_BINARY (le32 0 @ le32 2000 @ replicate 2000 0) = Some (Inr (h, n))
     \<and> length (hih_content h) = 2000"
  using le32_value_le32 [of 0 "[]"] le32_value_le32 [of 2000 "[]"]
  by (simp add: hih_deserialize_def Let_def)

text \<open>The configuration of a hash fetcher and of a hash indexer, written as the name of the
  hash method, is read back: every method is found again under its name, in lower case
  for the fetcher.\<close>

theorem hash_config_round_trip:
  "hbi_deserialize CHOP_SERIAL_ASCII (chop_hash_method_name m @ [0]) (length (chop_hash_method_name m) + 1)
     = Inr (\<lparr>hbi_hash_method = m\<rparr>, length (chop_hash_method_name m))
   \<and> hbi_serialize CHOP_SERIAL_ASCII \<lparr>hbi_hash_method = m\<rparr> = Inr (chop_hash_method_name m @ [0])
   \<and> (if m = CHOP_HASH_NONE then hbf_serialize CHOP_SERIAL_ASCII \<lparr>hbf_hash_method = m\<rparr> buffer = (CHOP_OK, buffer)
      else hbf_deserialize CHOP_SERIAL_ASCII (snd (hbf_serialize CHOP_SERIAL_ASCII \<lparr>hbf_hash_method = m\<rparr> buffer))
           = Inr (\<lparr>hbf_hash_method = m\<rparr>, length (chop_hash_method_name m)))"
  by (cases m) (simp_all add: hbi_deserialize_def hbi_serialize_def hbf_serialize_def hbf_deserialize_def
      chop_hash_method_lookup_def chop_hash_method_name_def hash_methods_def strcasecmp_eq_def ascii_def
      toupper_def tolower_def isalnum_def ispunct_def isspace_def Let_def)

end
