(* ===== verification/Chop_Integer.thy ===== *)
theory Chop_Integer
  imports Chop_Hash
begin

text \<open>
  The block indexer that numbers blocks (\<^verbatim>\<open>src/src/block-indexer-integer.c\<close>): a 32-bit
  counter, handles that hold the number, keys that are its four bytes in network order.
  The text forms use the C library's conversions of \<open>Chop_Hash\<close>.
\<close>

section \<open>Network byte order\<close>

definition be32 :: "32 word \<Rightarrow> bytes" where
  "be32 w = rev (le32 (unat w))"

definition be32_value :: "bytes \<Rightarrow> 32 word" where
  "be32_value bs = of_nat (le32_value (rev (take 4 bs)))"

lemma length_be32 [simp]: "length (be32 w) = 4"
  by (simp add: be32_def)

lemma be32_value_be32 [simp]: "be32_value (be32 w @ rest) = w"
proof -
  have "unat w < 2 ^ 32" using unsigned_less [of w] by simp
  then show ?thesis using le32_value_le32 [of "unat w" "[]"] by (simp add: be32_def be32_value_def)
qed

lemma be32_not_Nil [simp]: "be32 w \<noteq> []"
  using length_be32 [of w] by (metis list.size(3) zero_neq_numeral)

lemma be32_inj: "be32 v = be32 w \<longleftrightarrow> v = w"
  by (metis append_Nil2 be32_value_be32)

section \<open>Index handles\<close>

record integer_index_handle =
  iih_id :: "32 word"
  iih_size :: nat

definition iih_equalp :: "integer_index_handle \<Rightarrow> integer_index_handle \<Rightarrow> bool" where
  "iih_equalp h1 h2 = (iih_id h1 = iih_id h2)"

text \<open>Copying leaves the \<^verbatim>\<open>size\<close> of the destination alone.\<close>

definition iih_copy :: "integer_index_handle \<Rightarrow> integer_index_handle \<Rightarrow> integer_index_handle" where
  "iih_copy source dest = dest\<lparr>iih_id := iih_id source\<rparr>"

text \<open>\<^verbatim>\<open>"%08x"\<close> writes the eight hexadecimal digits of the number.\<close>

definition iih_serialize :: "chop_serial_method \<Rightarrow> integer_index_handle \<Rightarrow> bytes result option" where
  "iih_serialize meth iih =
    (case meth of
       CHOP_SERIAL_BINARY \<Rightarrow> Some (Inr (be32 (iih_id iih)))
     | CHOP_SERIAL_ASCII \<Rightarrow> Some (Inr (chop_buffer_to_hex_string (be32 (iih_id iih)) @ [0])))"

definition iih_deserialize ::
  "chop_serial_method \<Rightarrow> bytes \<Rightarrow> (integer_index_handle \<times> nat) result option" where
  "iih_deserialize meth buffer =
    (case meth of
       CHOP_SERIAL_BINARY \<Rightarrow>
         if length buffer < 4 then Some (Inl CHOP_DESERIAL_TOO_SHORT)
         else Some (Inr (\<lparr>iih_id = be32_value buffer, iih_size = 4\<rparr>, 4))
     | CHOP_SERIAL_ASCII \<Rightarrow>
         if length buffer < 8 then Some (Inl CHOP_DESERIAL_TOO_SHORT)
         else (case strtoul16 buffer of (n, used) \<Rightarrow>
           if used = 0 then Some (Inl CHOP_DESERIAL_CORRUPT_INPUT)
           else Some (Inr (\<lparr>iih_id = of_nat n, iih_size = 4\<rparr>, used))))"

definition integer_index_handle_class :: "integer_index_handle handle_class" where
  "integer_index_handle_class =
    \<lparr>hc_serialize = iih_serialize, hc_deserialize = iih_deserialize,
     chop_index_handle_binary_size = iih_size\<rparr>"

section \<open>Fetcher and indexer\<close>

definition iih_key :: "integer_index_handle \<Rightarrow> block_key" where
  "iih_key handle = be32 (iih_id handle)"

text \<open>Each key points to the loop's local \<^verbatim>\<open>id\<close>, one variable for all rounds, so that every
  key the store is asked for holds the last number.\<close>

definition integer_blocks_exist ::
  "'w block_store \<Rightarrow> integer_index_handle list \<Rightarrow> bool list \<Rightarrow> 'w \<Rightarrow> (chop_error \<times> bool list) \<times> 'w" where
  "integer_blocks_exist store indices exists w =
    chop_store_blocks_exist store w (map (\<lambda>_. iih_key (last indices)) indices) exists"

text \<open>The fetcher has no state of its own.\<close>

definition integer_block_fetch ::
  "'w block_store \<Rightarrow> integer_index_handle \<Rightarrow> bytes \<Rightarrow> unit \<times> 'w
     \<Rightarrow> ((chop_error \<times> bytes \<times> nat) \<times> unit \<times> 'w) option" where
  "integer_block_fetch store handle buffer fw =
    (case chop_store_read_block store (snd fw) (iih_key handle) buffer of (r, w') \<Rightarrow> Some (r, fst fw, w'))"

definition integer_fetcher :: "(unit, 'w, integer_index_handle) block_fetcher" where
  "integer_fetcher =
    \<lparr>fetch_block = integer_block_fetch, fetcher_blocks_exist = Some integer_blocks_exist\<rparr>"

record integer_block_indexer =
  ibi_id :: "32 word"

text \<open>Nothing is written, yet the reader expects a number.\<close>

definition ibi_serialize :: "chop_serial_method \<Rightarrow> integer_block_indexer \<Rightarrow> bytes \<Rightarrow> chop_error \<times> bytes" where
  "ibi_serialize meth ibi buffer = (CHOP_OK, buffer)"

definition ibi_deserialize ::
  "chop_serial_method \<Rightarrow> bytes \<Rightarrow> (integer_block_indexer \<times> nat) result" where
  "ibi_deserialize meth buffer =
    (case meth of
       CHOP_SERIAL_BINARY \<Rightarrow>
         if length buffer < 4 then Inl CHOP_DESERIAL_TOO_SHORT
         else Inr (\<lparr>ibi_id = be32_value buffer\<rparr>, 4)
     | CHOP_SERIAL_ASCII \<Rightarrow>
         if 0 < length buffer then
           (case strtoul16 buffer of (n, used) \<Rightarrow>
             if 0 < used then Inr (\<lparr>ibi_id = of_nat n\<rparr>, used) else Inr (\<lparr>ibi_id = 0\<rparr>, 0))
         else Inr (\<lparr>ibi_id = 0\<rparr>, 0))"

definition integer_block_index ::
  "'w block_store \<Rightarrow> bytes \<Rightarrow> integer_block_indexer \<times> 'w
     \<Rightarrow> (integer_index_handle result \<times> integer_block_indexer \<times> 'w) option" where
  "integer_block_index store buffer iw =
    (case iw of (ibi, w) \<Rightarrow>
      let n = ibi_id ibi;
          ibi' = ibi\<lparr>ibi_id := n + 1\<rparr>
      in (case chop_store_write_block store w (be32 n) buffer of
            (err, w') \<Rightarrow>
              if err \<noteq> CHOP_OK then Some (Inl err, ibi', w')
              else Some (Inr \<lparr>iih_id = n, iih_size = 4\<rparr>, ibi', w')))"

definition integer_indexer :: "(integer_block_indexer, 'w, integer_index_handle) block_indexer" where
  "integer_indexer = \<lparr>index_block = integer_block_index\<rparr>"

definition chop_integer_block_indexer_open :: "64 word \<Rightarrow> integer_block_indexer" where
  "chop_integer_block_indexer_open start = \<lparr>ibi_id = ucast start\<rparr>"

section \<open>The integer indexer meets the contract\<close>

definition wf_iih :: "integer_index_handle \<Rightarrow> bool" where
  "wf_iih h \<longleftrightarrow> iih_size h = 4"

interpretation iih_codec: handle_codec integer_index_handle_class wf_iih iih_key "\<lambda>h. h"
  by unfold_locales
    (auto simp: integer_index_handle_class_def iih_serialize_def iih_deserialize_def wf_iih_def iih_key_def)

definition integer_ok :: "('w \<Rightarrow> bool) \<Rightarrow> integer_block_indexer \<times> 'w \<Rightarrow> bool" where
  "integer_ok ok iw \<longleftrightarrow> ok (snd iw)"

definition integer_inv ::
  "('w \<Rightarrow> bool) \<Rightarrow> ('w \<Rightarrow> block_key \<rightharpoonup> bytes) \<Rightarrow> integer_index_handle block_log
     \<Rightarrow> integer_block_indexer \<times> 'w \<Rightarrow> bool" where
  "integer_inv ok contents lg iw \<longleftrightarrow> ok (snd iw) \<and> key_inv iih_key (\<lambda>h b. b) lg (contents (snd iw))"

lemmas integer_index_defs =
  chop_block_indexer_index_def integer_indexer_def integer_block_index_def Let_def
  integer_ok_def integer_inv_def wf_iih_def iih_key_def

locale integer_indexing = map_store store inv contents
  for store :: "'w block_store" and inv and contents

text \<open>A number given out twice, after the counter has wrapped, must name the same block.\<close>

sublocale integer_indexing \<subseteq> idx: block_indexing integer_index_handle_class wf_iih iih_key "\<lambda>h. h"
  integer_indexer integer_fetcher store "integer_ok inv" "integer_inv inv contents" "\<lambda>f. True"
  "key_compat iih_key (\<lambda>h b. b)" "2 ^ 64" 4
proof (unfold_locales, goal_cases)
  case (1 x lg)
  then show ?case by (rule key_compat_tail)
next
  case (2 iw block h iw')
  then show ?case
    using write_block_law [of "snd iw" _ block _ "snd iw'"]
    by (auto simp: integer_index_defs split: prod.splits if_splits)
next
  case (3 iw block err iw')
  then show ?case
    using write_block_law [of "snd iw" _ block err "snd iw'"]
    by (auto simp: integer_index_defs split: prod.splits if_splits)
next
  case (4 lg iw block h iw')
  then show ?case
    using keyed_write [of "snd iw" iih_key "\<lambda>h b. b" lg h block "snd iw'"]
    by (auto simp: integer_index_defs split: prod.splits if_splits)
next
  case (5 lg iw block err iw')
  then show ?case
    using write_block_law [of "snd iw" _ block err "snd iw'"]
    by (auto simp: integer_index_defs split: prod.splits if_splits)
next
  case (6 lg i w f h block h' buffer)
  obtain r w' where rd: "chop_store_read_block store w (iih_key h) buffer = (r, w')" by (metis prod.exhaust)
  from 6 keyed_read [of w iih_key "\<lambda>h b. b" lg h block buffer r w'] rd show ?case
    by (auto simp: chop_block_fetcher_fetch_def integer_fetcher_def integer_block_fetch_def integer_inv_def)
qed

locale reliable_integer = integer_indexing + reliable_store

sublocale reliable_integer \<subseteq> ridx: reliable_indexing integer_index_handle_class wf_iih iih_key "\<lambda>h. h"
  integer_indexer integer_fetcher store "integer_ok inv" "integer_inv inv contents" "\<lambda>f. True"
  "key_compat iih_key (\<lambda>h b. b)" "2 ^ 64" 4
proof (unfold_locales, goal_cases)
  case (1 iw block)
  then show ?case
    using write_succeeds [of "snd iw" _ block]
    by (auto simp: integer_index_defs split: prod.splits if_splits) (metis fst_conv)+
qed

interpretation reliable_db_integer: reliable_integer "generic_db_store ops"
  "\<lambda>s. (db_laws ops m \<and> db_writable ops) \<and> db_open s" "\<lambda>s. m (db s)" for ops :: "'d db_ops" and m
  by unfold_locales

end
