(* ===== verification/Chop_Tree_Roundtrip.thy ===== *)
theory Chop_Tree_Roundtrip
  imports Chop_Tree_Erase Chop_Tree_Reader Chop_Hash Chop_Integer
begin

text \<open>
  Storing and retrieving a stream, end to end: chopping, block indexing and the tree
  indexer together, first for any components that keep their contracts, then for the hash and
  integer block indexers on a database store.
\<close>

section \<open>For any components\<close>

sublocale tree_reading \<subseteq> tchop: chopped_stream "tree_stream_read bf hc store store junk" ts_inv ts_rest
  by unfold_locales

context tree_reading
begin

text \<open>The whole stream, as one block.\<close>

lemma read_all:
  assumes "fetchable lg i fw" "rtree lg (Suc k) h data" "h' \<in> {h, canon h}"
  shows "\<exists>s'. chop_chopper_read_block (read_whole_stream (tree_stream_read bf hc store store junk))
      (chop_tree_fetch_stream h', fw) [] = Some ((CHOP_OK, data, length data), s')"
proof -
  note s = ts_inv_open [OF assms]
  have "whole_blocks ts_rest (chop_tree_fetch_stream h', fw) = [data]"
    using s(2) tree_of_nonempty [OF assms(2)] by (simp add: whole_blocks_def)
  with tchop.whole.read_next [OF s(1)] show ?thesis by metis
qed

end

context stream_indexing
begin

lemma index_then_read:
  assumes "cinv ch" "blocks ch \<noteq> []" "\<forall>x \<in> set (blocks ch). length x \<le> max_block"
    and "length (blocks ch) \<le> 2 ^ 64" "J (i, w)" "I [] (i, w)" "F f"
  shows "\<exists>h ch' i' lg w'.
      chop_tree_index_blocks (c + 1) rb bi hc store store ch (i, w) = Some (CHOP_OK, Some h, ch', i', w')
    \<and> chop_tree_index_blocks (c + 1) rb (logged bi) hc store store ch ((i, []), w)
       = Some (CHOP_OK, Some h, ch', (i', lg), w')
    \<and> index_run bi store ((i, []), w) ((i', lg), w')
    \<and> (compat lg \<longrightarrow> (\<forall>h' \<in> {h, canon h}. \<exists>s'. chop_chopper_read_block
          (read_whole_stream (tree_stream_read bf hc store store junk)) (chop_tree_fetch_stream h', f, w') []
         = Some ((CHOP_OK, concat (blocks ch), length (concat (blocks ch))), s')))"
proof -
  have "J (erase_log ((i, []), w))" using assms(5) by simp
  from index_blocks_ok [OF assms(1-4) this] obtain h ch' s' k where r:
    "chop_tree_index_blocks (c + 1) rb (logged bi) hc store store ch ((i, []), w) = Some (CHOP_OK, Some h, ch', s')"
    "index_run bi store ((i, []), w) s'" "trees s' (Suc k) h (concat (blocks ch))" .
  obtain i' lg w' where s': "s' = ((i', lg), w')" by (cases s') auto
  have read: "\<exists>s'. chop_chopper_read_block (read_whole_stream (tree_stream_read bf hc store store junk))
      (chop_tree_fetch_stream h', f, w') [] = Some ((CHOP_OK, concat (blocks ch), length (concat (blocks ch))), s')"
    if "compat lg" "h' \<in> {h, canon h}" for h'
  proof -
    have "fetchable lg i' (f, w')"
      using index_run_inv [OF r(2)] that s' assms(6,7) by (simp add: log_of_def fetchable_def)
    moreover have "rtree lg (Suc k) h (concat (blocks ch))" using r(3) s' by (simp add: log_of_def)
    moreover have "tree_reading hc wf_handle encode canon bi bf store J I F compat max_block hsize"
      by (rule tree_reading.intro) (rule block_indexing_axioms)
    ultimately show ?thesis using that(2) by (intro tree_reading.read_all)
  qed
  have "chop_tree_index_blocks (c + 1) rb bi hc store store ch (i, w) = Some (CHOP_OK, Some h, ch', i', w')"
    using index_blocks_erase [OF r(1)] s' by simp
  with read r(1,2) show ?thesis unfolding s' by blast
qed

end

section \<open>Hash block indexer on a database\<close>

lemma fixed_blocks_of_data:
  assumes "0 < n" "data \<noteq> []"
  shows "fixed_blocks ms_rest (chop_fixed_size_chopper_init (chop_mem_stream_open data (length data)) n False)
      = chunks n data"
    "chunks n data \<noteq> []" "\<forall>x \<in> set (chunks n data). length x \<le> n" "length (chunks n data) \<le> length data"
proof -
  show "fixed_blocks ms_rest (chop_fixed_size_chopper_init (chop_mem_stream_open data (length data)) n False)
      = chunks n data"
    by (simp add: fixed_blocks_def chop_fixed_size_chopper_init_def ms_rest_def chop_mem_stream_open_def)
  show "chunks n data \<noteq> []" using assms by (simp add: chunks_step)
  show "\<forall>x \<in> set (chunks n data). length x \<le> n"
    by (induction n data rule: chunks.induct) (subst chunks.simps, simp)
  show "length (chunks n data) \<le> length data"
    using assms(1) by (induction n data rule: chunks.induct)
      (subst chunks.simps, auto simp: Suc_le_eq order_le_less_trans)
qed

lemma hash_stream_indexing:
  assumes "block_source rb cinv blocks" "2 \<le> c" "10 + c * 72 \<le> 2 ^ 32 - 1"
  shows "stream_indexing hash_index_handle_class wf_hih hih_encode (\<lambda>h. h) (hash_indexer G)
    (hash_fetcher G) (generic_db_store ops)
    (hash_ok (\<lambda>s. (db_laws ops mp \<and> db_writable ops) \<and> db_open s) G m)
    (hash_inv (\<lambda>s. (db_laws ops mp \<and> db_writable ops) \<and> db_open s) (\<lambda>s. mp (db s)) G m)
    (\<lambda>f. hbf_hash_method f = m) hash_compat (2 ^ 32 - 1) 72 c rb cinv blocks"
  using assms reliable_db_hash.ridx.reliable_indexing_axioms [where G = G and m = m and ops = ops and mp = mp]
  by (intro stream_indexing.intro tree_writing.intro tree_writing_axioms.intro stream_indexing_axioms.intro) simp_all

text \<open>Indexing any source of blocks, then reading the tree.\<close>

lemma hash_round_trip_source:
  assumes "block_source rb cinv blocks" "cinv ch" "blocks ch \<noteq> []" "\<forall>x \<in> set (blocks ch). length x < 2 ^ 32"
    and "length (blocks ch) \<le> 2 ^ 64" "concat (blocks ch) = data" "3 \<le> ipb" "10 + (ipb - 1) * 72 < 2 ^ 32"
    and "db_laws ops mp" "db_writable ops" "db_open w" "mp (db w) = Map.empty" "md_laws G" "chop_hash_size m \<noteq> 0"
  shows "\<exists>h c' i' lg w'.
      chop_tree_index_blocks ipb rb (hash_indexer G) hash_index_handle_class (generic_db_store ops)
        (generic_db_store ops) ch (\<lparr>hbi_hash_method = m\<rparr>, w) = Some (CHOP_OK, Some h, c', i', w')
    \<and> chop_tree_index_blocks ipb rb (logged (hash_indexer G)) hash_index_handle_class (generic_db_store ops)
        (generic_db_store ops) ch ((\<lparr>hbi_hash_method = m\<rparr>, []), w) = Some (CHOP_OK, Some h, c', (i', lg), w')
    \<and> (hash_compat lg \<longrightarrow>
        (\<exists>s'. chop_chopper_read_block (read_whole_stream (tree_stream_read
            (hash_fetcher G) hash_index_handle_class
            (generic_db_store ops) (generic_db_store ops) junk))
          (chop_tree_fetch_stream h, \<lparr>hbf_hash_method = m\<rparr>, w') [] = Some ((CHOP_OK, data, length data), s')))"
proof -
  have "2 \<le> ipb - 1" "10 + (ipb - 1) * 72 \<le> 2 ^ 32 - 1" using assms(7,8) by auto
  note idx = hash_stream_indexing [OF assms(1) this, where G = G and m = m and ops = ops and mp = mp]
  have small: "\<forall>x \<in> set (blocks ch). length x \<le> 2 ^ 32 - 1" using assms(4) by fastforce
  have J: "hash_ok (\<lambda>s. (db_laws ops mp \<and> db_writable ops) \<and> db_open s) G m (\<lparr>hbi_hash_method = m\<rparr>, w)"
    using assms by (simp add: hash_ok_def)
  then have "hash_inv (\<lambda>s. (db_laws ops mp \<and> db_writable ops) \<and> db_open s) (\<lambda>s. mp (db s)) G m []
      (\<lparr>hbi_hash_method = m\<rparr>, w)"
    using assms(12) by (simp add: hash_inv_def)
  note round_trip = stream_indexing.index_then_read [OF idx assms(2,3) small assms(5) J this, of "\<lparr>hbf_hash_method = m\<rparr>" junk]
  have "ipb - 1 + 1 = ipb" using assms(7) by simp
  from round_trip [unfolded assms(6) this] show ?thesis by force
qed

text \<open>The tree of \<^verbatim>\<open>chop-file\<close>, with 12 handles per block.\<close>

interpretation hash_file: stream_indexing hash_index_handle_class wf_hih hih_encode "\<lambda>h. h" "hash_indexer G"
    "hash_fetcher G" "generic_db_store ops"
    "hash_ok (\<lambda>s. (db_laws ops mp \<and> db_writable ops) \<and> db_open s) G m"
    "hash_inv (\<lambda>s. (db_laws ops mp \<and> db_writable ops) \<and> db_open s) (\<lambda>s. mp (db s)) G m"
    "\<lambda>f. hbf_hash_method f = m" hash_compat "2 ^ 32 - 1" 72 11 "chop_fixed_chopper_read_block chop_mem_stream_read"
    "\<lambda>c. ms_inv (fc_stream c) \<and> 0 < fc_block_size c" "fixed_blocks ms_rest"
  for G and m and ops :: "'d db_ops" and mp
  by (rule hash_stream_indexing [OF mem_chop.fixed.block_source_axioms]) simp_all

interpretation hash_stream: tree_reading hash_index_handle_class wf_hih hih_encode "\<lambda>h. h" "hash_indexer G"
    "hash_fetcher G" "generic_db_store ops"
    "hash_ok (\<lambda>s. db_laws ops mp \<and> db_open s) G m"
    "hash_inv (\<lambda>s. db_laws ops mp \<and> db_open s) (\<lambda>s. mp (db s)) G m"
    "\<lambda>f. hbf_hash_method f = m" hash_compat "2 ^ 32 - 1" 72 junk lg i data
  for G and m and ops :: "'d db_ops" and mp and junk and lg and i and data
  by unfold_locales

text \<open>C3: Storing and retrieving a file.  A non-empty memory stream, cut by the fixed-size chopper and
  indexed by the tree indexer with the hash block indexer on an empty, writable
  database, is indexed with success; and unless two of the blocks written (\<open>lg\<close>, data and key
  blocks) collide under the hash, reading the stream fetched for the resulting handle
  gives back exactly the bytes of the original stream.\<close>

theorem hash_tree_round_trip:
  assumes "db_laws ops mp" "db_writable ops" "db_open w" "mp (db w) = Map.empty"
    and "md_laws G" "chop_hash_size m \<noteq> 0" "3 \<le> ipb" "10 + (ipb - 1) * 72 < 2 ^ 32"
    and "0 < block_size" "block_size < 2 ^ 32" "data \<noteq> []" "length data \<le> 2 ^ 64"
  shows "\<exists>h c' i' lg w'.
      chop_tree_index_blocks ipb (chop_fixed_chopper_read_block chop_mem_stream_read)
        (hash_indexer G) hash_index_handle_class (generic_db_store ops) (generic_db_store ops)
        (chop_fixed_size_chopper_init (chop_mem_stream_open data (length data)) block_size False)
        (\<lparr>hbi_hash_method = m\<rparr>, w) = Some (CHOP_OK, Some h, c', i', w')
    \<and> chop_tree_index_blocks ipb (chop_fixed_chopper_read_block chop_mem_stream_read)
        (logged (hash_indexer G)) hash_index_handle_class (generic_db_store ops) (generic_db_store ops)
        (chop_fixed_size_chopper_init (chop_mem_stream_open data (length data)) block_size False)
        ((\<lparr>hbi_hash_method = m\<rparr>, []), w) = Some (CHOP_OK, Some h, c', (i', lg), w')
    \<and> (hash_compat lg \<longrightarrow>
        (\<exists>s'. chop_chopper_read_block (read_whole_stream (tree_stream_read
            (hash_fetcher G) hash_index_handle_class
            (generic_db_store ops) (generic_db_store ops) junk))
          (chop_tree_fetch_stream h, \<lparr>hbf_hash_method = m\<rparr>, w') [] = Some ((CHOP_OK, data, length data), s')))"
proof -
  let ?ch = "chop_fixed_size_chopper_init (chop_mem_stream_open data (length data)) block_size False"
  note fb = fixed_blocks_of_data [OF assms(9,11)]
  have "ms_inv (fc_stream ?ch) \<and> 0 < fc_block_size ?ch"
    using assms(9) by (simp add: chop_fixed_size_chopper_init_def chop_mem_stream_open_def ms_inv_def)
  moreover have "fixed_blocks ms_rest ?ch \<noteq> []" "\<forall>x \<in> set (fixed_blocks ms_rest ?ch). length x < 2 ^ 32"
    "length (fixed_blocks ms_rest ?ch) \<le> 2 ^ 64" "concat (fixed_blocks ms_rest ?ch) = data"
    using fb assms(10,12) concat_chunks [OF assms(9)] by (auto intro: le_less_trans)
  ultimately show ?thesis
    by (rule hash_round_trip_source [OF mem_chop.fixed.block_source_axioms, where mp = mp]) (use assms in simp_all)
qed

text \<open>A stream of one block makes a tree of one key block.\<close>

lemma one_block_run:
  assumes "chop_chopper_read_block rb ch [] = Some ((CHOP_OK, x, length x), c1)" "x \<noteq> []"
    and "chop_chopper_read_block rb c1 [] = Some ((CHOP_STREAM_END, b2, 0), c2)"
    and "chop_block_indexer_index bi st x s = Some (Inr h1, s1)"
    and "hc_serialize hc CHOP_SERIAL_BINARY h1 = Some (Inr e1)" "length e1 = chop_index_handle_binary_size hc h1"
    and "chop_block_indexer_index bi st (key_block_header 1 0 @ e1) s1 = Some (Inr h2, s2)"
  shows "chop_tree_index_blocks 3 rb bi hc st st ch s = Some (CHOP_OK, Some h2, c2, s2)"
  using assms
  by (simp add: chop_tree_index_blocks_def tree_index_loop.simps chop_block_tree_add_index_def chop_block_tree_init_def
      chop_key_block_add_index.simps chop_key_block_new_def key_block_append_def Let_def
      chop_block_tree_flush_def block_tree_flush_loop.simps chop_key_block_flush_def chop_key_block_fill_header_def
      KEY_BLOCK_HEADER_SIZE_def)

text \<open>A file of one byte on the sample components.\<close>

abbreviation sample_db :: "(bytes \<times> bytes) list db_store block_store" where
  "sample_db \<equiv> generic_db_store alist_db"
abbreviation sample_hash :: "bytes \<Rightarrow> hash_index_handle" where
  "sample_hash \<equiv> hash_handle sample_md CHOP_HASH_MD5"

lemma sample_index:
  "chop_block_indexer_index (logged (hash_indexer sample_md)) sample_db b
      ((\<lparr>hbi_hash_method = CHOP_HASH_MD5\<rparr>, lg), \<lparr>db = d, db_open = True\<rparr>)
   = Some (Inr (sample_hash b), (\<lparr>hbi_hash_method = CHOP_HASH_MD5\<rparr>, (sample_hash b, b) # lg),
      \<lparr>db = (sample_md CHOP_HASH_MD5 b, b) # filter (\<lambda>e. fst e \<noteq> sample_md CHOP_HASH_MD5 b) d, db_open = True\<rparr>)"
proof -
  have "16 - min (length b) 16 = 16 - length b" by simp
  then show ?thesis unfolding logged_index_eq
    by (simp add: chop_block_indexer_index_def hash_indexer_def hash_block_index_def
      chop_hash_size_def hash_methods_def generic_db_defs alist_db_def hash_handle_def sample_md_def Let_def)
qed

lemma sample_wf: "length b < 2 ^ 32 \<Longrightarrow> wf_hih (sample_hash b)"
  by (simp add: wf_hih_def hash_handle_def sample_md_def chop_hash_size_def hash_methods_def)

lemma sample_key: "hih_key (sample_hash b) = sample_md CHOP_HASH_MD5 b"
  by (simp add: hih_key_def hash_handle_def sample_md_def)

lemma sample_add:
  assumes "length b < 2 ^ 32"
  shows "chop_block_tree_add_index bi hash_index_handle_class st (chop_block_tree_init 3) (sample_hash b) iw
    = Some (CHOP_OK, \<lparr>kt_chain = [\<lparr>kb_keys = replicate 10 0 @ hih_encode (sample_hash b), kb_key_count = 1, kb_depth = 0\<rparr>],
          kt_indexes_per_block = 3\<rparr>, iw)"
  using hih_codec.serialize_law [OF sample_wf [OF assms]] hih_codec.binary_size_law [OF sample_wf [OF assms]]
  by (simp add: chop_block_tree_add_index_def chop_block_tree_init_def chop_key_block_add_index.simps
     chop_key_block_new_def key_block_append_def KEY_BLOCK_HEADER_SIZE_def Let_def)

lemma sample_read:
  "chop_chopper_read_block (chop_fixed_chopper_read_block chop_mem_stream_read)
     (chop_fixed_size_chopper_init (chop_mem_stream_open [7] (length ([7]::bytes))) 1 False) []
   = Some ((CHOP_OK, [7], 1), \<lparr>fc_stream = \<lparr>ms_base = [7], ms_offset = 1, ms_size = 1\<rparr>, fc_block_size = 1, fc_pad_blocks = False\<rparr>)"
  "chop_chopper_read_block (chop_fixed_chopper_read_block chop_mem_stream_read)
     \<lparr>fc_stream = \<lparr>ms_base = [7], ms_offset = 1, ms_size = 1\<rparr>, fc_block_size = 1, fc_pad_blocks = False\<rparr> []
   = Some ((CHOP_STREAM_END, [], 0), \<lparr>fc_stream = \<lparr>ms_base = [7], ms_offset = 1, ms_size = 1\<rparr>, fc_block_size = 1, fc_pad_blocks = False\<rparr>)"
  by (simp_all add: chop_chopper_read_block_def chop_fixed_chopper_read_block_def fixed_fill.simps
     chop_fixed_size_chopper_init_def chop_mem_stream_open_def chop_stream_read_def chop_mem_stream_read_def)

lemma sample_run:
  assumes "chop_chopper_read_block rb ch [] = Some ((CHOP_OK, [7], 1), c1)"
    and "chop_chopper_read_block rb c1 [] = Some ((CHOP_STREAM_END, b2, 0), c2)"
  shows "\<exists>h c i lg w. chop_tree_index_blocks 3 rb (logged (hash_indexer sample_md)) hash_index_handle_class
        sample_db sample_db ch ((\<lparr>hbi_hash_method = CHOP_HASH_MD5\<rparr>, []), \<lparr>db = [], db_open = True\<rparr>)
     = Some (CHOP_OK, h, c, (i, lg), w) \<and> hash_compat lg"
proof -
  let ?h = "sample_hash [7]"
  let ?kb = "key_block_header 1 0 @ hih_encode ?h"
  have l: "length ?kb < 2 ^ 32"
    by (simp add: hih_encode_def hash_handle_def sample_md_def chop_hash_size_def hash_methods_def)
  have "sample_md CHOP_HASH_MD5 [7] \<noteq> sample_md CHOP_HASH_MD5 ?kb"
    by (simp add: sample_md_def key_block_header_def KEY_BLOCK_MAGIC_def ascii_def chop_hash_size_def hash_methods_def)
  then have "hash_compat [(sample_hash ?kb, ?kb), (?h, [7])]"
    using l by (auto simp: hash_compat_def key_compat_def sample_key)
  with assms show ?thesis
    by (simp add: chop_tree_index_blocks_def tree_index_loop.simps sample_index sample_add
      chop_block_tree_flush_def block_tree_flush_loop.simps chop_key_block_flush_def chop_key_block_fill_header_def KEY_BLOCK_HEADER_SIZE_def)
qed

definition sample_junk :: decoded_block where
  "sample_junk = \<lparr>dk_buffer = [1], dk_offset = 2, dk_is_key_block = True, dk_depth = 3,
     dk_key_count = 4, dk_current_child_number = 5, dk_has_parent = True\<rparr>"

theorem hash_tree_round_trip_witness:
  "\<exists>h c' i' w' s'.
      chop_tree_index_blocks 3 (chop_fixed_chopper_read_block chop_mem_stream_read)
        (hash_indexer sample_md) hash_index_handle_class sample_db sample_db
        (chop_fixed_size_chopper_init (chop_mem_stream_open [7] (length ([7] :: bytes))) 1 False)
        (\<lparr>hbi_hash_method = CHOP_HASH_MD5\<rparr>, \<lparr>db = [], db_open = True\<rparr>) = Some (CHOP_OK, Some h, c', i', w')
    \<and> chop_chopper_read_block (read_whole_stream (tree_stream_read
            (hash_fetcher sample_md) hash_index_handle_class
            sample_db sample_db sample_junk)) (chop_tree_fetch_stream h, \<lparr>hbf_hash_method = CHOP_HASH_MD5\<rparr>, w') []
        = Some ((CHOP_OK, [7], length ([7] :: bytes)), s')"
proof -
  have wr: "db_writable alist_db" by (simp add: db_writable_def alist_db_def)
  have "chop_hash_size CHOP_HASH_MD5 \<noteq> 0" by (simp add: chop_hash_size_def hash_methods_def)
  from hash_tree_round_trip [OF alist_db_laws wr _ _ sample_md_laws this, of "\<lparr>db = [], db_open = True\<rparr>" 3 1 "[7]" sample_junk]
    sample_run [OF sample_read] show ?thesis by force
qed

section \<open>Integer block indexer on a database\<close>

text \<open>The handles given out are consecutive, so that up to \<open>2 ^ 32\<close> blocks have distinct keys.\<close>

definition consecutive :: "32 word \<Rightarrow> integer_index_handle block_log \<Rightarrow> bool" where
  "consecutive start lg \<longleftrightarrow> map (iih_id \<circ> fst) lg = rev (map (\<lambda>k. start + of_nat k) [0..<length lg])"

lemma consecutive_compat:
  assumes "consecutive start lg" "length lg \<le> 2 ^ 32"
  shows "key_compat iih_key (\<lambda>h b. b) lg"
proof -
  have "inj_on (\<lambda>k. start + of_nat k :: 32 word) {0..<length lg}"
  proof (rule inj_onI)
    fix j k
    assume jk: "j \<in> {0..<length lg}" "k \<in> {0..<length lg}"
      and eq: "start + of_nat j = (start + of_nat k :: 32 word)"
    have low: "unat (of_nat i :: 32 word) = i" if "i \<in> {0..<length lg}" for i
      using that assms(2) by (simp add: unat_of_nat)
    from eq have "of_nat j = (of_nat k :: 32 word)" by simp
    then show "j = k" using low [OF jk(1)] low [OF jk(2)] by metis
  qed
  then have "distinct (map (iih_id \<circ> fst) lg)"
    using assms(1) by (simp add: consecutive_def distinct_map)
  then have "b = b'" if "(h, b) \<in> set lg" "(h', b') \<in> set lg" "iih_id h = iih_id h'" for h b h' b'
    using that by (force simp: distinct_map inj_on_def)
  then show ?thesis by (auto simp: key_compat_def iih_key_def be32_inj)
qed

context reliable_integer
begin

lemma index_run_consecutive:
  assumes "index_run integer_indexer store s t" "integer_ok inv (erase_log s)" "log_of s = []"
  shows "consecutive (ibi_id (fst (erase_log s))) (log_of t)
    \<and> ibi_id (fst (erase_log t)) = ibi_id (fst (erase_log s)) + of_nat (length (log_of t))
    \<and> integer_ok inv (erase_log t)"
  using assms
proof (induction rule: index_run.induct)
  case (run_refl s)
  then show ?case by (simp add: consecutive_def)
next
  case (run_step s t block r u)
  then have IH: "consecutive (ibi_id (fst (erase_log s))) (log_of t)"
    "ibi_id (fst (erase_log t)) = ibi_id (fst (erase_log s)) + of_nat (length (log_of t))"
    "integer_ok inv (erase_log t)" by blast+
  note ll = logged_log [OF run_step.hyps(2)]
  obtain h where h: "r = Inr h" using ridx.index_succeeds [OF IH(3), of block] ll(2) by auto
  have "iih_id h = ibi_id (fst (erase_log t))" "ibi_id (fst (erase_log u)) = ibi_id (fst (erase_log t)) + 1"
    using ll(2) h by (cases "erase_log t"; cases "erase_log u"; auto simp: integer_index_defs split: prod.splits if_splits)+
  moreover have "integer_ok inv (erase_log u)"
    using IH(3) ll(2) h write_block_law [of "snd (erase_log t)" _ block _ "snd (erase_log u)"]
    by (cases "erase_log t"; cases "erase_log u"; auto simp: integer_index_defs split: prod.splits if_splits)
  ultimately show ?case using IH h ll(1) by (simp add: consecutive_def)
qed

end

lemma integer_stream_indexing:
  assumes "2 \<le> c" "c < 2 ^ 32"
  shows "stream_indexing integer_index_handle_class wf_iih iih_key (\<lambda>h. h) integer_indexer integer_fetcher
    (generic_db_store ops) (integer_ok (\<lambda>s. (db_laws ops mp \<and> db_writable ops) \<and> db_open s))
    (integer_inv (\<lambda>s. (db_laws ops mp \<and> db_writable ops) \<and> db_open s) (\<lambda>s. mp (db s)))
    (\<lambda>f. True) (key_compat iih_key (\<lambda>h b. b)) (2 ^ 64) 4 c (chop_fixed_chopper_read_block chop_mem_stream_read)
    (\<lambda>c. ms_inv (fc_stream c) \<and> 0 < fc_block_size c) (fixed_blocks ms_rest)"
  by unfold_locales (use assms in simp_all)

text \<open>C4: Storing and retrieving a file with the integer block indexer: a non-empty memory stream cut by
  the fixed-size chopper is indexed with success on an empty, writable database, and as
  long as no more than \<open>2 ^ 32\<close> blocks were written in all, whatever number the indexer starts
  with, reading the stream fetched for the handle gives back exactly the bytes.\<close>

theorem integer_tree_round_trip:
  assumes "db_laws ops mp" "db_writable ops" "db_open w" "mp (db w) = Map.empty"
    and "3 \<le> ipb" "ipb \<le> 2 ^ 32" "0 < block_size" "block_size \<le> 2 ^ 64" "data \<noteq> []" "length data \<le> 2 ^ 64"
  shows "\<exists>h c' i' lg w'.
      chop_tree_index_blocks ipb (chop_fixed_chopper_read_block chop_mem_stream_read)
        integer_indexer integer_index_handle_class (generic_db_store ops) (generic_db_store ops)
        (chop_fixed_size_chopper_init (chop_mem_stream_open data (length data)) block_size False)
        (chop_integer_block_indexer_open start, w) = Some (CHOP_OK, Some h, c', i', w')
    \<and> chop_tree_index_blocks ipb (chop_fixed_chopper_read_block chop_mem_stream_read)
        (logged integer_indexer) integer_index_handle_class (generic_db_store ops) (generic_db_store ops)
        (chop_fixed_size_chopper_init (chop_mem_stream_open data (length data)) block_size False)
        ((chop_integer_block_indexer_open start, []), w) = Some (CHOP_OK, Some h, c', (i', lg), w')
    \<and> (length lg \<le> 2 ^ 32 \<longrightarrow>
        (\<exists>s'. chop_chopper_read_block (read_whole_stream (tree_stream_read
            integer_fetcher integer_index_handle_class (generic_db_store ops) (generic_db_store ops) junk))
          (chop_tree_fetch_stream h, (), w') [] = Some ((CHOP_OK, data, length data), s')))"
proof -
  let ?ch = "chop_fixed_size_chopper_init (chop_mem_stream_open data (length data)) block_size False"
  let ?i = "chop_integer_block_indexer_open start"
  have "2 \<le> ipb - 1" "ipb - 1 < 2 ^ 32" using assms(5,6) by auto
  note idx = integer_stream_indexing [OF this, of ops mp]
  note fb = fixed_blocks_of_data [OF assms(7,9)]
  have ch: "ms_inv (fc_stream ?ch) \<and> 0 < fc_block_size ?ch"
    using assms(7) by (simp add: chop_fixed_size_chopper_init_def chop_mem_stream_open_def ms_inv_def)
  have small: "\<forall>x \<in> set (fixed_blocks ms_rest ?ch). length x \<le> 2 ^ 64"
    using fb(1,3) assms(8) by fastforce
  have ne: "fixed_blocks ms_rest ?ch \<noteq> []" and few: "length (fixed_blocks ms_rest ?ch) \<le> 2 ^ 64"
    using fb assms(10) by auto
  have J: "integer_ok (\<lambda>s. (db_laws ops mp \<and> db_writable ops) \<and> db_open s) (?i, w)"
    using assms by (simp add: integer_ok_def)
  then have "integer_inv (\<lambda>s. (db_laws ops mp \<and> db_writable ops) \<and> db_open s) (\<lambda>s. mp (db s)) [] (?i, w)"
    using assms(4) by (simp add: integer_inv_def integer_ok_def)
  note round_trip = stream_indexing.index_then_read [OF idx ch ne small few J this TrueI, of junk "()"]
  have compat: "key_compat iih_key (\<lambda>h b. b) lg"
    if "index_run integer_indexer (generic_db_store ops) ((?i, []), w) ((i', lg), w')" "length lg \<le> 2 ^ 32"
    for i' lg w'
    using reliable_db_integer.index_run_consecutive [OF that(1), of mp] J that(2)
    by (intro consecutive_compat [of "ibi_id ?i"]) (simp_all add: log_of_def)
  have "ipb - 1 + 1 = ipb" using assms(5) by simp
  from round_trip [unfolded fb(1) concat_chunks [OF assms(7)] this] compat show ?thesis by blast
qed

lemma sample_integer_index:
  "chop_block_indexer_index (logged integer_indexer) sample_db b ((\<lparr>ibi_id = n\<rparr>, lg), \<lparr>db = d, db_open = True\<rparr>)
   = Some (Inr \<lparr>iih_id = n, iih_size = 4\<rparr>, (\<lparr>ibi_id = n + 1\<rparr>, (\<lparr>iih_id = n, iih_size = 4\<rparr>, b) # lg),
      \<lparr>db = (be32 n, b) # filter (\<lambda>e. fst e \<noteq> be32 n) d, db_open = True\<rparr>)"
  unfolding logged_index_eq
  by (simp add: chop_block_indexer_index_def integer_indexer_def integer_block_index_def
      generic_db_defs alist_db_def Let_def)

lemma sample_integer_add:
  "chop_block_tree_add_index bi integer_index_handle_class st (chop_block_tree_init 3) \<lparr>iih_id = n, iih_size = 4\<rparr> iw
    = Some (CHOP_OK, \<lparr>kt_chain = [\<lparr>kb_keys = replicate 10 0 @ be32 n, kb_key_count = 1, kb_depth = 0\<rparr>],
          kt_indexes_per_block = 3\<rparr>, iw)"
  by (simp add: chop_block_tree_add_index_def chop_block_tree_init_def chop_key_block_add_index.simps
      chop_key_block_new_def key_block_append_def KEY_BLOCK_HEADER_SIZE_def Let_def
      integer_index_handle_class_def iih_serialize_def)

lemma sample_integer_run:
  "\<exists>h c i lg w. chop_tree_index_blocks 3 (chop_fixed_chopper_read_block chop_mem_stream_read)
        (logged integer_indexer) integer_index_handle_class sample_db sample_db
        (chop_fixed_size_chopper_init (chop_mem_stream_open [7] (length ([7] :: bytes))) 1 False)
        ((chop_integer_block_indexer_open 5, []), \<lparr>db = [], db_open = True\<rparr>)
     = Some (CHOP_OK, h, c, (i, lg), w) \<and> length lg \<le> 2 ^ 32"
  by (simp add: chop_tree_index_blocks_def tree_index_loop.simps sample_read [simplified]
      chop_integer_block_indexer_open_def sample_integer_index sample_integer_add
      chop_block_tree_flush_def block_tree_flush_loop.simps chop_key_block_flush_def
      chop_key_block_fill_header_def KEY_BLOCK_HEADER_SIZE_def)

theorem integer_tree_round_trip_witness:
  "\<exists>h c' i' w' s'.
      chop_tree_index_blocks 3 (chop_fixed_chopper_read_block chop_mem_stream_read)
        integer_indexer integer_index_handle_class sample_db sample_db
        (chop_fixed_size_chopper_init (chop_mem_stream_open [7] (length ([7] :: bytes))) 1 False)
        (chop_integer_block_indexer_open 5, \<lparr>db = [], db_open = True\<rparr>) = Some (CHOP_OK, Some h, c', i', w')
    \<and> chop_chopper_read_block (read_whole_stream (tree_stream_read
            integer_fetcher integer_index_handle_class sample_db sample_db sample_junk)) (chop_tree_fetch_stream h, (), w') []
        = Some ((CHOP_OK, [7], length ([7] :: bytes)), s')"
proof -
  have wr: "db_writable alist_db" by (simp add: db_writable_def alist_db_def)
  from integer_tree_round_trip [OF alist_db_laws wr, of "\<lparr>db = [], db_open = True\<rparr>" 3 1 "[7]" 5 sample_junk]
    sample_integer_run show ?thesis by force
qed

end
