(* ===== verification/Chop_Anchor.thy ===== *)
theory Chop_Anchor
  imports Chop_Choppers
begin

text \<open>
  The anchor-based chopper (\<^verbatim>\<open>src/src/chopper-anchor-based.c\<close>): block boundaries are chosen by
  the contents, where the fingerprint of a sliding window of bytes has the bits of a mask
  clear.  The code keeps a double buffer and updates the fingerprint incrementally; the
  specification at the end looks at every window from scratch.  This is the code without
  GNU Lightning.  Reading outside of a subwindow, a failed assertion or an endless loop is
  None.
\<close>

section \<open>Sliding windows\<close>

text \<open>The two subwindows in the order of \<^verbatim>\<open>windows\<close>: their contents are \<^verbatim>\<open>window_size\<close> bytes each,
  the halves of \<^verbatim>\<open>raw_window\<close>, of which the first \<^verbatim>\<open>sizes\<close> are data.\<close>

record sliding_window =
  sw_window_size :: nat
  sw_first :: bytes
  sw_second :: bytes
  sw_offset :: nat
  sw_size0 :: nat
  sw_size1 :: nat

definition sliding_window_ref :: "sliding_window \<Rightarrow> nat \<Rightarrow> byte" where
  "sliding_window_ref win offs = (sw_first win @ sw_second win) ! (offs mod (2 * sw_window_size win))"

definition sliding_window_first_char :: "sliding_window \<Rightarrow> byte" where
  "sliding_window_first_char win = sliding_window_ref win (sw_offset win)"

definition sliding_window_last_char :: "sliding_window \<Rightarrow> byte" where
  "sliding_window_last_char win = sliding_window_ref win (sw_offset win + sw_window_size win - 1)"

definition sliding_window_unfull :: "sliding_window \<Rightarrow> bool" where
  "sliding_window_unfull win =
    (if 0 < sw_size1 win then sw_size1 win < sw_offset win
     else if 0 < sw_size0 win then 0 < sw_offset win \<or> sw_size0 win < sw_window_size win
     else True)"

text \<open>The destination is the first (\<open>False\<close>) or the second (\<open>True\<close>) subwindow of the new window.\<close>

definition sliding_window_dest_buffer :: "sliding_window \<Rightarrow> bool \<times> nat \<times> sliding_window" where
  "sliding_window_dest_buffer win =
    (if sw_size0 win = 0 then (False, sw_size0 win, win)
     else if sw_size1 win = 0 then (True, sw_size1 win, win)
     else (True, sw_size0 win,
       win\<lparr>sw_first := sw_second win, sw_second := sw_first win, sw_size0 := sw_size1 win,
           sw_offset := sw_offset win mod sw_window_size win\<rparr>))"

definition sliding_window_start_offset :: "sliding_window \<Rightarrow> nat" where
  "sliding_window_start_offset win =
    (let sz = sw_size0 win + sw_size1 win in
     if sw_offset win < sz then sw_offset win else if sz \<noteq> 0 then sz - 1 else 0)"

definition sliding_window_end_offset :: "sliding_window \<Rightarrow> nat" where
  "sliding_window_end_offset win =
    (let sz = sw_size0 win + sw_size1 win; stop = sw_offset win + sw_window_size win
     in if stop < sz then stop else sz)"

definition sliding_window_skip :: "sliding_window \<Rightarrow> nat \<Rightarrow> sliding_window option" where
  "sliding_window_skip win amount =
    (if sw_offset win \<le> 2 * sw_window_size win \<and> 2 * sw_window_size win - sw_offset win < amount then None
     else if sw_size0 win \<le> sw_offset win + amount
     then Some (win\<lparr>sw_offset := sw_offset win + amount - sw_size0 win,
                    sw_first := sw_second win, sw_second := sw_first win,
                    sw_size0 := sw_size1 win, sw_size1 := 0\<rparr>)
     else Some (win\<lparr>sw_offset := sw_offset win + amount\<rparr>))"

definition sliding_window_increment_offset :: "sliding_window \<Rightarrow> sliding_window option" where
  "sliding_window_increment_offset win =
    (if sliding_window_unfull win then None else Some (win\<lparr>sw_offset := sw_offset win + 1\<rparr>))"

text \<open>\<^verbatim>\<open>available\<close> is a \<^verbatim>\<open>size_t\<close> difference; taking more than the subwindow holds is out of bounds.\<close>

definition sliding_window_append_to_buffer :: "sliding_window \<Rightarrow> nat \<Rightarrow> nat \<Rightarrow> bytes \<Rightarrow> bytes option" where
  "sliding_window_append_to_buffer win start_offset sz buffer =
    (if start_offset < sw_window_size win then
       let available = (if start_offset \<le> sw_size0 win then sw_size0 win - start_offset
                        else 2 ^ 64 + sw_size0 win - start_offset);
           amount = (if sz < available then sz else available)
       in if sw_window_size win < start_offset + amount then None
          else let buffer1 = buffer @ take amount (drop start_offset (sw_first win));
                   sz1 = sz - amount
               in if 0 < sz1
                  then Some (buffer1 @ take (if sz1 < sw_size1 win then sz1 else sw_size1 win) (sw_second win))
                  else Some buffer1
     else if 2 * sw_window_size win < start_offset + sz then None
     else Some (buffer @ take sz (drop (start_offset - sw_window_size win) (sw_second win))))"

definition sliding_window_clear :: "sliding_window \<Rightarrow> sliding_window" where
  "sliding_window_clear win = win\<lparr>sw_size0 := 0, sw_size1 := 0, sw_offset := 0\<rparr>"

definition sliding_window_init :: "nat \<Rightarrow> sliding_window" where
  "sliding_window_init sz =
    \<lparr>sw_window_size = sz, sw_first = replicate sz 0, sw_second = replicate sz 0,
     sw_offset = 0, sw_size0 = 0, sw_size1 = 0\<rparr>"

section \<open>The chopper\<close>

definition ANCHOR_PRIME_NUMBER :: "32 word" where
  "ANCHOR_PRIME_NUMBER = 3"

definition ANCHOR_MODULO_MASK :: "32 word" where
  "ANCHOR_MODULO_MASK = 0x3fffffff"

record 's anchor_based_chopper =
  ac_stream :: 's
  ac_window_size :: nat
  ac_magic_fpr_mask :: "32 word"
  ac_prime_to_the_ws :: "32 word"
  ac_window :: sliding_window
  ac_product_cache :: "32 word list"
  ac_first :: bool
  ac_prev_fpr :: "32 word"
  ac_prev_first_char :: byte

primrec prime_power :: "nat \<Rightarrow> 32 word" where
  "prime_power 0 = 1"
| "prime_power (Suc i) = prime_power i * ANCHOR_PRIME_NUMBER"

text \<open>The fields the constructor does not set are \<open>junk\<close>.\<close>

definition chop_anchor_based_chopper_init ::
  "32 word \<times> byte \<Rightarrow> 's \<Rightarrow> nat \<Rightarrow> 64 word \<Rightarrow> 's anchor_based_chopper" where
  "chop_anchor_based_chopper_init junk input window_size magic_fpr_mask =
    \<lparr>ac_stream = input, ac_window_size = window_size, ac_magic_fpr_mask = ucast magic_fpr_mask,
     ac_prime_to_the_ws = prime_power window_size, ac_window = sliding_window_init window_size,
     ac_product_cache = replicate 256 0, ac_first = True,
     ac_prev_fpr = fst junk, ac_prev_first_char = snd junk\<rparr>"

text \<open>The loop of \<^verbatim>\<open>ab_generic_open\<close>: the shift wraps, so that an average size of \<open>2 ^ 63\<close> or more
  never ends it.\<close>

partial_function (option) power_below :: "64 word \<Rightarrow> 64 word \<Rightarrow> 64 word option" where
  "power_below average_size power_of_two =
    (if push_bit 1 power_of_two \<le> average_size then power_below average_size (push_bit 1 power_of_two)
     else Some power_of_two)"

declare power_below.simps [code]

definition ab_generic_open ::
  "32 word \<times> byte \<Rightarrow> 's \<Rightarrow> 64 word \<Rightarrow> 's anchor_based_chopper option" where
  "ab_generic_open junk input average_size =
    map_option (chop_anchor_based_chopper_init junk input 48)
      (if average_size = 0 then Some 0x1fff
       else map_option (\<lambda>p. p - 1) (power_below average_size 1))"

section \<open>Fingerprints\<close>

definition multiply_with_prime_to_the_ws ::
  "'s anchor_based_chopper \<Rightarrow> byte \<Rightarrow> 32 word \<times> 's anchor_based_chopper" where
  "multiply_with_prime_to_the_ws anchor what =
    (if what = 0 then (0, anchor)
     else let idx = unat what; cached = ac_product_cache anchor ! idx in
       if cached = 0
       then let result = ucast what * ac_prime_to_the_ws anchor
            in (result, anchor\<lparr>ac_product_cache := (ac_product_cache anchor)[idx := result]\<rparr>)
       else (cached, anchor))"

definition compute_next_window_fingerprint ::
  "'s anchor_based_chopper \<Rightarrow> byte \<Rightarrow> byte \<Rightarrow> 32 word \<Rightarrow> 32 word \<times> 's anchor_based_chopper" where
  "compute_next_window_fingerprint anchor first_char last_char fpr =
    (case multiply_with_prime_to_the_ws anchor (ac_prev_first_char anchor) of
       (product, anchor') \<Rightarrow>
         let fpr' = (fpr * ANCHOR_PRIME_NUMBER - product + ucast last_char) AND ANCHOR_MODULO_MASK
         in (fpr', anchor'\<lparr>ac_prev_first_char := first_char, ac_prev_fpr := fpr'\<rparr>))"

text \<open>\<^verbatim>\<open>ITERATE_OVER_SUBWINDOW\<close>, over the bytes in the order of the traversal, from the last one: the
  fingerprint, the last character seen, the power of the prime and \<^verbatim>\<open>total\<close>.\<close>

fun iterate_over_subwindow ::
  "bytes \<Rightarrow> 32 word \<times> byte \<times> 32 word \<times> nat \<Rightarrow> 32 word \<times> byte \<times> 32 word \<times> nat" where
  "iterate_over_subwindow [] st = st"
| "iterate_over_subwindow (p # ps) (fpr, first_char, pp, remaining) =
    (let st = ((fpr + ucast p * pp) AND ANCHOR_MODULO_MASK, p, pp * ANCHOR_PRIME_NUMBER, remaining - 1)
     in if remaining - 1 = 0 then st else iterate_over_subwindow ps st)"

definition compute_window_fingerprint ::
  "'s anchor_based_chopper \<Rightarrow> sliding_window \<Rightarrow> (32 word \<times> 's anchor_based_chopper) option" where
  "compute_window_fingerprint anchor win =
    (let start = sliding_window_start_offset win;
         st0 = (0, 0, 1, ac_window_size anchor);
         st1 = (if 0 < start \<and> 0 < sw_size1 win
                then iterate_over_subwindow (rev (take start (sw_second win))) st0 else st0);
         st2 = (if 0 < snd (snd (snd st1))
                then iterate_over_subwindow (rev (drop start (take (sw_size0 win) (sw_first win)))) st1 else st1)
     in case st2 of (fpr, first_char, pp, remaining) \<Rightarrow>
          if sliding_window_unfull win \<or> remaining = 0
          then Some (fpr, anchor\<lparr>ac_prev_first_char := first_char\<rparr>) else None)"

section \<open>Reading a block\<close>

text \<open>\<^verbatim>\<open>read_sliding_window\<close> reads as the fixed-size chopper does, into the old contents \<open>buffer\<close>.\<close>

definition read_sliding_window ::
  "'s stream_read \<Rightarrow> nat \<Rightarrow> bytes \<Rightarrow> 's \<Rightarrow> (chop_error \<times> bytes \<times> nat \<times> 's) option" where
  "read_sliding_window rd window_size buffer s =
    Option.bind (fixed_fill rd window_size CHOP_OK [] s) (\<lambda>(err, bs, s').
      let n = length bs;
          padded = (if (err = CHOP_OK \<or> err = CHOP_STREAM_END) \<and> n < window_size
                    then bs @ replicate (window_size - n) 0 else bs @ drop n buffer)
      in Some (if err = CHOP_STREAM_END \<and> 0 < n then CHOP_OK else err, padded, n, s'))"

definition IS_ANCHOR_FINGERPRINT :: "32 word \<Rightarrow> 32 word \<Rightarrow> bool" where
  "IS_ANCHOR_FINGERPRINT magic_fpr_mask fpr \<longleftrightarrow> fpr AND magic_fpr_mask = 0"

text \<open>Reloading a window that is unfull: flush what is about to be overwritten, then read.  It gives
  the code, the chopper, the buffer and the start offset.\<close>

definition anchor_reload ::
  "'s stream_read \<Rightarrow> 's anchor_based_chopper \<Rightarrow> bytes \<Rightarrow> nat
     \<Rightarrow> (chop_error \<times> 's anchor_based_chopper \<times> bytes \<times> nat) option" where
  "anchor_reload rd anchor buffer start_offset =
    (case sliding_window_dest_buffer (ac_window anchor) of (second, discarded, win) \<Rightarrow>
      let dest = (if second then sw_second win else sw_first win) in
      if 0 < discarded \<and> discarded < start_offset then None
      else
        let buffer' = (if 0 < discarded then buffer @ take (discarded - start_offset) (drop start_offset dest)
                       else buffer);
            start_offset' = (if 0 < discarded then 0 else start_offset)
        in Option.bind (read_sliding_window rd (ac_window_size anchor) dest (ac_stream anchor))
             (\<lambda>(err, dest', n, s').
               let win' = (if second then win\<lparr>sw_second := dest', sw_size1 := n\<rparr>
                           else win\<lparr>sw_first := dest', sw_size0 := n\<rparr>)
               in Some (err, anchor\<lparr>ac_window := win', ac_stream := s'\<rparr>, buffer', start_offset')))"

text \<open>One fingerprint, from scratch for the first window of a block.\<close>

definition anchor_fingerprint ::
  "'s anchor_based_chopper \<Rightarrow> bool \<Rightarrow> 32 word \<Rightarrow> (32 word \<times> 's anchor_based_chopper) option" where
  "anchor_fingerprint anchor is_first window_fpr =
    (let win = ac_window anchor in
     if is_first then compute_window_fingerprint anchor win
     else Some (compute_next_window_fingerprint anchor (sliding_window_first_char win)
                 (sliding_window_last_char win) window_fpr))"

datatype anchor_exit = Anchor_Break | Anchor_Return

text \<open>The \<^verbatim>\<open>while (1)\<close> loop, left by \<^verbatim>\<open>break\<close> or by \<^verbatim>\<open>return\<close>.\<close>

partial_function (option) anchor_loop ::
  "'s stream_read \<Rightarrow> 's anchor_based_chopper \<Rightarrow> bytes \<Rightarrow> nat \<Rightarrow> bool \<Rightarrow> 32 word
     \<Rightarrow> (anchor_exit \<times> chop_error \<times> 's anchor_based_chopper \<times> bytes \<times> nat) option" where
  "anchor_loop rd anchor0 buffer0 start0 is_first window_fpr =
    Option.bind
      (if sliding_window_unfull (ac_window anchor0) then anchor_reload rd anchor0 buffer0 start0
       else Some (CHOP_OK, anchor0, buffer0, start0)) (\<lambda>(err, anchor, buffer, start_offset).
      if err = CHOP_STREAM_END then Some (Anchor_Break, err, anchor, buffer, start_offset)
      else if err \<noteq> CHOP_OK then Some (Anchor_Return, err, anchor, buffer, start_offset)
      else if sliding_window_unfull (ac_window anchor)
      then anchor_loop rd anchor buffer start_offset is_first window_fpr
      else Option.bind (anchor_fingerprint anchor is_first window_fpr) (\<lambda>(fpr, anchor1).
        let win = ac_window anchor1;
            amount = sliding_window_end_offset win - start_offset
        in if IS_ANCHOR_FINGERPRINT (ac_magic_fpr_mask anchor1) fpr
             \<and> sliding_window_end_offset win < start_offset then None
           else if IS_ANCHOR_FINGERPRINT (ac_magic_fpr_mask anchor1) fpr \<and> amount \<noteq> 0
           then Option.bind (sliding_window_append_to_buffer win start_offset amount buffer) (\<lambda>buffer'.
             Option.bind (sliding_window_skip win (sw_window_size win)) (\<lambda>win'.
               Some (Anchor_Break, CHOP_OK, anchor1\<lparr>ac_window := win'\<rparr>, buffer', start_offset)))
           else Option.bind (sliding_window_increment_offset win) (\<lambda>win'.
             anchor_loop rd (anchor1\<lparr>ac_window := win'\<rparr>) buffer start_offset False fpr)))"

declare anchor_loop.simps [code]

definition chop_anchor_chopper_read_block :: "'s stream_read \<Rightarrow> 's anchor_based_chopper read_block" where
  "chop_anchor_chopper_read_block rd anchor0 buffer0 =
    (let anchor = anchor0\<lparr>ac_first := False\<rparr> in
     Option.bind (anchor_loop rd anchor [] (sw_offset (ac_window anchor)) True 0)
       (\<lambda>(exit, err, anchor', buffer, start_offset).
         if exit = Anchor_Return then Some ((err, buffer, 0), anchor')
         else if err = CHOP_STREAM_END then
           let win = ac_window anchor' in
           if sliding_window_end_offset win < start_offset then None
           else Option.bind (sliding_window_append_to_buffer win start_offset
                  (sliding_window_end_offset win - start_offset) buffer) (\<lambda>buffer'.
             Some ((if buffer' = [] then CHOP_STREAM_END else CHOP_OK, buffer', length buffer'),
                   anchor'\<lparr>ac_window := sliding_window_clear win\<rparr>))
         else Some ((err, buffer, length buffer), anchor')))"

end
