(* ===== verification/Chop_Anchor_Correct.thy ===== *)
theory Chop_Anchor_Correct
  imports Chop_Anchor
begin

text \<open>
  Correctness of the anchor-based chopper: the incremental fingerprint is the fingerprint of
  the current window, and the blocks read are those that a search for the first anchor from
  scratch cuts off.  The chopper meets the contract \<open>block_source\<close> for window sizes of at
  least two bytes.
\<close>

section \<open>Fingerprints as polynomials\<close>

definition poly_value :: "bytes \<Rightarrow> 32 word" where
  "poly_value bs = foldl (\<lambda>f b. 3 * f + ucast b) 0 bs"

definition fingerprint :: "bytes \<Rightarrow> 32 word" where
  "fingerprint bs = poly_value bs AND ANCHOR_MODULO_MASK"

lemma modulo_mask: "x AND ANCHOR_MODULO_MASK = take_bit 30 x"
proof -
  have "ANCHOR_MODULO_MASK = mask 30" by (simp add: ANCHOR_MODULO_MASK_def mask_eq_exp_minus_1)
  then show ?thesis by (simp add: take_bit_eq_mask)
qed

lemma take_bit_add_word: "take_bit n (take_bit n x + y) = take_bit n (x + y :: 'a::len word)"
  by transfer (metis min.idem min.left_commute take_bit_add take_bit_take_bit)

lemma take_bit_mult_word: "take_bit n (take_bit n x * y) = take_bit n (x * y :: 'a::len word)"
  by transfer (metis min.idem min.left_commute take_bit_mult take_bit_take_bit)

lemma poly_value_simps [simp]:
  "poly_value [] = 0" "poly_value (bs @ [c]) = 3 * poly_value bs + ucast c"
  by (simp_all add: poly_value_def)

lemma poly_value_single [simp]: "poly_value [b] = ucast b"
  by (simp add: poly_value_def)

lemma poly_value_Cons: "poly_value (b # bs) = ucast b * 3 ^ length bs + poly_value bs"
  by (induction bs rule: rev_induct) (simp_all add: poly_value_simps(2) [of "b # _", simplified] algebra_simps)

lemma prime_power_eq: "prime_power n = 3 ^ n"
  by (induction n) (simp_all add: ANCHOR_PRIME_NUMBER_def)

text \<open>Sliding the window by one byte.\<close>

lemma fingerprint_slide:
  "(fingerprint (b # bs) * ANCHOR_PRIME_NUMBER - ucast b * 3 ^ Suc (length bs) + ucast c) AND ANCHOR_MODULO_MASK
    = fingerprint (bs @ [c])"
proof -
  let ?r = "ucast c - ucast b * 3 ^ Suc (length bs) :: 32 word"
  have "take_bit 30 (take_bit 30 (poly_value (b # bs)) * 3 + ?r) = take_bit 30 (poly_value (b # bs) * 3 + ?r)"
    by (metis take_bit_add_word take_bit_mult_word)
  also have "poly_value (b # bs) * 3 + ?r = poly_value (bs @ [c])"
    by (simp add: poly_value_Cons algebra_simps)
  finally show ?thesis
    by (simp add: fingerprint_def modulo_mask ANCHOR_PRIME_NUMBER_def algebra_simps)
qed

text \<open>The traversal from the last byte.\<close>

lemma iterate_spec:
  assumes "length ps < remaining \<or> ps \<noteq> [] \<and> length ps = remaining"
  shows "iterate_over_subwindow ps (take_bit 30 v, fc, pp, remaining)
    = (take_bit 30 (v + poly_value (rev ps) * pp), if ps = [] then fc else last ps, pp * 3 ^ length ps,
       remaining - length ps)"
  using assms
proof (induction ps arbitrary: v fc pp remaining)
  case (Cons p ps)
  have v: "take_bit 30 (take_bit 30 v + ucast p * pp) = take_bit 30 (v + ucast p * pp)"
    by (rule take_bit_add_word)
  show ?case
  proof (cases "remaining = 1")
    case True
    with Cons.prems v show ?thesis by (simp add: modulo_mask ANCHOR_PRIME_NUMBER_def poly_value_def)
  next
    case False
    with Cons.prems have "length ps < remaining - 1 \<or> ps \<noteq> [] \<and> length ps = remaining - 1" by auto
    from Cons.IH [OF this] False Cons.prems v show ?thesis
      by (auto simp: modulo_mask ANCHOR_PRIME_NUMBER_def Let_def algebra_simps)
  qed
qed (simp add: poly_value_def)

lemma poly_value_append: "poly_value (xs @ ys) = poly_value xs * 3 ^ length ys + poly_value ys"
  by (induction xs) (simp_all add: poly_value_Cons algebra_simps power_add)

section \<open>Cutting at the first anchor\<close>

definition anchor_at :: "nat \<Rightarrow> 32 word \<Rightarrow> bytes \<Rightarrow> nat \<Rightarrow> bool" where
  "anchor_at ws magic data p \<longleftrightarrow>
    p + ws \<le> length data \<and> IS_ANCHOR_FINGERPRINT magic (fingerprint (take ws (drop p data)))"

function find_anchor :: "nat \<Rightarrow> 32 word \<Rightarrow> bytes \<Rightarrow> nat \<Rightarrow> nat" where
  "find_anchor ws magic data p =
    (if length data < p + ws \<or> ws = 0 then length data
     else if anchor_at ws magic data p then p + ws
     else find_anchor ws magic data (p + 1))"
  by auto
termination by (relation "measure (\<lambda>(ws, magic, data, p). length data - p)") auto

declare find_anchor.simps [simp del]

lemma find_anchor_bounds: "p \<le> length data \<Longrightarrow> data \<noteq> [] \<Longrightarrow>
  0 < find_anchor ws magic data p \<and> find_anchor ws magic data p \<le> length data"
  by (induction ws magic data p rule: find_anchor.induct) (subst find_anchor.simps, auto simp: find_anchor.simps)

function anchor_blocks :: "nat \<Rightarrow> 32 word \<Rightarrow> bytes \<Rightarrow> bytes list" where
  "anchor_blocks ws magic data =
    (if data = [] then []
     else let n = find_anchor ws magic data 0 in take n data # anchor_blocks ws magic (drop n data))"
  by auto
termination
  by (relation "measure (\<lambda>(ws, magic, data). length data)") (auto simp: find_anchor_bounds)

declare anchor_blocks.simps [simp del]

lemma anchor_blocks_Nil [simp]: "anchor_blocks ws magic [] = []"
  by (simp add: anchor_blocks.simps)

lemma concat_anchor_blocks: "concat (anchor_blocks ws magic data) = data"
  by (induction ws magic data rule: anchor_blocks.induct) (subst anchor_blocks.simps, simp add: Let_def)

lemma anchor_blocks_nonempty: "[] \<notin> set (anchor_blocks ws magic data)"
  by (induction ws magic data rule: anchor_blocks.induct)
     (subst anchor_blocks.simps, use find_anchor_bounds [of 0] in \<open>auto simp: Let_def\<close>)

text \<open>Where the search stands when no window before \<open>p\<close> is an anchor.\<close>

lemma find_anchor_from:
  assumes "\<forall>q<p. \<not> anchor_at ws magic data q" "0 < ws" "p + ws \<le> length data + 1"
  shows "find_anchor ws magic data 0 = find_anchor ws magic data p"
  using assms
proof (induction p)
  case (Suc p)
  then have "find_anchor ws magic data 0 = find_anchor ws magic data p" by simp
  also have "\<dots> = find_anchor ws magic data (Suc p)"
    using Suc.prems by (subst find_anchor.simps) simp
  finally show ?case .
qed simp

lemma find_anchor_none:
  "\<forall>q. \<not> anchor_at ws magic data q \<Longrightarrow> find_anchor ws magic data p = length data"
  by (induction ws magic data p rule: find_anchor.induct) (subst find_anchor.simps, simp)

lemma find_anchor_first:
  assumes "\<forall>q<p. \<not> anchor_at ws magic data q" "anchor_at ws magic data p" "0 < ws"
  shows "find_anchor ws magic data 0 = p + ws"
proof -
  have "find_anchor ws magic data 0 = find_anchor ws magic data p"
    using assms by (intro find_anchor_from) (auto simp: anchor_at_def)
  with assms(2,3) show ?thesis by (subst (asm) (2) find_anchor.simps) (simp add: anchor_at_def)
qed

section \<open>Windows\<close>

definition window_bytes :: "sliding_window \<Rightarrow> bytes" where
  "window_bytes win = take (sw_size0 win) (sw_first win) @ take (sw_size1 win) (sw_second win)"

text \<open>A subwindow is shorter than it could be only at the end of the stream (\<open>ended\<close>).\<close>

definition window_ok :: "nat \<Rightarrow> bool \<Rightarrow> sliding_window \<Rightarrow> bool" where
  "window_ok ws ended win \<longleftrightarrow> sw_window_size win = ws
    \<and> length (sw_first win) = ws \<and> length (sw_second win) = ws
    \<and> sw_size0 win \<le> ws \<and> sw_size1 win \<le> ws
    \<and> (0 < sw_size1 win \<longrightarrow> sw_size0 win = ws)
    \<and> (0 < sw_size0 win \<and> sw_size0 win < ws \<longrightarrow> ended)
    \<and> (0 < sw_size1 win \<and> sw_size1 win < ws \<longrightarrow> ended)
    \<and> sw_offset win \<le> sw_size0 win + sw_size1 win
    \<and> (sw_offset win \<le> ws \<or> sw_offset win = ws + 1 \<and> sw_size1 win = ws)"

lemma length_window_bytes [simp]:
  "window_ok ws ended win \<Longrightarrow> length (window_bytes win) = sw_size0 win + sw_size1 win"
  by (auto simp: window_ok_def window_bytes_def min_def)

lemma window_full:
  assumes "window_ok ws ended win" "\<not> sliding_window_unfull win" "0 < ws"
  shows "sw_size0 win = ws" "sw_offset win \<le> sw_size1 win" "sw_offset win \<le> ws"
    "take ws (drop (sw_offset win) (window_bytes win))
       = drop (sw_offset win) (sw_first win) @ take (sw_offset win) (sw_second win)"
proof -
  show s: "sw_size0 win = ws" "sw_offset win \<le> sw_size1 win" "sw_offset win \<le> ws"
    using assms by (auto simp: window_ok_def sliding_window_unfull_def split: if_splits)
  then show "take ws (drop (sw_offset win) (window_bytes win))
       = drop (sw_offset win) (sw_first win) @ take (sw_offset win) (sw_second win)"
    using assms(1) by (simp add: window_bytes_def window_ok_def min_absorb1)
qed

lemma window_offset [simp]:
  "window_bytes (win\<lparr>sw_offset := k\<rparr>) = window_bytes win"
  "sliding_window_append_to_buffer (win\<lparr>sw_offset := k\<rparr>) = sliding_window_append_to_buffer win"
  unfolding fun_eq_iff window_bytes_def sliding_window_append_to_buffer_def
  by (cases win; simp only: sliding_window.simps; simp)+

lemma append_window:
  assumes "window_ok ws ended win" "start + amount \<le> sw_size0 win + sw_size1 win" "start \<le> sw_size0 win"
  shows "sliding_window_append_to_buffer win start amount buffer
    = Some (buffer @ take amount (drop start (window_bytes win)))"
proof (cases "start < ws")
  case True
  let ?m = "sw_size0 win - start"
  have ws: "sw_window_size win = ws" "length (sw_first win) = ws" "sw_size0 win \<le> ws"
    using assms(1) by (simp_all add: window_ok_def)
  have bytes: "take amount (drop start (window_bytes win))
      = take amount (drop start (take (sw_size0 win) (sw_first win))) @ take (amount - ?m) (take (sw_size1 win) (sw_second win))"
    using assms(3) ws by (simp add: window_bytes_def)
  show ?thesis
  proof (cases "amount < ?m")
    case True
    then have "start + amount \<le> ws" using ws(3) by simp
    with True \<open>start < ws\<close> assms(3) ws(1) show ?thesis
      unfolding bytes by (simp add: sliding_window_append_to_buffer_def Let_def drop_take min_absorb1)
  next
    case False
    then have "amount - ?m \<le> sw_size1 win" "start + ?m \<le> ws" using assms(2,3) ws(3) by auto
    with False \<open>start < ws\<close> assms(3) ws(1) show ?thesis
      unfolding bytes by (simp add: sliding_window_append_to_buffer_def Let_def drop_take min_absorb1 min_absorb2)
  qed
next
  case False
  with assms have "start = ws" "sw_size0 win = ws" by (auto simp: window_ok_def)
  with assms show ?thesis
    by (auto simp: sliding_window_append_to_buffer_def window_ok_def window_bytes_def min_def)
qed

lemma window_fingerprint:
  assumes "window_ok ws ended win" "\<not> sliding_window_unfull win" "0 < ws" "ac_window_size anchor = ws"
  defines "w \<equiv> take ws (drop (sw_offset win) (window_bytes win))"
  shows "compute_window_fingerprint anchor win = Some (fingerprint w, anchor\<lparr>ac_prev_first_char := hd w\<rparr>)"
proof -
  note f = window_full [OF assms(1-3)]
  let ?o = "sw_offset win" and ?a = "drop (sw_offset win) (sw_first win)"
    and ?b = "take (sw_offset win) (sw_second win)"
  have len: "length ?a = ws - ?o" "length ?b = ?o" using assms(1) f by (auto simp: window_ok_def)
  have start: "sliding_window_start_offset win = ?o"
    using f assms(3) by (simp add: sliding_window_start_offset_def)
  have first: "take (sw_size0 win) (sw_first win) = sw_first win"
    using assms(1) f(1) by (simp add: window_ok_def)
  have fpr: "take_bit 30 (poly_value ?b + poly_value ?a * 3 ^ ?o) = fingerprint w"
    unfolding w_def f(4) fingerprint_def modulo_mask poly_value_append len(2) by (simp add: add.commute)
  let ?st0 = "(0, 0, 1, ws) :: 32 word \<times> byte \<times> 32 word \<times> nat"
  define st1 where "st1 = (if 0 < ?o \<and> 0 < sw_size1 win then iterate_over_subwindow (rev ?b) ?st0 else ?st0)"
  obtain fc where st1: "st1 = (take_bit 30 (poly_value ?b), fc, 3 ^ ?o, ws - ?o)"
    and fc: "?a = [] \<Longrightarrow> fc = hd ?b"
  proof (cases "?o = 0")
    case True
    with that [of 0] len assms(3) show thesis by (cases "sw_first win") (auto simp: st1_def)
  next
    case False
    with f(2,3) len(2) have "iterate_over_subwindow (rev ?b) (take_bit 30 0, 0, 1, ws)
        = (take_bit 30 (poly_value ?b), last (rev ?b), 3 ^ ?o, ws - ?o)"
      by (subst iterate_spec) auto
    with that [of "last (rev ?b)"] False f(2) show thesis by (auto simp: st1_def last_rev)
  qed
  have "(if 0 < snd (snd (snd st1)) then iterate_over_subwindow (rev ?a) st1 else st1)
      = (fingerprint w, hd w, 3 ^ ws, 0)"
  proof (cases "?o = ws")
    case True
    with st1 fc len fpr f(4) show ?thesis by (simp add: w_def)
  next
    case False
    then have ne: "?a \<noteq> []" "?o < ws" using len f(3) by auto
    then have "iterate_over_subwindow (rev ?a) st1
        = (take_bit 30 (poly_value ?b + poly_value ?a * 3 ^ ?o), last (rev ?a), 3 ^ ?o * 3 ^ (ws - ?o), 0)"
      using len(1) by (simp add: st1 iterate_spec)
    moreover have "(3::32 word) ^ ?o * 3 ^ (ws - ?o) = 3 ^ ws" using f(3) by (simp flip: power_add)
    ultimately show ?thesis using ne fpr f(4) by (simp add: st1 w_def last_rev)
  qed
  then show ?thesis
    unfolding compute_window_fingerprint_def Let_def start first assms(4) st1_def [symmetric] by simp
qed

section \<open>The chopper's own state\<close>

definition chopper_ok :: "nat \<Rightarrow> 32 word \<Rightarrow> 's anchor_based_chopper \<Rightarrow> bool" where
  "chopper_ok ws magic anchor \<longleftrightarrow> ac_window_size anchor = ws \<and> ac_magic_fpr_mask anchor = magic
    \<and> ac_prime_to_the_ws anchor = 3 ^ ws \<and> length (ac_product_cache anchor) = 256
    \<and> (\<forall>i<256. ac_product_cache anchor ! i \<in> {0, of_nat i * 3 ^ ws})"

lemma multiply_spec:
  assumes "chopper_ok ws magic anchor"
  obtains anchor' where "multiply_with_prime_to_the_ws anchor b = (ucast b * 3 ^ ws, anchor')"
    "chopper_ok ws magic anchor'" "ac_window anchor' = ac_window anchor" "ac_stream anchor' = ac_stream anchor"
proof (cases "b \<noteq> 0 \<and> ac_product_cache anchor ! unat b = 0")
  case True
  let ?a = "anchor\<lparr>ac_product_cache := (ac_product_cache anchor)[unat b := ucast b * 3 ^ ws]\<rparr>"
  have "chopper_ok ws magic ?a"
    using assms by (auto simp: chopper_ok_def nth_list_update)
  with True assms show thesis
    by (intro that [of ?a]) (auto simp: multiply_with_prime_to_the_ws_def chopper_ok_def Let_def)
next
  case False
  have "ac_product_cache anchor ! unat b \<in> {0, ucast b * 3 ^ ws}"
    using assms unat_byte_less [of b] unfolding chopper_ok_def by (metis of_nat_unat)
  with False assms show thesis
    by (intro that [of anchor]) (auto simp: multiply_with_prime_to_the_ws_def Let_def)
qed

text \<open>The fingerprint of a full window whose predecessor, if any, started with
  \<^verbatim>\<open>prev_first_char\<close>: both ways of computing it give the fingerprint of the bytes.\<close>

lemma fingerprint_step:
  assumes "chopper_ok ws magic anchor" "window_ok ws ended (ac_window anchor)"
    and "\<not> sliding_window_unfull (ac_window anchor)" "0 < ws"
    and w: "w = take ws (drop (sw_offset (ac_window anchor)) (window_bytes (ac_window anchor)))"
    and prev: "\<not> is_first \<Longrightarrow> \<exists>bs. fpr = fingerprint (ac_prev_first_char anchor # bs) \<and> bs = butlast w"
  obtains anchor' where "anchor_fingerprint anchor is_first fpr = Some (fingerprint w, anchor')"
    "chopper_ok ws magic anchor'" "ac_prev_first_char anchor' = hd w"
    "ac_window anchor' = ac_window anchor" "ac_stream anchor' = ac_stream anchor"
proof (cases is_first)
  case True
  have "ac_window_size anchor = ws" using assms(1) by (simp add: chopper_ok_def)
  from window_fingerprint [OF assms(2-4) this] w True assms(1) show thesis
    by (intro that [of "anchor\<lparr>ac_prev_first_char := hd w\<rparr>"])
       (auto simp: anchor_fingerprint_def chopper_ok_def)
next
  case False
  let ?win = "ac_window anchor"
  note f = window_full [OF assms(2-4)]
  have len: "length (sw_first ?win) = ws" "length (sw_second ?win) = ws" "sw_window_size ?win = ws"
    using assms(2) by (simp_all add: window_ok_def)
  have w': "w = take ws (drop (sw_offset ?win) (sw_first ?win @ sw_second ?win))"
    unfolding w f(4) using len f(3) by (simp add: min_absorb1)
  then have lw: "length w = ws" using len f(3) by simp
  then obtain cs c where cs: "w = cs @ [c]" using assms(4) by (metis append_butlast_last_id length_greater_0_conv)
  have "hd w = w ! 0" using lw assms(4) by (intro hd_conv_nth) auto
  then have first: "sliding_window_first_char ?win = hd w"
    using len f(3) assms(4)
    by (simp add: w' sliding_window_first_char_def sliding_window_ref_def del: drop_append)
  have "sliding_window_last_char ?win = w ! (ws - 1)"
    using len f(3) assms(4)
    by (simp add: w' sliding_window_last_char_def sliding_window_ref_def del: drop_append)
  moreover have "ws - 1 = length cs" using lw cs by simp
  ultimately have last: "sliding_window_last_char ?win = c" using cs by simp
  obtain a where a: "multiply_with_prime_to_the_ws anchor (ac_prev_first_char anchor)
      = (ucast (ac_prev_first_char anchor) * 3 ^ ws, a)" "chopper_ok ws magic a"
      "ac_window a = ?win" "ac_stream a = ac_stream anchor"
    using multiply_spec [OF assms(1)] .
  have "ws = Suc (length cs)" using lw cs by simp
  moreover have "fpr = fingerprint (ac_prev_first_char anchor # cs)" using prev [OF False] cs by simp
  ultimately show thesis
    using False cs first last a fingerprint_slide [of "ac_prev_first_char anchor" cs c]
    by (intro that [of "a\<lparr>ac_prev_first_char := hd w, ac_prev_fpr := fingerprint w\<rparr>"])
       (auto simp: anchor_fingerprint_def compute_next_window_fingerprint_def Let_def chopper_ok_def)
qed

section \<open>The loop\<close>

context chopped_stream
begin

text \<open>In the loop, \<open>data\<close> is what the block and all later ones consist of, the current window starts
  at \<open>pos\<close> in it, and no window before is an anchor.\<close>

definition loop_inv :: "nat \<Rightarrow> 32 word \<Rightarrow> bytes \<Rightarrow> 's anchor_based_chopper \<Rightarrow> bytes \<Rightarrow> nat \<Rightarrow> nat
    \<Rightarrow> bool \<Rightarrow> 32 word \<Rightarrow> bool" where
  "loop_inv ws magic data anchor buffer start pos is_first fpr \<longleftrightarrow>
    inv (ac_stream anchor) \<and> chopper_ok ws magic anchor
    \<and> window_ok ws (rest (ac_stream anchor) = []) (ac_window anchor)
    \<and> start \<le> sw_offset (ac_window anchor) \<and> start \<le> sw_size0 (ac_window anchor)
    \<and> data = buffer @ drop start (window_bytes (ac_window anchor)) @ rest (ac_stream anchor)
    \<and> pos = length buffer + (sw_offset (ac_window anchor) - start)
    \<and> (\<forall>q<pos. \<not> anchor_at ws magic data q)
    \<and> (\<not> is_first \<longrightarrow> 0 < pos \<and> fpr = fingerprint (take ws (drop (pos - 1) data))
          \<and> ac_prev_first_char anchor = data ! (pos - 1))"

lemma loop_invD:
  assumes "loop_inv ws magic data anchor buffer start pos is_first fpr"
  shows "inv (ac_stream anchor)" "chopper_ok ws magic anchor"
    "window_ok ws (rest (ac_stream anchor) = []) (ac_window anchor)"
    "start \<le> sw_offset (ac_window anchor)" "start \<le> sw_size0 (ac_window anchor)"
    "data = buffer @ drop start (window_bytes (ac_window anchor)) @ rest (ac_stream anchor)"
    "pos = length buffer + (sw_offset (ac_window anchor) - start)"
    "\<forall>q<pos. \<not> anchor_at ws magic data q"
    "\<not> is_first \<Longrightarrow> 0 < pos \<and> fpr = fingerprint (take ws (drop (pos - 1) data))
          \<and> ac_prev_first_char anchor = data ! (pos - 1)"
  using assms unfolding loop_inv_def by blast+

lemma loop_inv_moved:
  assumes "loop_inv ws magic data anchor buffer start pos is_first fpr"
    and "inv (ac_stream a)" "chopper_ok ws magic a" "window_ok ws (rest (ac_stream a) = []) (ac_window a)"
    and "start' \<le> sw_offset (ac_window a)" "start' \<le> sw_size0 (ac_window a)"
    and "buffer @ drop start (window_bytes (ac_window anchor)) @ rest (ac_stream anchor)
      = buffer' @ drop start' (window_bytes (ac_window a)) @ rest (ac_stream a)"
    and "length buffer + (sw_offset (ac_window anchor) - start) = length buffer' + (sw_offset (ac_window a) - start')"
    and "ac_prev_first_char a = ac_prev_first_char anchor"
  shows "loop_inv ws magic data a buffer' start' pos is_first fpr"
  using loop_invD [OF assms(1)] assms(2-9) unfolding loop_inv_def by metis

text \<open>Where a block starts.\<close>

definition anchor_inv :: "nat \<Rightarrow> 32 word \<Rightarrow> 's anchor_based_chopper \<Rightarrow> bool" where
  "anchor_inv ws magic anchor \<longleftrightarrow> inv (ac_stream anchor) \<and> chopper_ok ws magic anchor
    \<and> window_ok ws (rest (ac_stream anchor) = []) (ac_window anchor)
    \<and> sw_size1 (ac_window anchor) = 0"

definition anchor_rest :: "'s anchor_based_chopper \<Rightarrow> bytes" where
  "anchor_rest anchor = drop (sw_offset (ac_window anchor)) (window_bytes (ac_window anchor))
     @ rest (ac_stream anchor)"

text \<open>How the loop ends: with a block cut at the first anchor, or at the end of the stream with all of
  the data, partly in the window.\<close>

definition loop_cuts :: "nat \<Rightarrow> 32 word \<Rightarrow> bytes
    \<Rightarrow> (anchor_exit \<times> chop_error \<times> 's anchor_based_chopper \<times> bytes \<times> nat) option \<Rightarrow> bool" where
  "loop_cuts ws magic data r \<longleftrightarrow>
    (\<exists>err anchor buffer start. r = Some (Anchor_Break, err, anchor, buffer, start) \<and>
      (err = CHOP_OK \<and> anchor_inv ws magic anchor \<and> data \<noteq> []
         \<and> buffer = take (find_anchor ws magic data 0) data
         \<and> anchor_rest anchor = drop (find_anchor ws magic data 0) data
       \<or> err = CHOP_STREAM_END \<and> inv (ac_stream anchor) \<and> rest (ac_stream anchor) = []
         \<and> chopper_ok ws magic anchor \<and> find_anchor ws magic data 0 = length data
         \<and> window_ok ws True ((ac_window anchor)\<lparr>sw_offset := 0\<rparr>)
         \<and> sliding_window_end_offset (ac_window anchor) = length (window_bytes (ac_window anchor))
         \<and> start \<le> sw_size0 (ac_window anchor)
         \<and> data = buffer @ drop start (window_bytes (ac_window anchor))))"

lemma read_window_spec:
  assumes "inv s" "0 < ws" "length old = ws"
  obtains e dest s' where "read_sliding_window rd ws old s = Some (e, dest, min ws (length (rest s)), s')"
    "inv s'" "rest s' = drop ws (rest s)" "length dest = ws"
    "take (min ws (length (rest s))) dest = take ws (rest s)"
    "e = (if rest s = [] then CHOP_STREAM_END else CHOP_OK)"
proof -
  obtain e s' where f: "fixed_fill rd ws CHOP_OK [] s = Some (e, take ws (rest s), s')" "inv s'"
    "rest s' = drop ws (rest s)" "e = CHOP_OK \<or> e = CHOP_STREAM_END \<and> length (rest s) < ws"
    using fixed_fill_spec [OF assms(1), of "[]" ws] by auto
  have e: "rest s = [] \<Longrightarrow> e = CHOP_STREAM_END"
    using f(1) assms read_law [OF assms(1,2)] by (subst (asm) fixed_fill.simps) auto
  let ?d = "if length (rest s) < ws then take ws (rest s) @ replicate (ws - length (rest s)) 0
            else take ws (rest s) @ drop ws old"
  show thesis
  proof (rule that [of _ ?d s'])
    show "read_sliding_window rd ws old s = Some (if rest s = [] then CHOP_STREAM_END else CHOP_OK, ?d,
        min ws (length (rest s)), s')"
      using f e assms(2) by (auto simp: read_sliding_window_def Let_def min_def)
  qed (use f assms in \<open>auto simp: min_def\<close>)
qed

lemma read_window_end:
  assumes "inv s" "0 < ws" "length old = ws" "rest s = []"
  shows "\<exists>dest s'. read_sliding_window rd ws old s = Some (CHOP_STREAM_END, dest, 0, s')
    \<and> inv s' \<and> rest s' = [] \<and> length dest = ws"
  using assms(4) by (rule_tac read_window_spec [OF assms(1-3)]) auto

lemma unfull_short:
  assumes "window_ok ws ended win" "sliding_window_unfull win" "0 < ws"
  shows "sw_size0 win + sw_size1 win < sw_offset win + ws"
  using assms by (auto simp: window_ok_def sliding_window_unfull_def split: if_splits)

lemma loop_no_anchor:
  assumes "loop_inv ws magic data anchor buffer start pos is_first fpr" "0 < ws"
    and "sliding_window_unfull (ac_window anchor)" "rest (ac_stream anchor) = []"
  shows "find_anchor ws magic data 0 = length data"
proof -
  note l = loop_invD [OF assms(1)]
  have "length data = length buffer + (sw_size0 (ac_window anchor) + sw_size1 (ac_window anchor) - start)"
    using l(3,6) assms(4) by simp
  then have "length data < pos + ws"
    using l(4,7) unfull_short [OF l(3) assms(3,2)] assms(2) by linarith
  then have "\<not> anchor_at ws magic data q" for q
    using l(8) by (cases "q < pos") (auto simp: anchor_at_def)
  then show ?thesis by (intro find_anchor_none) simp
qed

text \<open>The window is short and the stream has ended.\<close>

lemma loop_end:
  assumes "loop_inv ws magic data anchor buffer start pos is_first fpr" "0 < ws"
    and "sliding_window_unfull (ac_window anchor)" "rest (ac_stream anchor) = []"
  shows "loop_cuts ws magic data (anchor_loop rd anchor buffer start is_first fpr)"
proof -
  let ?win = "ac_window anchor"
  note l = loop_invD [OF assms(1)]
  note none = loop_no_anchor [OF assms]
  have ok: "window_ok ws True ?win" and ws: "ac_window_size anchor = ws" using l(2,3) assms(4) by (auto simp: chopper_ok_def)
  note short = unfull_short [OF ok assms(3,2)]
  have len: "length (sw_first ?win) = ws" "length (sw_second ?win) = ws" using ok by (auto simp: window_ok_def)
  obtain d1 s1 where r1: "read_sliding_window rd ws (sw_first ?win) (ac_stream anchor) = Some (CHOP_STREAM_END, d1, 0, s1)"
    "inv s1" "rest s1 = []" "length d1 = ws"
    using read_window_end [OF l(1) assms(2) len(1) assms(4)] by blast
  obtain d2 s2 where r2: "read_sliding_window rd ws (sw_second ?win) (ac_stream anchor) = Some (CHOP_STREAM_END, d2, 0, s2)"
    "inv s2" "rest s2 = []" "length d2 = ws"
    using read_window_end [OF l(1) assms(2) len(2) assms(4)] by blast
  consider (empty) "sw_size0 ?win = 0" "sw_size1 ?win = 0" | (one) "sw_size0 ?win \<noteq> 0" "sw_size1 ?win = 0"
    | (two) "sw_size0 ?win = ws" "sw_size1 ?win \<noteq> 0"
    using ok assms(2) by (auto simp: window_ok_def)
  then show ?thesis
  proof cases
    case empty
    have "anchor_loop rd anchor buffer start is_first fpr = Some (Anchor_Break, CHOP_STREAM_END,
        anchor\<lparr>ac_window := ?win\<lparr>sw_first := d1, sw_size0 := 0\<rparr>, ac_stream := s1\<rparr>, buffer, start)"
      using empty assms(3) r1(1) ws
      by (subst anchor_loop.simps) (simp add: anchor_reload_def sliding_window_dest_buffer_def)
    with empty l(2-6) r1 len none assms(4) show ?thesis
      by (auto simp: loop_cuts_def window_ok_def window_bytes_def chopper_ok_def sliding_window_end_offset_def)
  next
    case one
    have "anchor_loop rd anchor buffer start is_first fpr = Some (Anchor_Break, CHOP_STREAM_END,
        anchor\<lparr>ac_window := ?win\<lparr>sw_second := d2, sw_size1 := 0\<rparr>, ac_stream := s2\<rparr>, buffer, start)"
      using one assms(3) r2(1) ws
      by (subst anchor_loop.simps) (simp add: anchor_reload_def sliding_window_dest_buffer_def)
    with one l(2-6) r2 len none assms(4) short show ?thesis
      by (auto simp: loop_cuts_def window_ok_def window_bytes_def chopper_ok_def sliding_window_end_offset_def Let_def)
  next
    case two
    let ?w = "?win\<lparr>sw_first := sw_second ?win, sw_second := d1, sw_size0 := sw_size1 ?win, sw_size1 := 0,
        sw_offset := sw_offset ?win mod ws\<rparr>"
    let ?b = "buffer @ take (ws - start) (drop start (sw_first ?win))"
    have start: "start \<le> ws" using l(5) two by simp
    have eq: "anchor_loop rd anchor buffer start is_first fpr = Some (Anchor_Break, CHOP_STREAM_END,
        anchor\<lparr>ac_window := ?w, ac_stream := s1\<rparr>, ?b, 0)"
      using two assms(2,3) r1(1) ws start ok
      by (subst anchor_loop.simps) (simp add: anchor_reload_def sliding_window_dest_buffer_def window_ok_def)
    have "data = ?b @ take (sw_size1 ?win) (sw_second ?win)"
      using l(6) two len start assms(4) by (simp add: window_bytes_def)
    moreover have "length (take (sw_size1 ?win) (sw_second ?win)) = sw_size1 ?win" "sw_size1 ?win \<le> ws"
      using ok len by (auto simp: window_ok_def)
    ultimately show ?thesis
      using eq two l(2,3) r1 len none
      by (auto simp: loop_cuts_def window_ok_def window_bytes_def chopper_ok_def sliding_window_end_offset_def Let_def)
  qed
qed

text \<open>The window is short and the stream goes on.\<close>

lemma loop_reload:
  assumes "loop_inv ws magic data anchor buffer start pos is_first fpr" "2 \<le> ws"
    and "sliding_window_unfull (ac_window anchor)" "rest (ac_stream anchor) \<noteq> []"
  shows "\<exists>anchor' buffer' start'. anchor_reload rd anchor buffer start = Some (CHOP_OK, anchor', buffer', start')
    \<and> loop_inv ws magic data anchor' buffer' start' pos is_first fpr
    \<and> (sliding_window_unfull (ac_window anchor') \<longrightarrow> rest (ac_stream anchor') = [])"
proof -
  let ?win = "ac_window anchor" and ?r = "rest (ac_stream anchor)"
  note l = loop_invD [OF assms(1)]
  let ?n = "min ws (length ?r)"
  have ok: "window_ok ws False ?win" and ws: "ac_window_size anchor = ws" using l(2,3) assms(4) by (auto simp: chopper_ok_def)
  have len: "length (sw_first ?win) = ws" "length (sw_second ?win) = ws" using ok by (auto simp: window_ok_def)
  have n: "0 < ?n" "?n \<le> ws" using assms(2,4) by auto
  have ended: "?n < ws \<Longrightarrow> drop ws ?r = []" by simp
  have ws0: "0 < ws" using assms(2) by simp
  consider (empty) "sw_size0 ?win = 0" "sw_size1 ?win = 0" "sw_offset ?win = 0" "start = 0"
    | (one) "sw_size0 ?win = ws" "sw_size1 ?win = 0" "sw_offset ?win \<le> ws"
    | (two) "sw_size0 ?win = ws" "sw_size1 ?win = ws" "sw_offset ?win = ws + 1"
    using ok assms(2,3) l(4) by (auto simp: window_ok_def sliding_window_unfull_def split: if_splits)
  then show ?thesis
  proof cases
    case empty
    obtain e d s where r: "read_sliding_window rd ws (sw_first ?win) (ac_stream anchor) = Some (CHOP_OK, d, ?n, s)"
      "inv s" "rest s = drop ws ?r" "length d = ws" "take ?n d = take ws ?r"
      using read_window_spec [OF l(1) ws0 len(1)] assms(4) by metis
    let ?a = "anchor\<lparr>ac_window := ?win\<lparr>sw_first := d, sw_size0 := ?n\<rparr>, ac_stream := s\<rparr>"
    have "anchor_reload rd anchor buffer start = Some (CHOP_OK, ?a, buffer, start)"
      using empty r(1) ws by (simp add: anchor_reload_def sliding_window_dest_buffer_def)
    moreover have "loop_inv ws magic data ?a buffer start pos is_first fpr"
      using l(1-3) ok empty r(2-5) n ended
      by (intro loop_inv_moved [OF assms(1)]) (auto simp: window_ok_def window_bytes_def chopper_ok_def)
    moreover have "sliding_window_unfull (ac_window ?a) \<longrightarrow> rest (ac_stream ?a) = []"
      using empty n r(3) ok by (auto simp: sliding_window_unfull_def window_ok_def)
    ultimately show ?thesis by blast
  next
    case one
    obtain e d s where r: "read_sliding_window rd ws (sw_second ?win) (ac_stream anchor) = Some (CHOP_OK, d, ?n, s)"
      "inv s" "rest s = drop ws ?r" "length d = ws" "take ?n d = take ws ?r"
      using read_window_spec [OF l(1) ws0 len(2)] assms(4) by metis
    let ?a = "anchor\<lparr>ac_window := ?win\<lparr>sw_second := d, sw_size1 := ?n\<rparr>, ac_stream := s\<rparr>"
    have "anchor_reload rd anchor buffer start = Some (CHOP_OK, ?a, buffer, start)"
      using one r(1) ws ws0 by (simp add: anchor_reload_def sliding_window_dest_buffer_def)
    moreover have "loop_inv ws magic data ?a buffer start pos is_first fpr"
      using l(1-5) ok one r(2-5) n ended
      by (intro loop_inv_moved [OF assms(1)]) (auto simp: window_ok_def window_bytes_def chopper_ok_def)
    moreover have "sliding_window_unfull (ac_window ?a) \<longrightarrow> rest (ac_stream ?a) = []"
      using one n r(3) ok by (auto simp: sliding_window_unfull_def window_ok_def)
    ultimately show ?thesis by blast
  next
    case two
    obtain e d s where r: "read_sliding_window rd ws (sw_first ?win) (ac_stream anchor) = Some (CHOP_OK, d, ?n, s)"
      "inv s" "rest s = drop ws ?r" "length d = ws" "take ?n d = take ws ?r"
      using read_window_spec [OF l(1) ws0 len(1)] assms(4) by metis
    let ?w = "?win\<lparr>sw_first := sw_second ?win, sw_second := d, sw_size0 := sw_size1 ?win, sw_size1 := ?n,
        sw_offset := 1\<rparr>"
    let ?a = "anchor\<lparr>ac_window := ?w, ac_stream := s\<rparr>"
    let ?b = "buffer @ take (ws - start) (drop start (sw_first ?win))"
    have start: "start \<le> ws" "Suc ws mod ws = 1" using l(5) two assms(2) by (simp_all add: mod_Suc)
    have "anchor_reload rd anchor buffer start = Some (CHOP_OK, ?a, ?b, 0)"
      using two r(1) ws ws0 start ok
      by (simp add: anchor_reload_def sliding_window_dest_buffer_def window_ok_def)
    moreover have "loop_inv ws magic data ?a ?b 0 pos is_first fpr"
      using l(1-5) ok two r(2-5) n ended start len
      by (intro loop_inv_moved [OF assms(1)]) (auto simp: window_ok_def window_bytes_def chopper_ok_def)
    moreover have "sliding_window_unfull (ac_window ?a) \<longrightarrow> rest (ac_stream ?a) = []"
      using two n r(3) ok by (auto simp: sliding_window_unfull_def window_ok_def)
    ultimately show ?thesis by blast
  qed
qed

lemma loop_reload_eq:
  assumes "sliding_window_unfull (ac_window anchor)"
    and "anchor_reload rd anchor buffer start = Some (CHOP_OK, anchor', buffer', start')"
  shows "anchor_loop rd anchor buffer start is_first fpr = anchor_loop rd anchor' buffer' start' is_first fpr"
proof (cases "sliding_window_unfull (ac_window anchor')")
  case True
  then show ?thesis using assms by (subst anchor_loop.simps) simp
next
  case False
  then show ?thesis using assms
    by (subst (1 2) anchor_loop.simps) simp
qed

text \<open>A full window: the block is cut, or the window moves on by one byte.\<close>

lemma window_of_data:
  assumes "loop_inv ws magic data anchor buffer start pos is_first fpr" "0 < ws"
    and "\<not> sliding_window_unfull (ac_window anchor)"
  shows "take ws (drop pos data)
      = take ws (drop (sw_offset (ac_window anchor)) (window_bytes (ac_window anchor)))"
    "pos + ws \<le> length data"
proof -
  note l = loop_invD [OF assms(1)]
  note f = window_full [OF l(3) assms(3,2)]
  have len: "length (window_bytes (ac_window anchor)) = ws + sw_size1 (ac_window anchor)"
    using l(3) f(1) by simp
  have "drop pos data = drop (sw_offset (ac_window anchor)) (window_bytes (ac_window anchor)) @ rest (ac_stream anchor)"
    using l(4,6,7) len f(2) by simp
  then show "take ws (drop pos data)
      = take ws (drop (sw_offset (ac_window anchor)) (window_bytes (ac_window anchor)))"
    using len f(2) by simp
  show "pos + ws \<le> length data" using l(4,6,7) len f(2) by simp
qed

lemma loop_fingerprint:
  assumes "loop_inv ws magic data anchor buffer start pos is_first fpr" "0 < ws"
    and "\<not> sliding_window_unfull (ac_window anchor)"
  obtains a where "anchor_fingerprint anchor is_first fpr = Some (fingerprint (take ws (drop pos data)), a)"
    "chopper_ok ws magic a" "ac_prev_first_char a = data ! pos" "ac_window a = ac_window anchor"
    "ac_stream a = ac_stream anchor"
proof -
  note l = loop_invD [OF assms(1)]
  note w = window_of_data [OF assms]
  have "\<exists>bs. fpr = fingerprint (ac_prev_first_char anchor # bs) \<and> bs = butlast (take ws (drop pos data))"
    if "\<not> is_first"
  proof -
    from l(9) [OF that] have p: "0 < pos" "fpr = fingerprint (take ws (drop (pos - 1) data))"
      "ac_prev_first_char anchor = data ! (pos - 1)" by auto
    have "drop (pos - 1) data = data ! (pos - 1) # drop pos data"
      using p(1) w(2) assms(2) by (metis Cons_nth_drop_Suc Suc_pred' Suc_le_eq le_add1 less_le_trans diff_less zero_less_one)
    moreover have "take (ws - 1) (drop pos data) = butlast (take ws (drop pos data))"
      using w(2) by (simp add: butlast_take)
    ultimately show ?thesis using p(2,3) assms(2) by (simp add: take_Cons')
  qed
  from fingerprint_step [OF l(2,3) assms(3,2) w(1) this] obtain a where
    "anchor_fingerprint anchor is_first fpr = Some (fingerprint (take ws (drop pos data)), a)"
    "chopper_ok ws magic a" "ac_prev_first_char a = hd (take ws (drop pos data))"
    "ac_window a = ac_window anchor" "ac_stream a = ac_stream anchor" by blast
  with that w(2) assms(2) show thesis by (simp add: hd_drop_conv_nth)
qed

lemma loop_full:
  assumes "loop_inv ws magic data anchor buffer start pos is_first fpr" "0 < ws"
    and "\<not> sliding_window_unfull (ac_window anchor)"
    and moves: "\<And>a. loop_inv ws magic data a buffer start (pos + 1) False (fingerprint (take ws (drop pos data)))
      \<Longrightarrow> loop_cuts ws magic data (anchor_loop rd a buffer start False (fingerprint (take ws (drop pos data))))"
  shows "loop_cuts ws magic data (anchor_loop rd anchor buffer start is_first fpr)"
proof -
  let ?win = "ac_window anchor"
  note l = loop_invD [OF assms(1)]
  note f = window_full [OF l(3) assms(3,2)]
  note w = window_of_data [OF assms(1-3)]
  obtain a where a: "anchor_fingerprint anchor is_first fpr = Some (fingerprint (take ws (drop pos data)), a)"
    "chopper_ok ws magic a" "ac_prev_first_char a = data ! pos" "ac_window a = ?win" "ac_stream a = ac_stream anchor"
    using loop_fingerprint [OF assms(1-3)] .
  have sz: "sw_window_size ?win = ws" "ac_magic_fpr_mask a = magic" using l(3) a(2) by (auto simp: window_ok_def chopper_ok_def)
  have stop: "sliding_window_end_offset ?win = sw_offset ?win + ws"
    using f(1,2) sz by (auto simp: sliding_window_end_offset_def)
  show ?thesis
  proof (cases "anchor_at ws magic data pos")
    case True
    let ?n = "sw_offset ?win + ws - start"
    have cut: "find_anchor ws magic data 0 = pos + ws" using find_anchor_first [OF l(8) True assms(2)] .
    have app: "sliding_window_append_to_buffer ?win start ?n buffer
        = Some (buffer @ take ?n (drop start (window_bytes ?win)))"
      using l(3-5) f by (intro append_window) auto
    have block: "buffer @ take ?n (drop start (window_bytes ?win)) = take (pos + ws) data"
      using l(3,4,6,7) f(1,2) by (simp add: algebra_simps)
    let ?w = "?win\<lparr>sw_offset := sw_offset ?win, sw_first := sw_second ?win, sw_second := sw_first ?win,
        sw_size0 := sw_size1 ?win, sw_size1 := 0\<rparr>"
    have skip: "sliding_window_skip ?win ws = Some ?w"
      using f sz by (simp add: sliding_window_skip_def)
    have "anchor_loop rd anchor buffer start is_first fpr
        = Some (Anchor_Break, CHOP_OK, a\<lparr>ac_window := ?w\<rparr>, take (pos + ws) data, start)"
      using assms(2,3) a(1,4) sz stop app block skip True l(4)
      by (subst anchor_loop.simps) (auto simp: anchor_at_def Let_def)
    moreover have "anchor_inv ws magic (a\<lparr>ac_window := ?w\<rparr>)"
      using l(1,3) a(2,5) f by (auto simp: anchor_inv_def window_ok_def chopper_ok_def)
    moreover have "anchor_rest (a\<lparr>ac_window := ?w\<rparr>) = drop (pos + ws) data"
      using l(3,4,6,7) a(5) f by (simp add: anchor_rest_def window_bytes_def window_ok_def)
    moreover have "data \<noteq> []" using w(2) assms(2) by auto
    ultimately show ?thesis using cut by (auto simp: loop_cuts_def)
  next
    case False
    let ?a = "a\<lparr>ac_window := ?win\<lparr>sw_offset := sw_offset ?win + 1\<rparr>\<rparr>"
    have "\<not> IS_ANCHOR_FINGERPRINT magic (fingerprint (take ws (drop pos data)))"
      using False w(2) by (simp add: anchor_at_def)
    then have eq: "anchor_loop rd anchor buffer start is_first fpr
        = anchor_loop rd ?a buffer start False (fingerprint (take ws (drop pos data)))"
      using assms(3) a(1,4) sz
      by (subst anchor_loop.simps) (simp add: Let_def sliding_window_increment_offset_def)
    have "inv (ac_stream ?a)" "chopper_ok ws magic ?a" using l(1) a(2,5) by (simp_all add: chopper_ok_def)
    moreover have "window_ok ws (rest (ac_stream ?a) = []) (ac_window ?a)"
      using l(3) a(5) f assms(2) by (auto simp: window_ok_def)
    moreover have "start \<le> sw_offset (ac_window ?a)" "start \<le> sw_size0 (ac_window ?a)" using l(4,5) by simp_all
    moreover have "data = buffer @ drop start (window_bytes (ac_window ?a)) @ rest (ac_stream ?a)"
      using l(6) a(5) by simp
    moreover have "pos + 1 = length buffer + (sw_offset (ac_window ?a) - start)" using l(4,7) by simp
    moreover have "\<forall>q<pos + 1. \<not> anchor_at ws magic data q" using l(8) False by (auto simp: less_Suc_eq)
    moreover have "0 < pos + 1" "fingerprint (take ws (drop pos data)) = fingerprint (take ws (drop (pos + 1 - 1) data))"
      "ac_prev_first_char ?a = data ! (pos + 1 - 1)" using a(3) by simp_all
    ultimately have "loop_inv ws magic data ?a buffer start (pos + 1) False (fingerprint (take ws (drop pos data)))"
      unfolding loop_inv_def by blast
    from moves [OF this] eq show ?thesis by simp
  qed
qed

lemma loop_main:
  assumes "loop_inv ws magic data anchor buffer start pos is_first fpr" "2 \<le> ws"
  shows "loop_cuts ws magic data (anchor_loop rd anchor buffer start is_first fpr)"
  using assms(1)
proof (induction "length data - pos" arbitrary: anchor buffer start pos is_first fpr rule: less_induct)
  case less
  have ws: "0 < ws" using assms(2) by simp
  have full: "loop_cuts ws magic data (anchor_loop rd a b st is_first fpr)"
    if "loop_inv ws magic data a b st pos is_first fpr" "\<not> sliding_window_unfull (ac_window a)" for a b st
    using window_of_data(2) [OF that(1) ws that(2)] ws
    by (intro loop_full [OF that(1) ws that(2)] less.hyps) auto
  show ?case
  proof (cases "sliding_window_unfull (ac_window anchor)")
    case False
    with full less.prems show ?thesis by blast
  next
    case unfull: True
    show ?thesis
    proof (cases "rest (ac_stream anchor) = []")
      case True
      with loop_end [OF less.prems ws unfull] show ?thesis .
    next
      case False
      from loop_reload [OF less.prems assms(2) unfull this] obtain a b st where
        r: "anchor_reload rd anchor buffer start = Some (CHOP_OK, a, b, st)"
        "loop_inv ws magic data a b st pos is_first fpr"
        "sliding_window_unfull (ac_window a) \<longrightarrow> rest (ac_stream a) = []" by blast
      have "loop_cuts ws magic data (anchor_loop rd a b st is_first fpr)"
        using full [OF r(2)] loop_end [OF r(2) ws] r(3) by blast
      with loop_reload_eq [OF unfull r(1)] show ?thesis by simp
    qed
  qed
qed

section \<open>The contract\<close>

lemma anchor_read_block:
  assumes "anchor_inv ws magic anchor" "2 \<le> ws"
  shows "case anchor_blocks ws magic (anchor_rest anchor) of
     [] \<Rightarrow> \<exists>buf c'. chop_chopper_read_block (chop_anchor_chopper_read_block rd) anchor buffer
              = Some ((CHOP_STREAM_END, buf, 0), c') \<and> anchor_inv ws magic c' \<and> anchor_rest c' = []
   | b # bs \<Rightarrow> \<exists>c'. chop_chopper_read_block (chop_anchor_chopper_read_block rd) anchor buffer
              = Some ((CHOP_OK, b, length b), c') \<and> anchor_inv ws magic c'
              \<and> anchor_blocks ws magic (anchor_rest c') = bs"
proof -
  let ?d = "anchor_rest anchor" and ?a = "anchor\<lparr>ac_first := False\<rparr>"
  have "loop_inv ws magic ?d ?a [] (sw_offset (ac_window ?a)) 0 True 0"
    using assms(1) by (auto simp: loop_inv_def anchor_inv_def anchor_rest_def chopper_ok_def window_ok_def)
  from loop_main [OF this assms(2)] obtain err a b start where
    r: "anchor_loop rd ?a [] (sw_offset (ac_window ?a)) True 0 = Some (Anchor_Break, err, a, b, start)"
    and c: "err = CHOP_OK \<and> anchor_inv ws magic a \<and> ?d \<noteq> [] \<and> b = take (find_anchor ws magic ?d 0) ?d
         \<and> anchor_rest a = drop (find_anchor ws magic ?d 0) ?d
       \<or> err = CHOP_STREAM_END \<and> inv (ac_stream a) \<and> rest (ac_stream a) = []
         \<and> chopper_ok ws magic a \<and> find_anchor ws magic ?d 0 = length ?d
         \<and> window_ok ws True ((ac_window a)\<lparr>sw_offset := 0\<rparr>)
         \<and> sliding_window_end_offset (ac_window a) = length (window_bytes (ac_window a))
         \<and> start \<le> sw_size0 (ac_window a) \<and> ?d = b @ drop start (window_bytes (ac_window a))"
    unfolding loop_cuts_def by blast
  from c show ?thesis
  proof
    assume h: "err = CHOP_OK \<and> anchor_inv ws magic a \<and> ?d \<noteq> [] \<and> b = take (find_anchor ws magic ?d 0) ?d
         \<and> anchor_rest a = drop (find_anchor ws magic ?d 0) ?d"
    then show ?thesis using r
      by (subst anchor_blocks.simps)
         (simp add: chop_chopper_read_block_def chop_anchor_chopper_read_block_def Let_def)
  next
    assume h: "err = CHOP_STREAM_END \<and> inv (ac_stream a) \<and> rest (ac_stream a) = []
         \<and> chopper_ok ws magic a \<and> find_anchor ws magic ?d 0 = length ?d
         \<and> window_ok ws True ((ac_window a)\<lparr>sw_offset := 0\<rparr>)
         \<and> sliding_window_end_offset (ac_window a) = length (window_bytes (ac_window a))
         \<and> start \<le> sw_size0 (ac_window a) \<and> ?d = b @ drop start (window_bytes (ac_window a))"
    let ?w = "ac_window a"
    have len: "length (window_bytes ?w) = sw_size0 ?w + sw_size1 ?w"
      using h length_window_bytes [of ws True "?w\<lparr>sw_offset := 0\<rparr>"] by simp
    have app: "sliding_window_append_to_buffer ?w start (length (window_bytes ?w) - start) b = Some ?d"
      using h len append_window [of ws True "?w\<lparr>sw_offset := 0\<rparr>" start "length (window_bytes ?w) - start" b]
      by simp
    let ?c = "a\<lparr>ac_window := sliding_window_clear ?w\<rparr>"
    have "anchor_inv ws magic ?c" "anchor_rest ?c = []"
      using h by (auto simp: anchor_inv_def anchor_rest_def window_ok_def chopper_ok_def window_bytes_def sliding_window_clear_def)
    moreover have "chop_chopper_read_block (chop_anchor_chopper_read_block rd) anchor buffer
        = Some ((if ?d = [] then CHOP_STREAM_END else CHOP_OK, ?d, length ?d), ?c)"
      using r h app len by (simp add: chop_chopper_read_block_def chop_anchor_chopper_read_block_def Let_def)
    ultimately show ?thesis
      using h by (subst anchor_blocks.simps) (auto simp: Let_def)
  qed
qed

end

text \<open>A stream that keeps the contract gives an anchor-based chopper that keeps the contract.\<close>

locale anchor_chopping = chopped_stream rd inv rest
  for rd :: "'s stream_read" and inv and rest +
  fixes ws :: nat and magic :: "32 word"
  assumes ws_two: "2 \<le> ws"

sublocale anchor_chopping \<subseteq> anchor: block_source "chop_anchor_chopper_read_block rd"
  "anchor_inv ws magic" "\<lambda>c. anchor_blocks ws magic (anchor_rest c)"
proof (unfold_locales, goal_cases)
  case (1 c buffer)
  then show ?case using anchor_read_block [OF 1 ws_two, of buffer] by (auto split: list.splits)
next
  case (2 c)
  show ?case by (rule anchor_blocks_nonempty)
qed

context anchor_chopping
begin

lemma anchor_block_source:
  "block_source (chop_anchor_chopper_read_block rd) (anchor_inv ws magic) (\<lambda>c. anchor_blocks ws magic (anchor_rest c))"
  by unfold_locales

end

text \<open>The generic choppers have windows of 48 bytes.\<close>

interpretation mem_anchor: anchor_chopping chop_mem_stream_read ms_inv ms_rest 48 magic for magic
  by unfold_locales simp

section \<open>Properties\<close>

lemma chopper_ok_init: "chopper_ok ws (ucast msk) (chop_anchor_based_chopper_init junk input ws msk)"
  by (simp add: chopper_ok_def chop_anchor_based_chopper_init_def prime_power_eq)

lemma anchor_init_inv:
  assumes "data = ms_rest s" "ms_inv s"
  shows "mem_chop.anchor_inv ws (ucast msk) (chop_anchor_based_chopper_init junk s ws msk)"
    "mem_chop.anchor_rest (chop_anchor_based_chopper_init junk s ws msk) = data"
  using assms chopper_ok_init [of ws msk junk s]
  by (simp_all add: mem_chop.anchor_inv_def mem_chop.anchor_rest_def window_bytes_def window_ok_def
      sliding_window_init_def chop_anchor_based_chopper_init_def)

lemma mem_open_rest: "ms_inv (chop_mem_stream_open data (length data))"
  "ms_rest (chop_mem_stream_open data (length data)) = data"
  by (simp_all add: chop_mem_stream_open_def ms_inv_def ms_rest_def)

lemma anchor_block_source_mem:
  assumes "2 \<le> ws"
  shows "block_source (chop_anchor_chopper_read_block chop_mem_stream_read)
      (mem_chop.anchor_inv ws magic) (\<lambda>c. anchor_blocks ws magic (mem_chop.anchor_rest c))"
proof -
  have "anchor_chopping chop_mem_stream_read ms_inv ms_rest ws"
    using assms by unfold_locales
  then show ?thesis by (rule anchor_chopping.anchor_block_source)
qed

lemma anchor_drain:
  assumes "2 \<le> ws"
  shows "\<exists>c'. drain (chop_anchor_chopper_read_block chop_mem_stream_read)
      (chop_anchor_based_chopper_init junk (chop_mem_stream_open data (length data)) ws msk) []
    = Some (CHOP_STREAM_END, anchor_blocks ws (ucast msk) data, c')"
proof -
  note source = anchor_block_source_mem [OF assms, of "ucast msk"]
  note i = anchor_init_inv [OF mem_open_rest(2) [symmetric] mem_open_rest(1)]
  from block_source.drain_blocks [OF source i(1), where acc = "[]"] show ?thesis
    unfolding i(2) append_Nil by blast
qed

text \<open>C33: The anchor-based chopper, with a window of at least two bytes, cuts a memory stream exactly where
  the specification does: every block ends with the first window whose fingerprint,
  computed from scratch, has the bits of the mask clear, the last block being what is left
  without such a window; and the blocks concatenate to the data.\<close>

theorem anchor_chopper_cuts_at_anchors:
  assumes "2 \<le> ws"
  shows "(\<exists>c'. drain (chop_anchor_chopper_read_block chop_mem_stream_read)
      (chop_anchor_based_chopper_init junk (chop_mem_stream_open data (length data)) ws msk) []
    = Some (CHOP_STREAM_END, anchor_blocks ws (ucast msk) data, c'))
    \<and> concat (anchor_blocks ws (ucast msk) data) = data"
  using anchor_drain [OF assms] concat_anchor_blocks by blast

theorem anchor_chopper_cuts_at_anchors_witness:
  "(2::nat) \<le> 2 \<and> anchor_blocks 2 (ucast (3 :: 64 word)) [1, 1, 5, 7] = [[1, 1], [5, 7]]
   \<and> (\<exists>c'. drain (chop_anchor_chopper_read_block chop_mem_stream_read)
      (chop_anchor_based_chopper_init (0, 0) (chop_mem_stream_open [1, 1, 5, 7] (length ([1, 1, 5, 7] :: bytes))) 2 3) []
    = Some (CHOP_STREAM_END, [[1, 1], [5, 7]], c'))"
proof -
  have "anchor_blocks 2 (ucast (3 :: 64 word)) [1, 1, 5, 7] = [[1, 1], [5, 7]]"
    by (simp add: anchor_blocks.simps find_anchor.simps anchor_at_def IS_ANCHOR_FINGERPRINT_def
        fingerprint_def poly_value_def ANCHOR_MODULO_MASK_def)
  with anchor_chopper_cuts_at_anchors [of 2 "(0, 0)" "[1, 1, 5, 7]" 3] show ?thesis by simp
qed

text \<open>C34: The incremental fingerprint is the fingerprint: from the fingerprint of a window \<open>b # bs\<close>, the
  byte \<open>b\<close> that leaves it (\<^verbatim>\<open>prev_first_char\<close>) and the byte \<open>c\<close> that enters it,
  \<^verbatim>\<open>compute_next_window_fingerprint\<close> gives the fingerprint of \<open>bs @ [c]\<close>, whatever products the
  cache already holds, and the cache stays correct.  This is the assertion that the code checks
  under \<^verbatim>\<open>AUTO_TEST\<close>.\<close>

theorem rolling_fingerprint:
  assumes "chopper_ok ws magic anchor" "ac_prev_first_char anchor = b" "ws = Suc (length bs)"
  shows "fst (compute_next_window_fingerprint anchor first_char c (fingerprint (b # bs))) = fingerprint (bs @ [c])
    \<and> chopper_ok ws magic (snd (compute_next_window_fingerprint anchor first_char c (fingerprint (b # bs))))"
proof -
  obtain a where "multiply_with_prime_to_the_ws anchor b = (ucast b * 3 ^ ws, a)" "chopper_ok ws magic a"
    using multiply_spec [OF assms(1)] .
  with fingerprint_slide [of b bs c] assms(2,3) show ?thesis
    by (simp add: compute_next_window_fingerprint_def Let_def chopper_ok_def)
qed

theorem rolling_fingerprint_witness:
  "fst (compute_next_window_fingerprint
      ((chop_anchor_based_chopper_init (0, 0) (chop_mem_stream_open [] 0) 3 7)\<lparr>ac_prev_first_char := 9\<rparr>)
      5 6 (fingerprint [9, 5, 4])) = fingerprint [5, 4, 6] \<and> fingerprint [5, 4, 6] = 63"
proof -
  have "chopper_ok 3 7 ((chop_anchor_based_chopper_init (0, 0) (chop_mem_stream_open [] 0) 3 7)\<lparr>ac_prev_first_char := 9\<rparr>)"
    using chopper_ok_init [of 3 7 "(0, 0)" "chop_mem_stream_open [] 0"] by (simp add: chopper_ok_def)
  from rolling_fingerprint [OF this, of 9 "[5, 4]" 5 6] show ?thesis
    by (simp add: fingerprint_def poly_value_def ANCHOR_MODULO_MASK_def)
qed

lemma anchor_blocks_suffix:
  assumes "concat (take i (anchor_blocks ws magic data)) @ tail = data" "tail \<noteq> []"
  shows "drop i (anchor_blocks ws magic data) = anchor_blocks ws magic tail"
  using assms
proof (induction i arbitrary: data)
  case (Suc i)
  let ?n = "find_anchor ws magic data 0"
  have ne: "data \<noteq> []" using Suc.prems by auto
  then have b: "anchor_blocks ws magic data = take ?n data # anchor_blocks ws magic (drop ?n data)"
    by (subst anchor_blocks.simps) (simp add: Let_def)
  then have "take ?n data @ (concat (take i (anchor_blocks ws magic (drop ?n data))) @ tail) = take ?n data @ drop ?n data"
    using Suc.prems(1) by simp
  then have "concat (take i (anchor_blocks ws magic (drop ?n data))) @ tail = drop ?n data"
    by (simp only: same_append_eq)
  with Suc.IH Suc.prems(2) b show ?case by simp
qed simp

text \<open>C35: Block boundaries depend only on what follows the last one: two streams that end with the same
  bytes \<open>tail\<close> are cut into the same blocks from there on, once both have a boundary where
  \<open>tail\<close> begins, whatever came before.  This is what lets similar files share blocks.\<close>

theorem anchor_chopper_resynchronises:
  assumes "2 \<le> ws"
    and "drain (chop_anchor_chopper_read_block chop_mem_stream_read)
      (chop_anchor_based_chopper_init junk (chop_mem_stream_open data (length data)) ws msk) [] = Some (e, xs, c)"
    and "drain (chop_anchor_chopper_read_block chop_mem_stream_read)
      (chop_anchor_based_chopper_init junk' (chop_mem_stream_open data' (length data')) ws msk) [] = Some (e', ys, c')"
    and "concat (take i xs) @ tail = data" "concat (take j ys) @ tail = data'" "tail \<noteq> []"
  shows "drop i xs = drop j ys"
proof -
  have "xs = anchor_blocks ws (ucast msk) data" "ys = anchor_blocks ws (ucast msk) data'"
    using anchor_drain [OF assms(1), of junk data msk] anchor_drain [OF assms(1), of junk' data' msk] assms(2,3)
    by auto
  with assms(4-6) anchor_blocks_suffix show ?thesis by metis
qed

theorem anchor_chopper_resynchronises_witness:
  "\<exists>c c'. drain (chop_anchor_chopper_read_block chop_mem_stream_read)
      (chop_anchor_based_chopper_init (0, 0) (chop_mem_stream_open [1, 1, 5, 7] (length ([1, 1, 5, 7] :: bytes))) 2 3) []
      = Some (CHOP_STREAM_END, [1, 1] # drop 1 [[1, 1], [5, 7]], c)
    \<and> drain (chop_anchor_chopper_read_block chop_mem_stream_read)
      (chop_anchor_based_chopper_init (0, 0) (chop_mem_stream_open [3, 1, 1, 5, 7] (length ([3, 1, 1, 5, 7] :: bytes))) 2 3) []
      = Some (CHOP_STREAM_END, [3, 1, 1] # drop 1 [[1, 1], [5, 7]], c')"
proof -
  let ?d = "drain (chop_anchor_chopper_read_block chop_mem_stream_read)"
  let ?c = "chop_anchor_based_chopper_init (0, 0) (chop_mem_stream_open [1, 1, 5, 7] (length ([1, 1, 5, 7] :: bytes))) 2 3"
  let ?c' = "chop_anchor_based_chopper_init (0, 0) (chop_mem_stream_open [3, 1, 1, 5, 7] (length ([3, 1, 1, 5, 7] :: bytes))) 2 3"
  note ev = anchor_blocks.simps find_anchor.simps anchor_at_def IS_ANCHOR_FINGERPRINT_def
    fingerprint_def poly_value_def ANCHOR_MODULO_MASK_def
  have "anchor_blocks 2 (ucast (3 :: 64 word)) [1, 1, 5, 7] = [[1, 1], [5, 7]]"
    "anchor_blocks 2 (ucast (3 :: 64 word)) [3, 1, 1, 5, 7] = [[3, 1, 1], [5, 7]]"
    by (simp_all add: ev)
  with anchor_drain [of 2 "(0, 0)" "[1, 1, 5, 7]" 3] anchor_drain [of 2 "(0, 0)" "[3, 1, 1, 5, 7]" 3]
  obtain c c' where
    d: "?d ?c [] = Some (CHOP_STREAM_END, [[1, 1], [5, 7]], c)" "?d ?c' [] = Some (CHOP_STREAM_END, [[3, 1, 1], [5, 7]], c')"
    by auto
  from anchor_chopper_resynchronises [OF _ d, of 1 "[5, 7]" 1] have "drop 1 [[1, 1], [5, 7]] = drop 1 [[3, 1, 1], [5, 7 :: byte]]"
    by simp
  with d show ?thesis by auto
qed

section \<open>Choosing the mask\<close>

lemma unat_two_power: "i < 64 \<Longrightarrow> unat ((2 :: 64 word) ^ i) = 2 ^ i"
proof -
  assume "i < 64"
  then have "(2 :: nat) ^ i < 2 ^ 64" by (intro power_strict_increasing) auto
  then show ?thesis using unat_of_nat [of "2 ^ i", where 'a = 64] by simp
qed

lemma power_below_steps:
  assumes "2 ^ k \<le> unat average" "average < 2 ^ 63"
  shows "\<exists>j. power_below average (2 ^ k) = Some (2 ^ j) \<and> 2 ^ j \<le> unat average \<and> unat average < 2 ^ (j + 1)"
proof -
  have avg: "unat average < 2 ^ 63" using assms(2) unat_mono [of average "2 ^ 63"] by simp
  have small: "i < 63" if "(2::nat) ^ i \<le> unat average" for i
    using le_less_trans [OF that avg] by (rule power_less_imp_less_exp [rotated]) simp
  note val = unat_two_power
  show ?thesis using assms(1)
  proof (induction "63 - k" arbitrary: k rule: less_induct)
    case less
    note k = small [OF less.prems]
    have shift: "push_bit 1 ((2 :: 64 word) ^ k) = 2 ^ Suc k" by (simp add: push_bit_eq_mult)
    show ?case
    proof (cases "2 ^ Suc k \<le> unat average")
      case True
      then have "(2 :: 64 word) ^ Suc k \<le> average" using val [of "Suc k"] k by (simp add: word_le_nat_alt)
      then have "power_below average (2 ^ k) = power_below average (2 ^ Suc k)"
        by (subst power_below.simps) (simp only: shift if_True)
      with less.hyps [of "Suc k"] True k show ?thesis by simp
    next
      case False
      then have "\<not> (2 :: 64 word) ^ Suc k \<le> average" using val [of "Suc k"] k by (simp add: word_le_nat_alt)
      then have "power_below average (2 ^ k) = Some (2 ^ k)"
        by (subst power_below.simps) (simp only: shift if_False)
      with False less.prems show ?thesis by auto
    qed
  qed
qed

lemma power_below_diverges:
  assumes "power_below average p = Some y"
  shows "\<not> (2 ^ 63 \<le> average \<and> (p = 0 \<or> (\<exists>k<64. p = 2 ^ k)))"
  using _ assms
proof (rule power_below.raw_induct [where P = "\<lambda>a p y. \<not> (2 ^ 63 \<le> a \<and> (p = 0 \<or> (\<exists>k<64. p = 2 ^ k)))"], goal_cases)
  case (1 f a p y)
  have "push_bit 1 p \<le> a \<and> (push_bit 1 p = 0 \<or> (\<exists>k<64. push_bit 1 p = 2 ^ k))"
    if big: "2 ^ 63 \<le> a" and p: "p = 0 \<or> (\<exists>k<64. p = 2 ^ k)"
  proof (cases "p = 0 \<or> p = 2 ^ 63")
    case True
    then have "push_bit 1 p = 0" by (auto simp: push_bit_eq_mult)
    then show ?thesis by simp
  next
    case False
    with p obtain k where k': "p = 2 ^ k" "k < 64" by auto
    then have "k \<noteq> 63" using False by auto
    with k' have k: "p = 2 ^ k" "k < 63" by auto
    have "unat ((2 :: 64 word) ^ Suc k) \<le> unat ((2 :: 64 word) ^ 63)"
      using k(2) unat_two_power [of "Suc k"] unat_two_power [of 63] power_increasing [of "Suc k" 63 "2 :: nat"] by simp
    then have "(2 :: 64 word) ^ Suc k \<le> a" using big word_le_nat_alt order_trans by blast
    moreover have "push_bit 1 p = 2 ^ Suc k" by (simp add: k(1) push_bit_eq_mult)
    ultimately show ?thesis using k(2) by (auto intro!: exI [of _ "Suc k"])
  qed
  with 1 show ?case by (metis option.distinct(1))
qed

text \<open>For an average block size from 1 to \<open>2 ^ 63 - 1\<close>, \<^verbatim>\<open>ab_generic_open\<close> returns, with a
  window of 48 bytes and the mask \<open>2 ^ k - 1\<close> for the largest power of two \<open>2 ^ k\<close> that is no
  larger than the average size.\<close>

theorem generic_open_mask:
  assumes "0 < average" "average < 2 ^ 63"
  shows "\<exists>k. ab_generic_open junk input average = Some (chop_anchor_based_chopper_init junk input 48 (2 ^ k - 1))
    \<and> 2 ^ k \<le> unat average \<and> unat average < 2 ^ (k + 1)"
proof -
  have "2 ^ 0 \<le> unat average" using assms(1) by (simp add: word_less_nat_alt Suc_le_eq)
  from power_below_steps [OF this assms(2)] obtain k where
    "power_below average (2 ^ 0) = Some (2 ^ k)" "2 ^ k \<le> unat average" "unat average < 2 ^ (k + 1)" by blast
  moreover have "average \<noteq> 0" using assms(1) by auto
  ultimately show ?thesis by (auto simp: ab_generic_open_def)
qed

theorem generic_open_mask_witness:
  "\<exists>k. ab_generic_open (0, 0) () 8192 = Some (chop_anchor_based_chopper_init (0, 0) () 48 (2 ^ k - 1))
    \<and> 2 ^ k \<le> unat (8192 :: 64 word) \<and> unat (8192 :: 64 word) < 2 ^ (k + 1)"
  using generic_open_mask [of 8192 "(0, 0)" "()"] by simp

text \<open>C36: For an average block size of \<open>2 ^ 63\<close> or more the loop of \<^verbatim>\<open>ab_generic_open\<close> does not end:
  the shift wraps around to zero, which stays below the average.\<close>

theorem generic_open_diverges:
  assumes "2 ^ 63 \<le> average"
  shows "ab_generic_open junk input average = None"
proof -
  have "average \<noteq> 0" using assms by auto
  moreover have "power_below average 1 = None"
  proof (cases "power_below average 1")
    case (Some y)
    have "\<exists>k<64. (1 :: 64 word) = 2 ^ k" by (rule exI [of _ 0]) simp
    with power_below_diverges [OF Some] assms show ?thesis by blast
  qed
  ultimately show ?thesis by (simp add: ab_generic_open_def)
qed

theorem generic_open_diverges_witness: "ab_generic_open (0, 0) () (2 ^ 63) = None"
  by (rule generic_open_diverges) simp

end
