(* ===== verification/Chop_Anchor_Roundtrip.thy ===== *)
theory Chop_Anchor_Roundtrip
  imports Chop_Tree_Roundtrip Chop_Anchor_Correct
begin

text \<open>
  Storing and retrieving a stream that the anchor-based chopper cuts.
\<close>

lemma anchor_block_bounds:
  shows "\<forall>x \<in> set (anchor_blocks ws magic data). length x \<le> length data"
    "length (anchor_blocks ws magic data) \<le> length data"
proof -
  have "\<forall>x \<in> set xs. length x \<le> length (concat xs)" for xs :: "bytes list"
    by (induction xs) auto
  moreover have "length xs \<le> length (concat xs)" if "[] \<notin> set xs" for xs :: "bytes list"
    using that
  proof (induction xs)
    case (Cons x xs)
    then show ?case by (cases x) auto
  qed simp
  ultimately show "\<forall>x \<in> set (anchor_blocks ws magic data). length x \<le> length data"
    "length (anchor_blocks ws magic data) \<le> length data"
    using anchor_blocks_nonempty [of ws magic data] concat_anchor_blocks [of ws magic data] by metis+
qed

text \<open>The same with the anchor-based chopper in place of the fixed-size one: a non-empty stream of
  less than 4 GiB, cut at its anchors, indexed by content hash and stored, is read back
  byte for byte unless two of the blocks written collide.\<close>

theorem anchor_tree_round_trip:
  assumes "db_laws ops mp" "db_writable ops" "db_open w" "mp (db w) = Map.empty"
    and "md_laws G" "chop_hash_size m \<noteq> 0" "3 \<le> ipb" "10 + (ipb - 1) * 72 < 2 ^ 32"
    and "2 \<le> ws" "data \<noteq> []" "length data < 2 ^ 32"
  shows "\<exists>h c' i' lg w'.
      chop_tree_index_blocks ipb (chop_anchor_chopper_read_block chop_mem_stream_read)
        (hash_indexer G) hash_index_handle_class (generic_db_store ops) (generic_db_store ops)
        (chop_anchor_based_chopper_init ajunk (chop_mem_stream_open data (length data)) ws msk)
        (\<lparr>hbi_hash_method = m\<rparr>, w) = Some (CHOP_OK, Some h, c', i', w')
    \<and> chop_tree_index_blocks ipb (chop_anchor_chopper_read_block chop_mem_stream_read)
        (logged (hash_indexer G)) hash_index_handle_class (generic_db_store ops) (generic_db_store ops)
        (chop_anchor_based_chopper_init ajunk (chop_mem_stream_open data (length data)) ws msk)
        ((\<lparr>hbi_hash_method = m\<rparr>, []), w) = Some (CHOP_OK, Some h, c', (i', lg), w')
    \<and> (hash_compat lg \<longrightarrow>
        (\<exists>s'. chop_chopper_read_block (read_whole_stream (tree_stream_read
            (hash_fetcher G) hash_index_handle_class
            (generic_db_store ops) (generic_db_store ops) junk))
          (chop_tree_fetch_stream h, \<lparr>hbf_hash_method = m\<rparr>, w') [] = Some ((CHOP_OK, data, length data), s')))"
proof -
  let ?ch = "chop_anchor_based_chopper_init ajunk (chop_mem_stream_open data (length data)) ws msk"
  let ?blocks = "\<lambda>c. anchor_blocks ws (ucast msk) (mem_chop.anchor_rest c)"
  note i = anchor_init_inv [OF mem_open_rest(2) [symmetric] mem_open_rest(1)]
  have ch: "mem_chop.anchor_inv ws (ucast msk) ?ch" by (rule i(1))
  have "?blocks ?ch = anchor_blocks ws (ucast msk) data" by (simp only: i(2))
  then have "?blocks ?ch \<noteq> []" "\<forall>x \<in> set (?blocks ?ch). length x < 2 ^ 32"
    "length (?blocks ?ch) \<le> 2 ^ 64" "concat (?blocks ?ch) = data"
    using concat_anchor_blocks [of ws "ucast msk" data] anchor_block_bounds [of ws "ucast msk" data] assms(10,11)
    by (auto simp del: concat_anchor_blocks)
  with ch show ?thesis
    by (rule hash_round_trip_source [OF anchor_block_source_mem [OF assms(9)], where mp = mp]) (use assms in simp_all)
qed

theorem anchor_tree_round_trip_witness:
  "\<exists>h c' i' w' s'.
      chop_tree_index_blocks 3 (chop_anchor_chopper_read_block chop_mem_stream_read)
        (hash_indexer sample_md) hash_index_handle_class sample_db sample_db
        (chop_anchor_based_chopper_init (0, 0) (chop_mem_stream_open [7] (length ([7] :: bytes))) 2 3)
        (\<lparr>hbi_hash_method = CHOP_HASH_MD5\<rparr>, \<lparr>db = [], db_open = True\<rparr>) = Some (CHOP_OK, Some h, c', i', w')
    \<and> chop_chopper_read_block (read_whole_stream (tree_stream_read
            (hash_fetcher sample_md) hash_index_handle_class
            sample_db sample_db sample_junk)) (chop_tree_fetch_stream h, \<lparr>hbf_hash_method = CHOP_HASH_MD5\<rparr>, w') []
        = Some ((CHOP_OK, [7], length ([7] :: bytes)), s')"
proof -
  let ?rb = "chop_anchor_chopper_read_block chop_mem_stream_read"
  let ?ch = "chop_anchor_based_chopper_init (0, 0) (chop_mem_stream_open [7] (length ([7] :: bytes))) 2 3"
  note src = anchor_block_source_mem [of 2 "ucast (3 :: 64 word)"]
  note i = anchor_init_inv [OF mem_open_rest(2) [symmetric] mem_open_rest(1)]
  have "anchor_blocks 2 (ucast (3 :: 64 word)) (mem_chop.anchor_rest ?ch) = [[7]]"
    unfolding i(2) by (simp add: anchor_blocks.simps find_anchor.simps)
  from block_source.read_next [OF src i(1) this] obtain c1 where c1:
    "chop_chopper_read_block ?rb ?ch [] = Some ((CHOP_OK, [7], 1), c1)" "mem_chop.anchor_inv 2 (ucast (3 :: 64 word)) c1"
    "anchor_blocks 2 (ucast (3 :: 64 word)) (mem_chop.anchor_rest c1) = []"
    by (metis One_nat_def le_refl length_Cons list.size(3))
  from block_source.read_last [OF src c1(2,3)] obtain b2 c2 where
    c2: "chop_chopper_read_block ?rb c1 [] = Some ((CHOP_STREAM_END, b2, 0), c2)"
    using le_refl by metis
  have wr: "db_writable alist_db" by (simp add: db_writable_def alist_db_def)
  have "chop_hash_size CHOP_HASH_MD5 \<noteq> 0" by (simp add: chop_hash_size_def hash_methods_def)
  from anchor_tree_round_trip [OF alist_db_laws wr _ _ sample_md_laws this, of "\<lparr>db = [], db_open = True\<rparr>" 3 2 "[7]" "(0, 0)" 3 sample_junk]
    sample_run [OF c1(1) c2] show ?thesis by force
qed

end
