(* ===== verification/Chop_Cipher.thy ===== *)
theory Chop_Cipher
  imports Chop_Hash
begin

text \<open>
  Ciphers (\<^verbatim>\<open>src/src/cipher.c\<close>, \<^verbatim>\<open>include/chop/cipher.h\<close>): the tables of algorithms and modes and
  the thin layer over libgcrypt, whose functions are the record \<open>gcry\<close>.  What libgcrypt
  documents about them is \<open>cipher_laws\<close>.
\<close>

section \<open>Algorithms and modes\<close>

datatype chop_cipher_algo =
    CHOP_CIPHER_NONE | CHOP_CIPHER_IDEA | CHOP_CIPHER_3DES | CHOP_CIPHER_CAST5 | CHOP_CIPHER_BLOWFISH
  | CHOP_CIPHER_SAFER_SK128 | CHOP_CIPHER_DES_SK | CHOP_CIPHER_AES | CHOP_CIPHER_AES192
  | CHOP_CIPHER_AES256 | CHOP_CIPHER_TWOFISH | CHOP_CIPHER_TWOFISH128 | CHOP_CIPHER_ARCFOUR
  | CHOP_CIPHER_DES

datatype chop_cipher_mode =
    CHOP_CIPHER_MODE_NONE | CHOP_CIPHER_MODE_ECB | CHOP_CIPHER_MODE_CFB | CHOP_CIPHER_MODE_CBC
  | CHOP_CIPHER_MODE_STREAM | CHOP_CIPHER_MODE_OFB | CHOP_CIPHER_MODE_CTR | CHOP_CIPHER_MODE_AESWRAP

definition cipher_algos :: "(chop_cipher_algo \<times> string) list" where
  "cipher_algos =
    [(CHOP_CIPHER_NONE, ''NONE''), (CHOP_CIPHER_IDEA, ''IDEA''), (CHOP_CIPHER_3DES, ''3DES''),
     (CHOP_CIPHER_CAST5, ''CAST5''), (CHOP_CIPHER_BLOWFISH, ''BLOWFISH''),
     (CHOP_CIPHER_SAFER_SK128, ''SAFER_SK128''), (CHOP_CIPHER_DES_SK, ''DES_SK''),
     (CHOP_CIPHER_AES, ''AES''), (CHOP_CIPHER_AES192, ''AES192''), (CHOP_CIPHER_AES256, ''AES256''),
     (CHOP_CIPHER_TWOFISH, ''TWOFISH''), (CHOP_CIPHER_TWOFISH128, ''TWOFISH128''),
     (CHOP_CIPHER_ARCFOUR, ''ARCFOUR''), (CHOP_CIPHER_DES, ''DES'')]"

definition cipher_modes :: "(chop_cipher_mode \<times> string) list" where
  "cipher_modes =
    [(CHOP_CIPHER_MODE_NONE, ''NONE''), (CHOP_CIPHER_MODE_ECB, ''ECB''), (CHOP_CIPHER_MODE_CFB, ''CFB''),
     (CHOP_CIPHER_MODE_CBC, ''CBC''), (CHOP_CIPHER_MODE_STREAM, ''STREAM''), (CHOP_CIPHER_MODE_OFB, ''OFB''),
     (CHOP_CIPHER_MODE_CTR, ''CTR''), (CHOP_CIPHER_MODE_AESWRAP, ''AESWRAP'')]"

text \<open>The value of a constant of the enumerations, an index into the tables.\<close>

primrec cipher_algo_index :: "chop_cipher_algo \<Rightarrow> nat" where
  "cipher_algo_index CHOP_CIPHER_NONE = 0"
| "cipher_algo_index CHOP_CIPHER_IDEA = 1"
| "cipher_algo_index CHOP_CIPHER_3DES = 2"
| "cipher_algo_index CHOP_CIPHER_CAST5 = 3"
| "cipher_algo_index CHOP_CIPHER_BLOWFISH = 4"
| "cipher_algo_index CHOP_CIPHER_SAFER_SK128 = 5"
| "cipher_algo_index CHOP_CIPHER_DES_SK = 6"
| "cipher_algo_index CHOP_CIPHER_AES = 7"
| "cipher_algo_index CHOP_CIPHER_AES192 = 8"
| "cipher_algo_index CHOP_CIPHER_AES256 = 9"
| "cipher_algo_index CHOP_CIPHER_TWOFISH = 10"
| "cipher_algo_index CHOP_CIPHER_TWOFISH128 = 11"
| "cipher_algo_index CHOP_CIPHER_ARCFOUR = 12"
| "cipher_algo_index CHOP_CIPHER_DES = 13"

primrec cipher_mode_index :: "chop_cipher_mode \<Rightarrow> nat" where
  "cipher_mode_index CHOP_CIPHER_MODE_NONE = 0"
| "cipher_mode_index CHOP_CIPHER_MODE_ECB = 1"
| "cipher_mode_index CHOP_CIPHER_MODE_CFB = 2"
| "cipher_mode_index CHOP_CIPHER_MODE_CBC = 3"
| "cipher_mode_index CHOP_CIPHER_MODE_STREAM = 4"
| "cipher_mode_index CHOP_CIPHER_MODE_OFB = 5"
| "cipher_mode_index CHOP_CIPHER_MODE_CTR = 6"
| "cipher_mode_index CHOP_CIPHER_MODE_AESWRAP = 7"

definition chop_cipher_algo_name :: "chop_cipher_algo \<Rightarrow> bytes" where
  "chop_cipher_algo_name algo = ascii (snd (cipher_algos ! cipher_algo_index algo))"

definition chop_cipher_mode_name :: "chop_cipher_mode \<Rightarrow> bytes" where
  "chop_cipher_mode_name mode = ascii (snd (cipher_modes ! cipher_mode_index mode))"

definition chop_cipher_algo_lookup :: "bytes \<Rightarrow> chop_cipher_algo result" where
  "chop_cipher_algo_lookup name =
    (case find (\<lambda>p. strcasecmp_eq (ascii (snd p)) name) cipher_algos of
       Some p \<Rightarrow> Inr (fst p)
     | None \<Rightarrow> Inl CHOP_ERR_NOT_FOUND)"

definition chop_cipher_mode_lookup :: "bytes \<Rightarrow> chop_cipher_mode result" where
  "chop_cipher_mode_lookup name =
    (case find (\<lambda>p. strcasecmp_eq (ascii (snd p)) name) cipher_modes of
       Some p \<Rightarrow> Inr (fst p)
     | None \<Rightarrow> Inl CHOP_ERR_NOT_FOUND)"

section \<open>The functions of libgcrypt\<close>

datatype gcry_status = GCRY_OK | GCRY_WEAK_KEY | GCRY_FAILED

text \<open>\<open>'g\<close> is \<^verbatim>\<open>gcry_cipher_hd_t\<close> with what it points to, \<open>'r\<close> the state of the random
  generator.  Encryption and decryption are called with as many bytes of output as of input.\<close>

record ('g, 'r) gcry =
  gcry_cipher_open :: "chop_cipher_algo \<Rightarrow> chop_cipher_mode \<Rightarrow> 'g option"
  gcry_cipher_get_algo_keylen :: "chop_cipher_algo \<Rightarrow> nat"
  gcry_cipher_get_algo_blklen :: "chop_cipher_algo \<Rightarrow> nat"
  gcry_cipher_setkey :: "'g \<Rightarrow> bytes \<Rightarrow> gcry_status \<times> 'g"
  gcry_cipher_setiv :: "'g \<Rightarrow> bytes \<Rightarrow> bool \<times> 'g"
  gcry_cipher_reset :: "'g \<Rightarrow> 'g"
  gcry_cipher_encrypt :: "'g \<Rightarrow> bytes \<Rightarrow> bytes option \<times> 'g"
  gcry_cipher_decrypt :: "'g \<Rightarrow> bytes \<Rightarrow> bytes option \<times> 'g"
  gcry_randomize :: "nat \<Rightarrow> 'r \<Rightarrow> bytes \<times> 'r"

section \<open>Cipher handles\<close>

record 'g chop_cipher_handle =
  gcry_handle :: 'g
  ch_algo :: chop_cipher_algo
  ch_mode :: chop_cipher_mode

text \<open>NULL is None.\<close>

definition chop_cipher_open ::
  "('g, 'r) gcry \<Rightarrow> chop_cipher_algo \<Rightarrow> chop_cipher_mode \<Rightarrow> 'g chop_cipher_handle option" where
  "chop_cipher_open gc algo mode =
    (case gcry_cipher_open gc algo mode of
       None \<Rightarrow> None
     | Some g \<Rightarrow> Some \<lparr>gcry_handle = g, ch_algo = algo, ch_mode = mode\<rparr>)"

definition chop_cipher_copy ::
  "('g, 'r) gcry \<Rightarrow> 'g chop_cipher_handle \<Rightarrow> 'g chop_cipher_handle option" where
  "chop_cipher_copy gc handle = chop_cipher_open gc (ch_algo handle) (ch_mode handle)"

definition chop_cipher_algorithm :: "'g chop_cipher_handle \<Rightarrow> chop_cipher_algo" where
  "chop_cipher_algorithm handle = ch_algo handle"

definition chop_cipher_mode_of :: "'g chop_cipher_handle \<Rightarrow> chop_cipher_mode" where
  "chop_cipher_mode_of handle = ch_mode handle"

definition chop_cipher_algo_key_size :: "('g, 'r) gcry \<Rightarrow> chop_cipher_algo \<Rightarrow> nat" where
  "chop_cipher_algo_key_size gc algo = gcry_cipher_get_algo_keylen gc algo"

definition chop_cipher_algo_block_size :: "('g, 'r) gcry \<Rightarrow> chop_cipher_algo \<Rightarrow> nat" where
  "chop_cipher_algo_block_size gc algo = gcry_cipher_get_algo_blklen gc algo"

definition chop_cipher_set_key ::
  "('g, 'r) gcry \<Rightarrow> 'g chop_cipher_handle \<Rightarrow> bytes \<Rightarrow> chop_error \<times> 'g chop_cipher_handle" where
  "chop_cipher_set_key gc handle key =
    (case gcry_cipher_setkey gc (gcry_handle handle) key of
       (gerr, g) \<Rightarrow>
         (case gerr of GCRY_WEAK_KEY \<Rightarrow> CHOP_CIPHER_WEAK_KEY | GCRY_FAILED \<Rightarrow> CHOP_OUT_OF_RANGE_ARG
          | GCRY_OK \<Rightarrow> CHOP_OK, handle\<lparr>gcry_handle := g\<rparr>))"

definition chop_cipher_set_iv ::
  "('g, 'r) gcry \<Rightarrow> 'g chop_cipher_handle \<Rightarrow> bytes \<Rightarrow> chop_error \<times> 'g chop_cipher_handle" where
  "chop_cipher_set_iv gc handle iv =
    (case gcry_cipher_setiv gc (gcry_handle handle) iv of
       (ok, g) \<Rightarrow> (if ok then CHOP_OK else CHOP_OUT_OF_RANGE_ARG, handle\<lparr>gcry_handle := g\<rparr>))"

definition chop_cipher_reset :: "('g, 'r) gcry \<Rightarrow> 'g chop_cipher_handle \<Rightarrow> 'g chop_cipher_handle" where
  "chop_cipher_reset gc handle = handle\<lparr>gcry_handle := gcry_cipher_reset gc (gcry_handle handle)\<rparr>"

definition chop_cipher_encrypt ::
  "('g, 'r) gcry \<Rightarrow> 'g chop_cipher_handle \<Rightarrow> bytes \<Rightarrow> bytes result \<times> 'g chop_cipher_handle" where
  "chop_cipher_encrypt gc cipher input =
    (case gcry_cipher_encrypt gc (gcry_handle cipher) input of
       (out, g) \<Rightarrow> (case out of None \<Rightarrow> Inl CHOP_INVALID_ARG | Some c \<Rightarrow> Inr c, cipher\<lparr>gcry_handle := g\<rparr>))"

definition chop_cipher_decrypt ::
  "('g, 'r) gcry \<Rightarrow> 'g chop_cipher_handle \<Rightarrow> bytes \<Rightarrow> bytes result \<times> 'g chop_cipher_handle" where
  "chop_cipher_decrypt gc cipher input =
    (case gcry_cipher_decrypt gc (gcry_handle cipher) input of
       (out, g) \<Rightarrow> (case out of None \<Rightarrow> Inl CHOP_INVALID_ARG | Some c \<Rightarrow> Inr c, cipher\<lparr>gcry_handle := g\<rparr>))"

definition chop_randomize :: "('g, 'r) gcry \<Rightarrow> nat \<Rightarrow> 'r \<Rightarrow> bytes \<times> 'r" where
  "chop_randomize gc sz r = gcry_randomize gc sz r"

section \<open>What libgcrypt documents\<close>

text \<open>The abstract state of a libgcrypt handle: its algorithm and mode, its key, and whether nothing
  was encrypted or decrypted since it was reset; then what its functions compute.\<close>

record 'g cipher_spec =
  cs_kind :: "'g \<Rightarrow> chop_cipher_algo \<times> chop_cipher_mode"
  cs_key :: "'g \<Rightarrow> bytes option"
  cs_fresh :: "'g \<Rightarrow> bool"
  cs_weak :: "chop_cipher_algo \<Rightarrow> bytes \<Rightarrow> bool"
  cs_encrypt :: "chop_cipher_algo \<times> chop_cipher_mode \<Rightarrow> bytes \<Rightarrow> bytes \<Rightarrow> bytes"
  cs_decrypt :: "chop_cipher_algo \<times> chop_cipher_mode \<Rightarrow> bytes \<Rightarrow> bytes \<Rightarrow> bytes"

definition plain_mode :: "chop_cipher_mode \<Rightarrow> bool" where
  "plain_mode mode \<longleftrightarrow> mode \<noteq> CHOP_CIPHER_MODE_NONE \<and> mode \<noteq> CHOP_CIPHER_MODE_AESWRAP"

text \<open>Resetting keeps the key; setting a key of the right length fails only on weak keys; on a fresh
  handle, whole blocks are encrypted and decrypted under the key, and these are inverse.\<close>

definition cipher_laws :: "('g, 'r) gcry \<Rightarrow> 'g cipher_spec \<Rightarrow> bool" where
  "cipher_laws gc cs \<longleftrightarrow>
    (\<forall>a m g. gcry_cipher_open gc a m = Some g \<longrightarrow> cs_kind cs g = (a, m))
    \<and> (\<forall>g. cs_kind cs (gcry_cipher_reset gc g) = cs_kind cs g \<and> cs_fresh cs (gcry_cipher_reset gc g))
    \<and> (\<forall>g k r g'. length k = gcry_cipher_get_algo_keylen gc (fst (cs_kind cs g)) \<longrightarrow>
          gcry_cipher_setkey gc g k = (r, g') \<longrightarrow>
          r = (if cs_weak cs (fst (cs_kind cs g)) k then GCRY_WEAK_KEY else GCRY_OK)
          \<and> cs_kind cs g' = cs_kind cs g \<and> cs_fresh cs g' = cs_fresh cs g
          \<and> (r = GCRY_OK \<longrightarrow> cs_key cs g' = Some k))
    \<and> (\<forall>g k x r g'. cs_fresh cs g \<longrightarrow> cs_key cs g = Some k \<longrightarrow> plain_mode (snd (cs_kind cs g)) \<longrightarrow>
          gcry_cipher_get_algo_blklen gc (fst (cs_kind cs g)) dvd length x \<longrightarrow>
          (gcry_cipher_encrypt gc g x = (r, g') \<longrightarrow>
             r = Some (cs_encrypt cs (cs_kind cs g) k x) \<and> cs_kind cs g' = cs_kind cs g)
          \<and> (gcry_cipher_decrypt gc g x = (r, g') \<longrightarrow>
             r = Some (cs_decrypt cs (cs_kind cs g) k x) \<and> cs_kind cs g' = cs_kind cs g))
    \<and> (\<forall>a m k x. plain_mode m \<longrightarrow> gcry_cipher_get_algo_blklen gc a dvd length x \<longrightarrow>
          length k = gcry_cipher_get_algo_keylen gc a \<longrightarrow>
          length (cs_encrypt cs (a, m) k x) = length x
          \<and> cs_decrypt cs (a, m) k (cs_encrypt cs (a, m) k x) = x)
    \<and> (\<forall>n r. length (fst (gcry_randomize gc n r)) = n)"

text \<open>The key drawn after \<open>j\<close> others; a generator that gives, sooner or later, a key that is not weak.\<close>

primrec drawn_key :: "('g, 'r) gcry \<Rightarrow> nat \<Rightarrow> nat \<Rightarrow> 'r \<Rightarrow> bytes" where
  "drawn_key gc n 0 r = fst (gcry_randomize gc n r)"
| "drawn_key gc n (Suc j) r = drawn_key gc n j (snd (gcry_randomize gc n r))"

definition random_keys :: "('g, 'r) gcry \<Rightarrow> 'g cipher_spec \<Rightarrow> chop_cipher_algo \<Rightarrow> bool" where
  "random_keys gc cs algo \<longleftrightarrow>
    (\<forall>r. \<exists>j. \<not> cs_weak cs algo (drawn_key gc (gcry_cipher_get_algo_keylen gc algo) j r))"

text \<open>A handle for \<open>algo\<close> and \<open>mode\<close>.\<close>

definition cipher_for ::
  "'g cipher_spec \<Rightarrow> chop_cipher_algo \<Rightarrow> chop_cipher_mode \<Rightarrow> 'g chop_cipher_handle \<Rightarrow> bool" where
  "cipher_for cs algo mode ch \<longleftrightarrow>
    ch_algo ch = algo \<and> ch_mode ch = mode \<and> cs_kind cs (gcry_handle ch) = (algo, mode)"

lemma cipher_for_open:
  assumes "cipher_laws gc cs" "chop_cipher_open gc algo mode = Some ch"
  shows "cipher_for cs algo mode ch"
proof -
  have "\<forall>a m g. gcry_cipher_open gc a m = Some g \<longrightarrow> cs_kind cs g = (a, m)"
    using assms(1) unfolding cipher_laws_def by (elim conjE) assumption
  with assms(2) show ?thesis by (auto simp: chop_cipher_open_def cipher_for_def split: option.splits)
qed

lemma cipher_for_reset:
  assumes "cipher_laws gc cs" "cipher_for cs algo mode ch"
  shows "cipher_for cs algo mode (chop_cipher_reset gc ch)" "cs_fresh cs (gcry_handle (chop_cipher_reset gc ch))"
proof -
  have "\<forall>g. cs_kind cs (gcry_cipher_reset gc g) = cs_kind cs g \<and> cs_fresh cs (gcry_cipher_reset gc g)"
    using assms(1) unfolding cipher_laws_def by (elim conjE) assumption
  with assms(2) show "cipher_for cs algo mode (chop_cipher_reset gc ch)"
    "cs_fresh cs (gcry_handle (chop_cipher_reset gc ch))"
    by (simp_all add: chop_cipher_reset_def cipher_for_def)
qed

lemma cipher_for_set_key:
  assumes "cipher_laws gc cs" "cipher_for cs algo mode ch" "length k = gcry_cipher_get_algo_keylen gc algo"
    and "chop_cipher_set_key gc ch k = (err, ch')"
  shows "err = (if cs_weak cs algo k then CHOP_CIPHER_WEAK_KEY else CHOP_OK)"
    "cipher_for cs algo mode ch'" "cs_fresh cs (gcry_handle ch') = cs_fresh cs (gcry_handle ch)"
    "err = CHOP_OK \<Longrightarrow> cs_key cs (gcry_handle ch') = Some k"
proof -
  obtain r g where g: "gcry_cipher_setkey gc (gcry_handle ch) k = (r, g)" by (metis prod.exhaust)
  have kind: "cs_kind cs (gcry_handle ch) = (algo, mode)" using assms(2) by (simp add: cipher_for_def)
  have "length k = gcry_cipher_get_algo_keylen gc (fst (cs_kind cs (gcry_handle ch)))"
    using assms(3) kind by simp
  moreover have "\<forall>g k r g'. length k = gcry_cipher_get_algo_keylen gc (fst (cs_kind cs g)) \<longrightarrow>
          gcry_cipher_setkey gc g k = (r, g') \<longrightarrow>
          r = (if cs_weak cs (fst (cs_kind cs g)) k then GCRY_WEAK_KEY else GCRY_OK)
          \<and> cs_kind cs g' = cs_kind cs g \<and> cs_fresh cs g' = cs_fresh cs g
          \<and> (r = GCRY_OK \<longrightarrow> cs_key cs g' = Some k)"
    using assms(1) unfolding cipher_laws_def by (elim conjE) assumption
  ultimately have r: "r = (if cs_weak cs algo k then GCRY_WEAK_KEY else GCRY_OK)" "cs_kind cs g = (algo, mode)"
    "cs_fresh cs g = cs_fresh cs (gcry_handle ch)" "r = GCRY_OK \<Longrightarrow> cs_key cs g = Some k"
    using g kind by (metis fst_conv)+
  show "err = (if cs_weak cs algo k then CHOP_CIPHER_WEAK_KEY else CHOP_OK)"
    "cipher_for cs algo mode ch'" "cs_fresh cs (gcry_handle ch') = cs_fresh cs (gcry_handle ch)"
    "err = CHOP_OK \<Longrightarrow> cs_key cs (gcry_handle ch') = Some k"
    using assms(2,4) g r by (auto simp: chop_cipher_set_key_def cipher_for_def split: if_splits)
qed

lemma cipher_for_crypt:
  assumes "cipher_laws gc cs" "cipher_for cs algo mode ch" "plain_mode mode"
    and "cs_fresh cs (gcry_handle ch)" "cs_key cs (gcry_handle ch) = Some k"
    and "gcry_cipher_get_algo_blklen gc algo dvd length x"
  shows "chop_cipher_encrypt gc ch x = (r, ch') \<Longrightarrow>
      r = Inr (cs_encrypt cs (algo, mode) k x) \<and> cipher_for cs algo mode ch'"
    "chop_cipher_decrypt gc ch x = (r, ch') \<Longrightarrow>
      r = Inr (cs_decrypt cs (algo, mode) k x) \<and> cipher_for cs algo mode ch'"
proof -
  have kind: "cs_kind cs (gcry_handle ch) = (algo, mode)" using assms(2) by (simp add: cipher_for_def)
  have "\<forall>g k x r g'. cs_fresh cs g \<longrightarrow> cs_key cs g = Some k \<longrightarrow> plain_mode (snd (cs_kind cs g)) \<longrightarrow>
          gcry_cipher_get_algo_blklen gc (fst (cs_kind cs g)) dvd length x \<longrightarrow>
          (gcry_cipher_encrypt gc g x = (r, g') \<longrightarrow>
             r = Some (cs_encrypt cs (cs_kind cs g) k x) \<and> cs_kind cs g' = cs_kind cs g)
          \<and> (gcry_cipher_decrypt gc g x = (r, g') \<longrightarrow>
             r = Some (cs_decrypt cs (cs_kind cs g) k x) \<and> cs_kind cs g' = cs_kind cs g)"
    using assms(1) unfolding cipher_laws_def by (elim conjE) assumption
  note laws = this [rule_format, of "gcry_handle ch", OF assms(4,5), unfolded kind fst_conv snd_conv, OF assms(3,6)]
  show "chop_cipher_encrypt gc ch x = (r, ch') \<Longrightarrow>
      r = Inr (cs_encrypt cs (algo, mode) k x) \<and> cipher_for cs algo mode ch'"
    "chop_cipher_decrypt gc ch x = (r, ch') \<Longrightarrow>
      r = Inr (cs_decrypt cs (algo, mode) k x) \<and> cipher_for cs algo mode ch'"
    using laws assms(2)
    by (auto simp: chop_cipher_encrypt_def chop_cipher_decrypt_def cipher_for_def split: prod.splits option.splits)
qed

lemma cipher_round_trip:
  assumes "cipher_laws gc cs" "plain_mode mode" "gcry_cipher_get_algo_blklen gc algo dvd length x"
    and "length k = gcry_cipher_get_algo_keylen gc algo"
  shows "length (cs_encrypt cs (algo, mode) k x) = length x"
    "cs_decrypt cs (algo, mode) k (cs_encrypt cs (algo, mode) k x) = x"
  using assms unfolding cipher_laws_def by blast+

lemma randomize_length: "cipher_laws gc cs \<Longrightarrow> length (fst (chop_randomize gc n r)) = n"
  unfolding cipher_laws_def chop_randomize_def by blast

text \<open>Every algorithm and every mode is found under its name, in upper or lower case.\<close>

lemma cipher_names:
  "chop_cipher_algo_lookup (chop_cipher_algo_name a) = Inr a"
  "chop_cipher_algo_lookup (map tolower (chop_cipher_algo_name a)) = Inr a"
  "chop_cipher_mode_lookup (chop_cipher_mode_name m) = Inr m"
  "chop_cipher_mode_lookup (map tolower (chop_cipher_mode_name m)) = Inr m"
  by (cases a; simp add: chop_cipher_algo_lookup_def chop_cipher_algo_name_def cipher_algos_def
      strcasecmp_eq_def ascii_def toupper_def tolower_def)+
     (cases m; simp add: chop_cipher_mode_lookup_def chop_cipher_mode_name_def cipher_modes_def
      strcasecmp_eq_def ascii_def toupper_def tolower_def)+

section \<open>A sample cipher\<close>

text \<open>Keys of two bytes, blocks of four, and exclusive or with the first byte of the key.  The key of
  zeros is weak; the generator counts.\<close>

type_synonym sample_hd = "(chop_cipher_algo \<times> chop_cipher_mode) \<times> bytes option \<times> bool"

definition sample_xor :: "bytes \<Rightarrow> bytes \<Rightarrow> bytes" where
  "sample_xor k = map (\<lambda>b. b XOR k ! 0)"

definition sample_crypt :: "sample_hd \<Rightarrow> bytes \<Rightarrow> bytes option \<times> sample_hd" where
  "sample_crypt = (\<lambda>(kind, key, fresh) x. (map_option (\<lambda>k. sample_xor k x) key, (kind, key, False)))"

definition sample_gcry :: "(sample_hd, nat) gcry" where
  "sample_gcry =
    \<lparr>gcry_cipher_open = (\<lambda>a m. Some ((a, m), None, True)),
     gcry_cipher_get_algo_keylen = (\<lambda>a. 2), gcry_cipher_get_algo_blklen = (\<lambda>a. 4),
     gcry_cipher_setkey = (\<lambda>(kind, key, fresh) k.
       (if length k \<noteq> 2 then GCRY_FAILED else if k = [0, 0] then GCRY_WEAK_KEY else GCRY_OK, (kind, Some k, fresh))),
     gcry_cipher_setiv = (\<lambda>g iv. (False, g)),
     gcry_cipher_reset = (\<lambda>(kind, key, fresh). (kind, key, True)),
     gcry_cipher_encrypt = sample_crypt, gcry_cipher_decrypt = sample_crypt,
     gcry_randomize = (\<lambda>n r. (replicate n (of_nat r), Suc r))\<rparr>"

definition sample_cs :: "sample_hd cipher_spec" where
  "sample_cs =
    \<lparr>cs_kind = fst, cs_key = (\<lambda>g. fst (snd g)), cs_fresh = (\<lambda>g. snd (snd g)), cs_weak = (\<lambda>a k. k = [0, 0]),
     cs_encrypt = (\<lambda>kind k. sample_xor k), cs_decrypt = (\<lambda>kind k. sample_xor k)\<rparr>"

lemma sample_cipher_laws: "cipher_laws sample_gcry sample_cs"
  by (auto simp: cipher_laws_def sample_gcry_def sample_cs_def sample_crypt_def sample_xor_def xor.assoc
      comp_def)

lemma sample_random_keys: "random_keys sample_gcry sample_cs algo"
  unfolding random_keys_def
proof
  fix r :: nat
  have "\<not> cs_weak sample_cs algo (drawn_key sample_gcry 2 0 r) \<or> \<not> cs_weak sample_cs algo (drawn_key sample_gcry 2 1 r)"
    by (auto simp: sample_cs_def sample_gcry_def numeral_2_eq_2 numeral_eq_Suc)
  moreover have "gcry_cipher_get_algo_keylen sample_gcry algo = 2" by (simp add: sample_gcry_def)
  ultimately show "\<exists>j. \<not> cs_weak sample_cs algo (drawn_key sample_gcry (gcry_cipher_get_algo_keylen sample_gcry algo) j r)"
    by metis
qed

end
