(* ===== verification/Chop_CHK.thy ===== *)
theory Chop_CHK
  imports Chop_Cipher
begin

text \<open>
  The block indexer that encrypts each block under a key derived from its own hash, content-hash
  keys (\<^verbatim>\<open>src/src/block-indexer-chk.c\<close>).  The store holds ciphertexts under their hash; the handle
  has the key.  None is a call that does not return: a failed assertion, a NULL cipher handle
  that is dereferenced, a division by zero, or an endless search for a key that is not weak.
\<close>

section \<open>Index handles\<close>

text \<open>\<open>chk_key\<close> and \<open>chk_block_id\<close> hold the valid bytes of the 1024-byte arrays; \<open>chk_size\<close> is the
  \<^verbatim>\<open>size\<close> field of the parent class.\<close>

record chk_index_handle =
  chk_block_size :: nat
  chk_key_size :: nat
  chk_key :: bytes
  chk_block_id_size :: nat
  chk_block_id :: bytes
  chk_size :: nat

definition chk_equalp :: "chk_index_handle \<Rightarrow> chk_index_handle \<Rightarrow> bool" where
  "chk_equalp chk1 chk2 =
    (chk_block_size chk1 = chk_block_size chk2 \<and> chk_key_size chk1 = chk_key_size chk2
     \<and> chk_block_id_size chk1 = chk_block_id_size chk2
     \<and> take (chk_key_size chk1) (chk_key chk1) = take (chk_key_size chk1) (chk_key chk2)
     \<and> take (chk_block_id_size chk1) (chk_block_id chk1) = take (chk_block_id_size chk1) (chk_block_id chk2))"

definition chk_serialize :: "chop_serial_method \<Rightarrow> chk_index_handle \<Rightarrow> bytes result option" where
  "chk_serialize meth handle =
    (let key = take (chk_key_size handle) (chk_key handle);
         block_id = take (chk_block_id_size handle) (chk_block_id handle)
     in case meth of
       CHOP_SERIAL_ASCII \<Rightarrow>
         Some (Inr (chop_buffer_to_base32_string key @ [of_char CHR '','']
                    @ chop_buffer_to_base32_string block_id
                    @ [of_char CHR ''/''] @ sprintf_zx (chk_block_size handle) @ [0]))
     | CHOP_SERIAL_BINARY \<Rightarrow>
         (if 2 ^ 32 \<le> chk_block_size handle \<or> 2 ^ 32 \<le> chk_key_size handle
             \<or> 2 ^ 32 \<le> chk_block_id_size handle then None
          else Some (Inr (le32 (chk_block_size handle) @ le32 (chk_key_size handle)
                          @ le32 (chk_block_id_size handle) @ key @ block_id))))"

text \<open>\<^verbatim>\<open>strchr\<close> on a string that ends with a NUL: the position of \<open>c\<close>, or None.\<close>

definition strchr :: "bytes \<Rightarrow> byte \<Rightarrow> nat option" where
  "strchr s c =
    (let n = length (takeWhile (\<lambda>x. x \<noteq> c \<and> x \<noteq> 0) s)
     in if n < length s \<and> s ! n = c then Some n else None)"

text \<open>Reading back leaves the size of the block identifier out of \<open>chk_size\<close>.  As for hash handles, a
  binary form that claims long fields is copied past the end of the arrays.\<close>

definition chk_deserialize ::
  "chop_serial_method \<Rightarrow> bytes \<Rightarrow> (chk_index_handle \<times> nat) result option" where
  "chk_deserialize meth buffer =
    (case meth of
       CHOP_SERIAL_ASCII \<Rightarrow>
         (let input = take 1023 buffer @ [0] in
          case strchr input (of_char CHR '','') of
            None \<Rightarrow> Some (Inl CHOP_DESERIAL_CORRUPT_INPUT)
          | Some comma \<Rightarrow>
             (case chop_base32_string_to_buffer input comma of (key, end) \<Rightarrow>
                if end \<noteq> comma then Some (Inl CHOP_DESERIAL_CORRUPT_INPUT)
                else (case strchr (drop comma input) (of_char CHR ''/'') of
                  None \<Rightarrow> Some (Inl CHOP_DESERIAL_CORRUPT_INPUT)
                | Some d \<Rightarrow>
                   (case chop_base32_string_to_buffer (drop (comma + 1) input) (d - 1) of (block_id, end2) \<Rightarrow>
                      if end2 \<noteq> d - 1 then Some (Inl CHOP_DESERIAL_CORRUPT_INPUT)
                      else (case strtoul16 (drop (comma + d + 1) input) of (block_size, used) \<Rightarrow>
                        if used = 0 then Some (Inl CHOP_DESERIAL_CORRUPT_INPUT)
                        else Some (Inr (\<lparr>chk_block_size = block_size, chk_key_size = length key, chk_key = key,
                               chk_block_id_size = length block_id, chk_block_id = block_id,
                               chk_size = length key + 12\<rparr>, comma + d + 1 + used)))))))
     | CHOP_SERIAL_BINARY \<Rightarrow>
         (if length buffer < 12 then Some (Inl CHOP_DESERIAL_CORRUPT_INPUT)
          else let block_size = le32_value (take 4 buffer);
                   key_size = le32_value (take 4 (drop 4 buffer));
                   block_id_size = le32_value (take 4 (drop 8 buffer))
               in if length buffer - 12 < key_size + block_id_size then Some (Inl CHOP_DESERIAL_TOO_SHORT)
                  else Some (Inr (\<lparr>chk_block_size = block_size, chk_key_size = key_size,
                         chk_key = take key_size (drop 12 buffer), chk_block_id_size = block_id_size,
                         chk_block_id = take block_id_size (drop (12 + key_size) buffer),
                         chk_size = key_size + 12\<rparr>, key_size + block_id_size + 12))))"

definition chk_index_handle_class :: "chk_index_handle handle_class" where
  "chk_index_handle_class =
    \<lparr>hc_serialize = chk_serialize, hc_deserialize = chk_deserialize,
     chop_index_handle_binary_size = chk_size\<rparr>"

section \<open>The fetcher\<close>

record 'g chk_block_fetcher =
  cbf_cipher_handle :: "'g chop_cipher_handle option"
  cbf_owns_cipher_handle :: bool
  cbf_block_id_hash_method :: chop_hash_method

definition cbf_ctor :: "'g chk_block_fetcher" where
  "cbf_ctor = \<lparr>cbf_cipher_handle = None, cbf_owns_cipher_handle = False,
     cbf_block_id_hash_method = CHOP_HASH_NONE\<rparr>"

definition cbf_dtor :: "'g chk_block_fetcher \<Rightarrow> 'g chk_block_fetcher" where
  "cbf_dtor fetcher = fetcher\<lparr>cbf_cipher_handle := None, cbf_owns_cipher_handle := False\<rparr>"

definition cbf_serialize ::
  "chop_serial_method \<Rightarrow> 'g chk_block_fetcher \<Rightarrow> bytes \<Rightarrow> (chop_error \<times> bytes) option" where
  "cbf_serialize meth fetcher buffer =
    (case meth of
       CHOP_SERIAL_ASCII \<Rightarrow>
         (case cbf_cipher_handle fetcher of
            None \<Rightarrow> None
          | Some ch \<Rightarrow>
              Some (CHOP_OK,
                map tolower (chop_cipher_algo_name (chop_cipher_algorithm ch)) @ [of_char CHR '','']
                @ map tolower (chop_cipher_mode_name (chop_cipher_mode_of ch))
                @ (if cbf_block_id_hash_method fetcher \<noteq> CHOP_HASH_NONE
                   then of_char CHR '','' # map tolower (chop_hash_method_name (cbf_block_id_hash_method fetcher))
                   else []) @ [0]))
     | CHOP_SERIAL_BINARY \<Rightarrow> Some (CHOP_ERR_NOT_IMPL, buffer))"

text \<open>Whether a character belongs to a name.\<close>

definition name_char :: "byte \<Rightarrow> bool" where
  "name_char c = (c \<noteq> 0 \<and> \<not> ispunct c \<and> \<not> isspace c)"

text \<open>The scans for the end of a name have no bound: a scan that reaches the end of the buffer, or that
  starts beyond it, as after a mode name ended by the NUL, reads memory that is not the
  buffer's (None).  The cipher handle may be NULL.\<close>

definition scan_name :: "bytes \<Rightarrow> nat \<Rightarrow> bytes option" where
  "scan_name buffer start =
    (let name = takeWhile name_char (drop start buffer)
     in if start + length name < length buffer then Some name else None)"

definition cbf_deserialize ::
  "('g, 'r) gcry \<Rightarrow> chop_serial_method \<Rightarrow> bytes \<Rightarrow> ('g chk_block_fetcher \<times> nat) result option" where
  "cbf_deserialize gc meth buffer =
    (case meth of
       CHOP_SERIAL_ASCII \<Rightarrow>
         (let algo_name = takeWhile (\<lambda>c. c \<noteq> of_char CHR '','') buffer;
              comma = length algo_name
          in if comma = length buffer then Some (Inl CHOP_DESERIAL_CORRUPT_INPUT)
             else (case chop_cipher_algo_lookup (takeWhile (\<lambda>c. c \<noteq> 0) algo_name) of
               Inl err \<Rightarrow> Some (Inl CHOP_DESERIAL_CORRUPT_INPUT)
             | Inr algo \<Rightarrow>
                Option.bind (scan_name buffer (comma + 1)) (\<lambda>mode_name.
                  case chop_cipher_mode_lookup mode_name of
                    Inl err \<Rightarrow> Some (Inl CHOP_DESERIAL_CORRUPT_INPUT)
                  | Inr mode \<Rightarrow>
                     let start = comma + 1 + length mode_name + 1 in
                     Option.bind (scan_name buffer start) (\<lambda>hash_name.
                       let fetcher = cbf_ctor\<lparr>cbf_cipher_handle := chop_cipher_open gc algo mode,
                                              cbf_owns_cipher_handle := True\<rparr>
                       in if hash_name = [] then Some (Inr (fetcher, start))
                          else (case chop_hash_method_lookup hash_name of
                            Inl err \<Rightarrow> Some (Inl CHOP_DESERIAL_CORRUPT_INPUT)
                          | Inr m \<Rightarrow> Some (Inr (fetcher\<lparr>cbf_block_id_hash_method := m\<rparr>,
                                              start + length hash_name)))))))
     | CHOP_SERIAL_BINARY \<Rightarrow> Some (Inl CHOP_ERR_NOT_IMPL))"

text \<open>The key of the ciphertext in the store.\<close>

definition chk_id :: "chk_index_handle \<Rightarrow> block_key" where
  "chk_id handle = take (chk_block_id_size handle) (chk_block_id handle)"

definition chk_blocks_exist ::
  "'w block_store \<Rightarrow> chk_index_handle list \<Rightarrow> bool list \<Rightarrow> 'w \<Rightarrow> (chop_error \<times> bool list) \<times> 'w" where
  "chk_blocks_exist store indices exists w = chop_store_blocks_exist store w (map chk_id indices) exists"

text \<open>Whether the ciphertext passes the integrity check.\<close>

definition chk_intact :: "gcry_md \<Rightarrow> chop_hash_method \<Rightarrow> chk_index_handle \<Rightarrow> bytes \<Rightarrow> bool" where
  "chk_intact G m handle ciphertext =
    (m = CHOP_HASH_NONE \<or>
     chk_block_id_size handle = chop_hash_size m
     \<and> take (chop_hash_size m) (G m ciphertext) = take (chop_hash_size m) (chk_block_id handle))"

definition chk_block_fetch ::
  "('g, 'r) gcry \<Rightarrow> gcry_md \<Rightarrow> 'w block_store \<Rightarrow> chk_index_handle \<Rightarrow> bytes \<Rightarrow> 'g chk_block_fetcher \<times> 'w
     \<Rightarrow> ((chop_error \<times> bytes \<times> nat) \<times> 'g chk_block_fetcher \<times> 'w) option" where
  "chk_block_fetch gc G store handle buffer fw =
    (case fw of (fetcher, w0) \<Rightarrow>
      (case chop_store_read_block store w0 (chk_id handle) [] of
         ((err, ciphertext, sz), w) \<Rightarrow>
           if err \<noteq> CHOP_OK then Some ((err, buffer, sz), fetcher, w)
           else if sz < chk_block_size handle
             \<or> \<not> chk_intact G (cbf_block_id_hash_method fetcher) handle ciphertext
           then Some ((CHOP_BLOCK_FETCHER_ERROR, buffer, 0), fetcher, w)
           else (case cbf_cipher_handle fetcher of
             None \<Rightarrow> None
           | Some ch \<Rightarrow>
               if chop_cipher_algo_key_size gc (chop_cipher_algorithm ch) \<noteq> chk_key_size handle
               then Some ((CHOP_BLOCK_FETCHER_ERROR, buffer, sz), fetcher, w)
               else (case chop_cipher_set_key gc (chop_cipher_reset gc ch)
                            (take (chk_key_size handle) (chk_key handle)) of
                 (err, ch1) \<Rightarrow>
                   if err \<noteq> CHOP_OK
                   then Some ((err, buffer, sz), fetcher\<lparr>cbf_cipher_handle := Some ch1\<rparr>, w)
                   else (case chop_cipher_decrypt gc ch1 (take sz ciphertext) of
                     (Inl err, ch2) \<Rightarrow> Some ((err, buffer, sz), fetcher\<lparr>cbf_cipher_handle := Some ch2\<rparr>, w)
                   | (Inr cleartext, ch2) \<Rightarrow>
                       Some ((CHOP_OK, take (chk_block_size handle) cleartext, chk_block_size handle),
                             fetcher\<lparr>cbf_cipher_handle := Some ch2\<rparr>, w))))))"

definition chk_fetcher ::
  "('g, 'r) gcry \<Rightarrow> gcry_md \<Rightarrow> ('g chk_block_fetcher, 'w, chk_index_handle) block_fetcher" where
  "chk_fetcher gc G =
    \<lparr>fetch_block = chk_block_fetch gc G, fetcher_blocks_exist = Some chk_blocks_exist\<rparr>"

section \<open>The indexer\<close>

record 'g chk_block_indexer =
  cbi_cipher_handle :: "'g chop_cipher_handle option"
  cbi_owns_cipher_handle :: bool
  cbi_key_hash_method :: chop_hash_method
  cbi_block_id_hash_method :: chop_hash_method

text \<open>The constructor leaves one of the hash methods alone.\<close>

definition cbi_ctor :: "chop_hash_method \<Rightarrow> 'g chk_block_indexer" where
  "cbi_ctor junk = \<lparr>cbi_cipher_handle = None, cbi_owns_cipher_handle = False,
     cbi_key_hash_method = CHOP_HASH_NONE, cbi_block_id_hash_method = junk\<rparr>"

definition cbi_dtor :: "'g chk_block_indexer \<Rightarrow> 'g chk_block_indexer" where
  "cbi_dtor indexer = indexer\<lparr>cbi_key_hash_method := CHOP_HASH_NONE, cbi_owns_cipher_handle := False,
     cbi_cipher_handle := None\<rparr>"

definition chk_indexer_init_fetcher ::
  "('g, 'r) gcry \<Rightarrow> 'g chk_block_indexer \<Rightarrow> 'g chk_block_fetcher option" where
  "chk_indexer_init_fetcher gc indexer =
    (case cbi_cipher_handle indexer of
       None \<Rightarrow> None
     | Some ch \<Rightarrow> Some (cbf_ctor\<lparr>cbf_cipher_handle := chop_cipher_copy gc ch,
                                  cbf_owns_cipher_handle := True,
                                  cbf_block_id_hash_method := cbi_block_id_hash_method indexer\<rparr>))"

definition cbi_serialize :: "chop_serial_method \<Rightarrow> 'g chk_block_indexer \<Rightarrow> bytes result option" where
  "cbi_serialize meth indexer =
    (case meth of
       CHOP_SERIAL_ASCII \<Rightarrow>
         (case cbi_cipher_handle indexer of
            None \<Rightarrow> None
          | Some ch \<Rightarrow>
              Some (Inr (chop_cipher_algo_name (chop_cipher_algorithm ch) @ [of_char CHR '','']
                @ chop_cipher_mode_name (chop_cipher_mode_of ch) @ [of_char CHR '','']
                @ chop_hash_method_name (cbi_key_hash_method indexer) @ [of_char CHR '','']
                @ chop_hash_method_name (cbi_block_id_hash_method indexer) @ [0])))
     | CHOP_SERIAL_BINARY \<Rightarrow> Some (Inl CHOP_ERR_NOT_IMPL))"

text \<open>\<^verbatim>\<open>FETCH_NAME\<close>: the name before the next comma and what follows the comma.\<close>

definition FETCH_NAME :: "bytes \<Rightarrow> (bytes \<times> bytes) option" where
  "FETCH_NAME buffer =
    (let name = takeWhile (\<lambda>c. c \<noteq> of_char CHR '','') buffer
     in if length name = length buffer then None else Some (name, drop (length name + 1) buffer))"

definition cbi_deserialize ::
  "('g, 'r) gcry \<Rightarrow> chop_serial_method \<Rightarrow> bytes \<Rightarrow> ('g chk_block_indexer \<times> nat) result" where
  "cbi_deserialize gc meth buffer =
    (case meth of
       CHOP_SERIAL_ASCII \<Rightarrow>
         (case FETCH_NAME buffer of None \<Rightarrow> Inl CHOP_DESERIAL_CORRUPT_INPUT | Some (algo_name, b1) \<Rightarrow>
          (case FETCH_NAME b1 of None \<Rightarrow> Inl CHOP_DESERIAL_CORRUPT_INPUT | Some (mode_name, b2) \<Rightarrow>
           (case FETCH_NAME b2 of None \<Rightarrow> Inl CHOP_DESERIAL_CORRUPT_INPUT | Some (key_hash_name, b3) \<Rightarrow>
             let c_string = takeWhile (\<lambda>c. c \<noteq> 0);
                 block_id_hash_name = takeWhile isalnum b3;
                 bytes_read = length algo_name + 1 + (length mode_name + 1) + (length key_hash_name + 1)
                   + length block_id_hash_name
             in (case (chop_cipher_algo_lookup (c_string algo_name), chop_cipher_mode_lookup (c_string mode_name),
                       chop_hash_method_lookup (c_string key_hash_name),
                       chop_hash_method_lookup block_id_hash_name) of
                  (Inr algo, Inr mode, Inr key_hash_method, Inr block_id_hash_method) \<Rightarrow>
                    (case chop_cipher_open gc algo mode of
                       None \<Rightarrow> Inl CHOP_DESERIAL_CORRUPT_INPUT
                     | Some ch \<Rightarrow> Inr (\<lparr>cbi_cipher_handle = Some ch, cbi_owns_cipher_handle = True,
                                        cbi_key_hash_method = key_hash_method,
                                        cbi_block_id_hash_method = block_id_hash_method\<rparr>, bytes_read))
                | _ \<Rightarrow> Inl CHOP_DESERIAL_CORRUPT_INPUT))))
     | CHOP_SERIAL_BINARY \<Rightarrow> Inl CHOP_ERR_NOT_IMPL)"

text \<open>The loop of \<^verbatim>\<open>cipher_make_suitable_key\<close>; \<^verbatim>\<open>key_offset\<close> is the length of the key so far.\<close>

partial_function (option) suitable_key_loop :: "nat \<Rightarrow> bytes \<Rightarrow> nat \<Rightarrow> bytes \<Rightarrow> bytes option" where
  "suitable_key_loop key_size source source_offset key =
    (if length key < key_size then
       let amount = min (length source - source_offset) (key_size - length key)
       in if source = [] then None
          else suitable_key_loop key_size source ((source_offset + amount) mod length source)
                 (key @ take amount (drop source_offset source))
     else Some key)"

declare suitable_key_loop.simps [code]

definition cipher_make_suitable_key :: "nat \<Rightarrow> bytes \<Rightarrow> bytes option" where
  "cipher_make_suitable_key key_size source =
    (if key_size \<le> length source then Some (take key_size source)
     else suitable_key_loop key_size source 0 [])"

text \<open>The loop that replaces a weak key by random ones.\<close>

partial_function (option) weak_key_loop ::
  "('g, 'r) gcry \<Rightarrow> nat \<Rightarrow> chop_error \<Rightarrow> bytes \<Rightarrow> 'g chop_cipher_handle \<Rightarrow> 'r
     \<Rightarrow> (chop_error \<times> bytes \<times> 'g chop_cipher_handle \<times> 'r) option" where
  "weak_key_loop gc key_size err key ch rng =
    (if err = CHOP_CIPHER_WEAK_KEY then
       case chop_randomize gc key_size rng of (key', rng') \<Rightarrow>
         (case chop_cipher_set_key gc ch key' of (err', ch') \<Rightarrow> weak_key_loop gc key_size err' key' ch' rng')
     else Some (err, key, ch, rng))"

declare weak_key_loop.simps [code]

definition chk_pad :: "nat \<Rightarrow> bytes \<Rightarrow> bytes" where
  "chk_pad block_size buffer =
    buffer @ replicate (if length buffer mod block_size \<noteq> 0
                        then block_size - length buffer mod block_size else 0) 0"

text \<open>The state of the indexer comes with that of the random generator.\<close>

definition chk_index_block ::
  "('g, 'r) gcry \<Rightarrow> gcry_md \<Rightarrow> 'w block_store \<Rightarrow> bytes \<Rightarrow> ('g chk_block_indexer \<times> 'r) \<times> 'w
     \<Rightarrow> (chk_index_handle result \<times> ('g chk_block_indexer \<times> 'r) \<times> 'w) option" where
  "chk_index_block gc G store buffer iw =
    (case iw of ((indexer, rng), w) \<Rightarrow>
      (case cbi_cipher_handle indexer of
         None \<Rightarrow> None
       | Some ch \<Rightarrow>
          let algo = chop_cipher_algorithm ch;
              block_size = chop_cipher_algo_block_size gc algo;
              cipher_key_size = chop_cipher_algo_key_size gc algo;
              hash_key = take (chop_hash_size (cbi_key_hash_method indexer))
                           (G (cbi_key_hash_method indexer) buffer);
              block_id_size = chop_hash_size (cbi_block_id_hash_method indexer)
          in if block_size = 0 \<or> cipher_key_size = 0 then None
             else Option.bind (cipher_make_suitable_key cipher_key_size hash_key) (\<lambda>key0.
               case chop_cipher_set_key gc (chop_cipher_reset gc ch) key0 of (err0, ch0) \<Rightarrow>
               Option.bind (weak_key_loop gc cipher_key_size err0 key0 ch0 rng) (\<lambda>(err, key, ch1, rng').
                 if err \<noteq> CHOP_OK
                 then Some (Inl err, (indexer\<lparr>cbi_cipher_handle := Some ch1\<rparr>, rng'), w)
                 else (case chop_cipher_encrypt gc ch1 (chk_pad block_size buffer) of
                   (Inl err, ch2) \<Rightarrow> Some (Inl err, (indexer\<lparr>cbi_cipher_handle := Some ch2\<rparr>, rng'), w)
                 | (Inr block_content, ch2) \<Rightarrow>
                    let block_id = G (cbi_block_id_hash_method indexer) block_content;
                        indexer' = indexer\<lparr>cbi_cipher_handle := Some ch2\<rparr>
                    in (case chop_store_write_block store w (take block_id_size block_id) block_content of
                         (err, w') \<Rightarrow>
                           if err \<noteq> CHOP_OK then Some (Inl err, (indexer', rng'), w')
                           else Some (Inr \<lparr>chk_block_size = length buffer, chk_key_size = cipher_key_size,
                                  chk_key = key, chk_block_id_size = block_id_size, chk_block_id = block_id,
                                  chk_size = cipher_key_size + block_id_size + 12\<rparr>, (indexer', rng'), w')))))))"

definition chk_indexer ::
  "('g, 'r) gcry \<Rightarrow> gcry_md \<Rightarrow> ('g chk_block_indexer \<times> 'r, 'w, chk_index_handle) block_indexer" where
  "chk_indexer gc G = \<lparr>index_block = chk_index_block gc G\<rparr>"

definition chop_chk_block_indexer_open ::
  "'g chop_cipher_handle option \<Rightarrow> bool \<Rightarrow> chop_hash_method \<Rightarrow> chop_hash_method
     \<Rightarrow> 'g chk_block_indexer result" where
  "chop_chk_block_indexer_open cipher_handle owns_cipher_handle key_hash_method block_id_hash_method =
    (if key_hash_method = CHOP_HASH_NONE \<or> block_id_hash_method = CHOP_HASH_NONE \<or> cipher_handle = None
     then Inl CHOP_INVALID_ARG
     else Inr \<lparr>cbi_cipher_handle = cipher_handle, cbi_owns_cipher_handle = owns_cipher_handle,
               cbi_key_hash_method = key_hash_method, cbi_block_id_hash_method = block_id_hash_method\<rparr>)"

end
