(* ===== verification/Chop_CHK_Correct.thy ===== *)
theory Chop_CHK_Correct
  imports Chop_CHK
begin

text \<open>
  The content-hash-key indexer meets the contract of block indexers: what is fetched is the block
  that was encrypted.  Before that, the derivation of keys and the search for a key that is not
  weak.
\<close>

section \<open>Deriving a key\<close>

definition cycled :: "bytes \<Rightarrow> nat \<Rightarrow> byte" where
  "cycled source i = source ! (i mod length source)"

lemma cycled_chunk:
  assumes "so = n mod length source" "amount \<le> length source - so" "source \<noteq> []"
  shows "take amount (drop so source) = map (cycled source) [n..<n + amount]"
proof (rule nth_equalityI)
  have "so < length source" using assms by simp
  then show "length (take amount (drop so source)) = length (map (cycled source) [n..<n + amount])"
    using assms(2) by simp
  fix j
  assume "j < length (take amount (drop so source))"
  then have j: "so + j < length source" "j < amount" using assms(2) by auto
  have "(n + j) mod length source = (so + j) mod length source" using assms(1) by (simp add: mod_add_left_eq)
  with j show "take amount (drop so source) ! j = map (cycled source) [n..<n + amount] ! j"
    by (simp add: cycled_def)
qed

lemma suitable_key_loop_cycles:
  assumes "source \<noteq> []" "length key \<le> key_size" "key = map (cycled source) [0..<length key]"
    and "so = length key mod length source"
  shows "suitable_key_loop key_size source so key = Some (map (cycled source) [0..<key_size])"
  using assms(2-)
proof (induction "key_size - length key" arbitrary: key so rule: less_induct)
  case less
  show ?case
  proof (cases "length key < key_size")
    case False
    with less.prems have "length key = key_size" by simp
    with less.prems(2) show ?thesis by (subst suitable_key_loop.simps) simp
  next
    case True
    define amount where "amount = min (length source - so) (key_size - length key)"
    let ?key = "key @ take amount (drop so source)"
    have so: "so < length source" using assms(1) less.prems(3) by simp
    then have pos: "0 < amount" using True by (simp add: amount_def)
    have chunk: "take amount (drop so source) = map (cycled source) [length key..<length key + amount]"
      using less.prems(3) assms(1) by (intro cycled_chunk) (auto simp: amount_def)
    then have len: "length ?key = length key + amount" by simp
    have "map (cycled source) [0..<length key + amount]
        = map (cycled source) [0..<length key] @ map (cycled source) [length key..<length key + amount]"
      unfolding upt_add_eq_append [OF le0] map_append ..
    then have "?key = map (cycled source) [0..<length ?key]"
      unfolding len using less.prems(2) chunk by simp
    moreover have "(so + amount) mod length source = length ?key mod length source"
      unfolding len using less.prems(3) by (simp add: mod_add_left_eq)
    moreover have "key_size - length ?key < key_size - length key" "length ?key \<le> key_size"
      unfolding len using True pos by (auto simp: amount_def)
    ultimately have "suitable_key_loop key_size source ((so + amount) mod length source) ?key
        = Some (map (cycled source) [0..<key_size])"
      using less.hyps by blast
    with True assms(1) show ?thesis
      by (subst suitable_key_loop.simps) (simp add: amount_def Let_def)
  qed
qed

lemma suitable_key:
  assumes "source \<noteq> []"
  shows "cipher_make_suitable_key key_size source = Some (map (cycled source) [0..<key_size])"
proof (cases "key_size \<le> length source")
  case True
  moreover have "take key_size source = map (cycled source) [0..<key_size]"
    using cycled_chunk [of 0 0 source key_size] True assms by simp
  ultimately show ?thesis by (simp add: cipher_make_suitable_key_def)
next
  case False
  then show ?thesis
    using suitable_key_loop_cycles [OF assms, of "[]" key_size 0] by (simp add: cipher_make_suitable_key_def)
qed

text \<open>C39: Deriving a cipher key from a hash terminates for every key size and every non-empty hash, and
  byte \<open>i\<close> of the key is byte \<open>i mod n\<close> of the hash of \<open>n\<close> bytes: the hash is cut when it is
  longer than the key and repeated when it is shorter.\<close>

theorem suitable_key_cycles_hash:
  assumes "source \<noteq> []"
  shows "\<exists>key. cipher_make_suitable_key key_size source = Some key \<and> length key = key_size
    \<and> (\<forall>i < key_size. key ! i = source ! (i mod length source))"
  using suitable_key [OF assms, of key_size] by (simp add: cycled_def)

theorem suitable_key_cycles_hash_witness:
  "\<exists>key. cipher_make_suitable_key 5 [1, 2] = Some key \<and> length key = 5
    \<and> (\<forall>i < 5. key ! i = [1, 2] ! (i mod length [1, 2 :: byte]))"
  using suitable_key_cycles_hash [of "[1, 2]" 5] by simp

section \<open>Keys that are not weak\<close>

definition keyed_fresh ::
  "'g cipher_spec \<Rightarrow> chop_cipher_algo \<Rightarrow> chop_cipher_mode \<Rightarrow> nat \<Rightarrow> bytes \<Rightarrow> 'g chop_cipher_handle \<Rightarrow> bool" where
  "keyed_fresh cs algo mode n key ch \<longleftrightarrow>
    cipher_for cs algo mode ch \<and> cs_fresh cs (gcry_handle ch) \<and> cs_key cs (gcry_handle ch) = Some key
    \<and> length key = n \<and> \<not> cs_weak cs algo key"

text \<open>What is known before each round of the loop.\<close>

definition key_tried ::
  "('g, 'r) gcry \<Rightarrow> 'g cipher_spec \<Rightarrow> chop_cipher_algo \<Rightarrow> chop_cipher_mode \<Rightarrow> chop_error \<Rightarrow> bytes
     \<Rightarrow> 'g chop_cipher_handle \<Rightarrow> bool" where
  "key_tried gc cs algo mode err key ch \<longleftrightarrow>
    cipher_for cs algo mode ch \<and> cs_fresh cs (gcry_handle ch)
    \<and> length key = gcry_cipher_get_algo_keylen gc algo
    \<and> err = (if cs_weak cs algo key then CHOP_CIPHER_WEAK_KEY else CHOP_OK)
    \<and> (err = CHOP_OK \<longrightarrow> cs_key cs (gcry_handle ch) = Some key)"

lemma key_tried_set:
  assumes "cipher_laws gc cs" "cipher_for cs algo mode ch" "cs_fresh cs (gcry_handle ch)"
    and "length key = gcry_cipher_get_algo_keylen gc algo" "chop_cipher_set_key gc ch key = (err, ch')"
  shows "key_tried gc cs algo mode err key ch'"
  using cipher_for_set_key [OF assms(1,2,4,5)] assms(3,4) by (simp add: key_tried_def)

lemma key_tried_done:
  assumes "key_tried gc cs algo mode err key ch" "err \<noteq> CHOP_CIPHER_WEAK_KEY"
  shows "err = CHOP_OK" "keyed_fresh cs algo mode (gcry_cipher_get_algo_keylen gc algo) key ch"
  using assms by (auto simp: key_tried_def keyed_fresh_def split: if_splits)

definition weak_loop_ok where
  "weak_loop_ok gc n err key ch rng r \<longleftrightarrow>
    (\<forall>cs algo mode. cipher_laws gc cs \<longrightarrow> n = gcry_cipher_get_algo_keylen gc algo \<longrightarrow>
       key_tried gc cs algo mode err key ch \<longrightarrow>
       (case r of (err', key', ch', rng') \<Rightarrow> err' = CHOP_OK \<and> keyed_fresh cs algo mode n key' ch'
          \<and> (err = CHOP_OK \<longrightarrow> key' = key)))"

lemma weak_loop_partial:
  assumes "weak_key_loop gc n err key ch rng = Some r"
  shows "weak_loop_ok gc n err key ch rng r"
  using _ assms
proof (rule weak_key_loop.raw_induct [where P = weak_loop_ok], goal_cases)
  case (1 f gc n err key ch rng r)
  show ?case
  proof (cases "err = CHOP_CIPHER_WEAK_KEY")
    case False
    with 1(2) key_tried_done show ?thesis unfolding weak_loop_ok_def by fastforce
  next
    case True
    obtain key1 rng1 where k: "chop_randomize gc n rng = (key1, rng1)" by (metis prod.exhaust)
    obtain err1 ch1 where s: "chop_cipher_set_key gc ch key1 = (err1, ch1)" by (metis prod.exhaust)
    have "f gc n err1 key1 ch1 rng1 = Some r" using 1(2) True k s by simp
    from 1(1) [OF this] have IH: "weak_loop_ok gc n err1 key1 ch1 rng1 r" .
    show ?thesis
      unfolding weak_loop_ok_def
    proof (intro allI impI)
      fix cs algo mode
      assume a: "cipher_laws gc cs" "n = gcry_cipher_get_algo_keylen gc algo" "key_tried gc cs algo mode err key ch"
      have "length key1 = n" using randomize_length [OF a(1), of n rng] k by simp
      with a s have "key_tried gc cs algo mode err1 key1 ch1"
        by (intro key_tried_set) (auto simp: key_tried_def)
      with IH a(1,2) True show "case r of (err', key', ch', rng') \<Rightarrow>
          err' = CHOP_OK \<and> keyed_fresh cs algo mode n key' ch' \<and> (err = CHOP_OK \<longrightarrow> key' = key)"
        unfolding weak_loop_ok_def by fastforce
    qed
  qed
qed

lemma weak_loop_returns:
  assumes "cipher_laws gc cs" "random_keys gc cs algo" "key_tried gc cs algo mode err key ch"
  obtains key' ch' rng' where
    "weak_key_loop gc (gcry_cipher_get_algo_keylen gc algo) err key ch rng = Some (CHOP_OK, key', ch', rng')"
proof -
  let ?n = "gcry_cipher_get_algo_keylen gc algo"
  have ends: "\<exists>key' ch' rng'. weak_key_loop gc ?n err key ch rng = Some (CHOP_OK, key', ch', rng')"
    if "err = CHOP_OK \<or> \<not> cs_weak cs algo (drawn_key gc ?n j rng)" "key_tried gc cs algo mode err key ch"
    for j err key ch rng
    using that
  proof (induction j arbitrary: err key ch rng)
    case 0
    obtain key1 rng1 where k: "chop_randomize gc ?n rng = (key1, rng1)" by (metis prod.exhaust)
    obtain err1 ch1 where s: "chop_cipher_set_key gc ch key1 = (err1, ch1)" by (metis prod.exhaust)
    have "key_tried gc cs algo mode err1 key1 ch1"
      using 0 s randomize_length [OF assms(1), of ?n rng] k assms(1)
      by (intro key_tried_set) (auto simp: key_tried_def)
    moreover have "drawn_key gc ?n 0 rng = key1" using k by (simp add: chop_randomize_def)
    ultimately have "err = CHOP_OK \<or> err1 = CHOP_OK" using 0(1) by (auto simp: key_tried_def)
    with k s show ?case
      by (subst weak_key_loop.simps) (use 0(2) in \<open>auto simp: key_tried_def weak_key_loop.simps split: if_splits\<close>)
  next
    case (Suc j)
    obtain key1 rng1 where k: "chop_randomize gc ?n rng = (key1, rng1)" by (metis prod.exhaust)
    obtain err1 ch1 where s: "chop_cipher_set_key gc ch key1 = (err1, ch1)" by (metis prod.exhaust)
    have t: "key_tried gc cs algo mode err1 key1 ch1"
      using Suc.prems s randomize_length [OF assms(1), of ?n rng] k assms(1)
      by (intro key_tried_set) (auto simp: key_tried_def)
    show ?case
    proof (cases "err = CHOP_OK")
      case True
      then show ?thesis by (subst weak_key_loop.simps) simp
    next
      case False
      then have weak: "err = CHOP_CIPHER_WEAK_KEY" using Suc.prems(2) by (auto simp: key_tried_def split: if_splits)
      have "\<not> cs_weak cs algo (drawn_key gc ?n j rng1)"
        using Suc.prems(1) False k by (simp add: chop_randomize_def)
      with Suc.IH [of err1 rng1 key1 ch1] t k s weak show ?thesis by (subst weak_key_loop.simps) simp
    qed
  qed
  obtain j where "\<not> cs_weak cs algo (drawn_key gc ?n j rng)" using assms(2) by (auto simp: random_keys_def)
  with ends [of err j rng key ch] assms(3) that show thesis by blast
qed

section \<open>Binary handles\<close>

definition wf_chk :: "chk_index_handle \<Rightarrow> bool" where
  "wf_chk h \<longleftrightarrow> length (chk_key h) = chk_key_size h \<and> length (chk_block_id h) = chk_block_id_size h
     \<and> chk_key_size h \<le> 1024 \<and> chk_block_id_size h \<le> 1024 \<and> chk_block_size h < 2 ^ 32
     \<and> chk_size h = chk_key_size h + chk_block_id_size h + 12"

definition chk_encode :: "chk_index_handle \<Rightarrow> bytes" where
  "chk_encode h = le32 (chk_block_size h) @ le32 (chk_key_size h) @ le32 (chk_block_id_size h)
     @ chk_key h @ chk_block_id h"

text \<open>What a handle is read back as: its size lacks the block identifier.\<close>

definition chk_reread :: "chk_index_handle \<Rightarrow> chk_index_handle" where
  "chk_reread h = h\<lparr>chk_size := chk_key_size h + 12\<rparr>"

interpretation chk_codec: handle_codec chk_index_handle_class wf_chk chk_encode chk_reread
proof (unfold_locales, goal_cases)
  case (1 h)
  then show ?case by (simp add: chk_index_handle_class_def chk_serialize_def chk_encode_def wf_chk_def)
next
  case (2 h rest)
  have "le32_value (take 4 (chk_encode h @ rest)) = chk_block_size h"
    and "le32_value (take 4 (drop 4 (chk_encode h @ rest))) = chk_key_size h"
    and "le32_value (take 4 (drop 8 (chk_encode h @ rest))) = chk_block_id_size h"
    using 2 le32_value_le32 [of _ "[]"] by (simp_all add: chk_encode_def wf_chk_def)
  then show ?case
    using 2 by (simp add: chk_index_handle_class_def chk_deserialize_def wf_chk_def chk_encode_def Let_def
        chk_reread_def)
next
  case (3 h)
  then show ?case by (simp add: chk_index_handle_class_def wf_chk_def chk_encode_def)
next
  case (4 h)
  then show ?case by (simp add: chk_encode_def le32_def)
qed

section \<open>The contract\<close>

text \<open>The components in use: a cipher that works on whole blocks and two hash methods.\<close>

definition chk_ready ::
  "('g, 'r) gcry \<Rightarrow> 'g cipher_spec \<Rightarrow> gcry_md \<Rightarrow> chop_cipher_algo \<Rightarrow> chop_cipher_mode \<Rightarrow> chop_hash_method
     \<Rightarrow> chop_hash_method \<Rightarrow> bool" where
  "chk_ready gc cs G algo mode km im \<longleftrightarrow> cipher_laws gc cs \<and> md_laws G \<and> plain_mode mode
     \<and> 0 < gcry_cipher_get_algo_blklen gc algo \<and> 0 < gcry_cipher_get_algo_keylen gc algo
     \<and> gcry_cipher_get_algo_keylen gc algo \<le> 1024 \<and> chop_hash_size km \<noteq> 0 \<and> chop_hash_size im \<noteq> 0"

definition chk_ok ::
  "('w \<Rightarrow> bool) \<Rightarrow> ('g, 'r) gcry \<Rightarrow> 'g cipher_spec \<Rightarrow> gcry_md \<Rightarrow> chop_cipher_algo \<Rightarrow> chop_cipher_mode
     \<Rightarrow> chop_hash_method \<Rightarrow> chop_hash_method \<Rightarrow> ('g chk_block_indexer \<times> 'r) \<times> 'w \<Rightarrow> bool" where
  "chk_ok ok gc cs G algo mode km im iw \<longleftrightarrow> chk_ready gc cs G algo mode km im
     \<and> (\<exists>ch. cbi_cipher_handle (fst (fst iw)) = Some ch \<and> cipher_for cs algo mode ch)
     \<and> cbi_key_hash_method (fst (fst iw)) = km \<and> cbi_block_id_hash_method (fst (fst iw)) = im \<and> ok (snd iw)"

definition chk_stored ::
  "('g, 'r) gcry \<Rightarrow> 'g cipher_spec \<Rightarrow> chop_cipher_algo \<Rightarrow> chop_cipher_mode \<Rightarrow> chk_index_handle \<Rightarrow> bytes \<Rightarrow> bytes" where
  "chk_stored gc cs algo mode h b =
    cs_encrypt cs (algo, mode) (chk_key h) (chk_pad (gcry_cipher_get_algo_blklen gc algo) b)"

definition chk_handle ::
  "('g, 'r) gcry \<Rightarrow> 'g cipher_spec \<Rightarrow> gcry_md \<Rightarrow> chop_cipher_algo \<Rightarrow> chop_cipher_mode \<Rightarrow> chop_hash_method
     \<Rightarrow> bytes \<Rightarrow> bytes \<Rightarrow> chk_index_handle" where
  "chk_handle gc cs G algo mode im key b =
    \<lparr>chk_block_size = length b, chk_key_size = gcry_cipher_get_algo_keylen gc algo, chk_key = key,
     chk_block_id_size = chop_hash_size im,
     chk_block_id = G im (cs_encrypt cs (algo, mode) key (chk_pad (gcry_cipher_get_algo_blklen gc algo) b)),
     chk_size = gcry_cipher_get_algo_keylen gc algo + chop_hash_size im + 12\<rparr>"

text \<open>The key the indexer wants for a block.\<close>

definition content_key ::
  "('g, 'r) gcry \<Rightarrow> gcry_md \<Rightarrow> chop_cipher_algo \<Rightarrow> chop_hash_method \<Rightarrow> bytes \<Rightarrow> bytes" where
  "content_key gc G algo km b = map (cycled (G km b)) [0..<gcry_cipher_get_algo_keylen gc algo]"

definition chk_compat ::
  "('g, 'r) gcry \<Rightarrow> 'g cipher_spec \<Rightarrow> chop_cipher_algo \<Rightarrow> chop_cipher_mode \<Rightarrow> chk_index_handle block_log \<Rightarrow> bool" where
  "chk_compat gc cs algo mode lg \<longleftrightarrow>
    (\<forall>(h, b) \<in> set lg. length b < 2 ^ 32) \<and> key_compat chk_id (chk_stored gc cs algo mode) lg"

definition chk_inv ::
  "('w \<Rightarrow> bool) \<Rightarrow> ('w \<Rightarrow> block_key \<rightharpoonup> bytes) \<Rightarrow> ('g, 'r) gcry \<Rightarrow> 'g cipher_spec \<Rightarrow> gcry_md \<Rightarrow> chop_cipher_algo
     \<Rightarrow> chop_cipher_mode \<Rightarrow> chop_hash_method \<Rightarrow> chop_hash_method \<Rightarrow> chk_index_handle block_log
     \<Rightarrow> ('g chk_block_indexer \<times> 'r) \<times> 'w \<Rightarrow> bool" where
  "chk_inv ok contents gc cs G algo mode km im lg iw \<longleftrightarrow> chk_ok ok gc cs G algo mode km im iw
     \<and> (\<forall>(h, b) \<in> set lg. \<exists>key. length key = gcry_cipher_get_algo_keylen gc algo \<and> \<not> cs_weak cs algo key
          \<and> h = chk_handle gc cs G algo mode im key b)
     \<and> key_inv chk_id (chk_stored gc cs algo mode) lg (contents (snd iw))"

definition chk_fetcher_ok ::
  "'g cipher_spec \<Rightarrow> chop_cipher_algo \<Rightarrow> chop_cipher_mode \<Rightarrow> chop_hash_method \<Rightarrow> 'g chk_block_fetcher \<Rightarrow> bool" where
  "chk_fetcher_ok cs algo mode im f \<longleftrightarrow>
    (\<exists>ch. cbf_cipher_handle f = Some ch \<and> cipher_for cs algo mode ch) \<and> cbf_block_id_hash_method f = im"

lemma chk_pad_props:
  assumes "0 < n"
  shows "n dvd length (chk_pad n b)" "take (length b) (chk_pad n b) = b" "length b \<le> length (chk_pad n b)"
    "length (chk_pad n b) < length b + n"
proof -
  have "length b mod n < n" using assms by simp
  then have "length b + (n - length b mod n) = n * (length b div n) + n"
    using mult_div_mod_eq [of n "length b"] by linarith
  then have "n dvd length b + (n - length b mod n)" by simp
  then show "n dvd length (chk_pad n b)" by (auto simp: chk_pad_def)
qed (use assms in \<open>auto simp: chk_pad_def\<close>)

locale chk_indexing = map_store store inv contents
  for store :: "'w block_store" and inv and contents +
  fixes gc :: "('g, 'r) gcry" and cs :: "'g cipher_spec" and G :: gcry_md
    and algo :: chop_cipher_algo and mode :: chop_cipher_mode
    and km :: chop_hash_method and im :: chop_hash_method
begin

abbreviation keylen :: nat where "keylen \<equiv> gcry_cipher_get_algo_keylen gc algo"
abbreviation blklen :: nat where "blklen \<equiv> gcry_cipher_get_algo_blklen gc algo"
abbreviation cok where "cok \<equiv> chk_ok inv gc cs G algo mode km im"
abbreviation cinv where "cinv \<equiv> chk_inv inv contents gc cs G algo mode km im"
abbreviation handle where "handle \<equiv> chk_handle gc cs G algo mode im"
abbreviation stored where "stored \<equiv> chk_stored gc cs algo mode"

lemma stored_handle: "stored (handle key b) b' = cs_encrypt cs (algo, mode) key (chk_pad blklen b')"
  by (simp add: chk_stored_def chk_handle_def)

lemma id_of_handle:
  "chk_ready gc cs G algo mode km im \<Longrightarrow> chk_id (handle key b) = G im (stored (handle key b) b)"
  by (simp add: chk_id_def chk_handle_def chk_stored_def chk_ready_def md_laws_def)

text \<open>The first key tried.\<close>

lemma first_key:
  assumes "chk_ready gc cs G algo mode km im" "cipher_for cs algo mode ch"
  obtains err ch' where
    "cipher_make_suitable_key (chop_cipher_algo_key_size gc algo) (take (chop_hash_size km) (G km block))
       = Some (content_key gc G algo km block)"
    "chop_cipher_set_key gc (chop_cipher_reset gc ch) (content_key gc G algo km block) = (err, ch')"
    "key_tried gc cs algo mode err (content_key gc G algo km block) ch'"
proof -
  have laws: "cipher_laws gc cs" "length (G km block) = chop_hash_size km" "chop_hash_size km \<noteq> 0"
    using assms(1) by (auto simp: chk_ready_def md_laws_def)
  then have "G km block \<noteq> []" by auto
  from suitable_key [OF this] laws
  have "cipher_make_suitable_key (chop_cipher_algo_key_size gc algo) (take (chop_hash_size km) (G km block))
       = Some (content_key gc G algo km block)"
    by (simp add: content_key_def chop_cipher_algo_key_size_def)
  moreover obtain err ch' where
    s: "chop_cipher_set_key gc (chop_cipher_reset gc ch) (content_key gc G algo km block) = (err, ch')"
    by (metis prod.exhaust)
  moreover have "key_tried gc cs algo mode err (content_key gc G algo km block) ch'"
    using cipher_for_reset [OF laws(1) assms(2)] s
    by (intro key_tried_set [OF laws(1)]) (auto simp: content_key_def)
  ultimately show thesis by (rule that)
qed

text \<open>A call of the indexer that returns has found a key, encrypted and written; the key is the one
  derived from the contents, unless that one is weak.\<close>

lemma chk_index_cases:
  assumes J: "cok iw"
    and ix: "chop_block_indexer_index (chk_indexer gc G) store block iw = Some (r, iw')"
  obtains key e w' where
    "chop_store_write_block store (snd iw) (G im (stored (handle key block) block)) (stored (handle key block) block) = (e, w')"
    "snd iw' = w'" "cok iw'" "r = (if e = CHOP_OK then Inr (handle key block) else Inl e)"
    "length key = keylen" "\<not> cs_weak cs algo key"
    "\<not> cs_weak cs algo (content_key gc G algo km block) \<Longrightarrow> key = content_key gc G algo km block"
proof -
  obtain ind rng w where iw: "iw = ((ind, rng), w)" by (cases iw) auto
  have ready: "chk_ready gc cs G algo mode km im" and ind: "cbi_key_hash_method ind = km"
    "cbi_block_id_hash_method ind = im" "inv w"
    using J by (auto simp: chk_ok_def iw)
  obtain ch where ch: "cbi_cipher_handle ind = Some ch" "cipher_for cs algo mode ch"
    using J by (auto simp: chk_ok_def iw)
  have pos: "0 < blklen" "0 < keylen" "cipher_laws gc cs" "plain_mode mode" "length (G im x) = chop_hash_size im" for x
    using ready by (auto simp: chk_ready_def md_laws_def)
  have algo: "chop_cipher_algorithm ch = algo" using ch(2) by (simp add: chop_cipher_algorithm_def cipher_for_def)
  from first_key [OF ready ch(2), of block] obtain err0 ch0 where k0:
    "cipher_make_suitable_key (chop_cipher_algo_key_size gc algo) (take (chop_hash_size km) (G km block))
       = Some (content_key gc G algo km block)"
    "chop_cipher_set_key gc (chop_cipher_reset gc ch) (content_key gc G algo km block) = (err0, ch0)"
    "key_tried gc cs algo mode err0 (content_key gc G algo km block) ch0" .
  note run = ix [unfolded chop_block_indexer_index_def chk_indexer_def block_indexer.simps chk_index_block_def iw
      prod.case ch(1) option.case Let_def algo ind(1,2) k0(1) bind.simps k0(2)]
  obtain key ch1 rng1 where loop: "weak_key_loop gc keylen err0 (content_key gc G algo km block) ch0 rng
      = Some (CHOP_OK, key, ch1, rng1)" "keyed_fresh cs algo mode keylen key ch1"
    "err0 = CHOP_OK \<longrightarrow> key = content_key gc G algo km block"
  proof -
    from run pos obtain x where x: "weak_key_loop gc keylen err0 (content_key gc G algo km block) ch0 rng = Some x"
      by (auto simp: chop_cipher_algo_key_size_def chop_cipher_algo_block_size_def bind_eq_Some_conv split: if_splits)
    from weak_loop_partial [OF x] pos(3) k0(3) x that show thesis
      by (cases x) (auto simp: weak_loop_ok_def)
  qed
  obtain er ch2 where enc: "chop_cipher_encrypt gc ch1 (chk_pad blklen block) = (er, ch2)" by (metis prod.exhaust)
  from cipher_for_crypt(1) [OF pos(3) _ pos(4) _ _ chk_pad_props(1) [OF pos(1)] enc] loop(2)
  have er: "er = Inr (stored (handle key block) block)" "cipher_for cs algo mode ch2"
    by (auto simp: keyed_fresh_def stored_handle)
  obtain e w' where wr: "chop_store_write_block store w (G im (stored (handle key block) block))
      (stored (handle key block) block) = (e, w')" by (metis prod.exhaust)
  have id: "take (chop_hash_size im) (G im x) = G im x" for x using pos(5) by simp
  have res: "r = (if e = CHOP_OK then Inr (handle key block) else Inl e)"
    "iw' = ((ind\<lparr>cbi_cipher_handle := Some ch2\<rparr>, rng1), w')"
    using run pos(1,2) loop(1) enc er(1) wr id
    by (auto simp: chop_cipher_algo_key_size_def chop_cipher_algo_block_size_def chk_handle_def chk_stored_def
        split: if_splits)
  have "inv w'" using write_block_law [OF ind(3) wr] by simp
  moreover have "err0 = CHOP_OK" if "\<not> cs_weak cs algo (content_key gc G algo km block)"
    using k0(3) that by (simp add: key_tried_def)
  ultimately show thesis
    using that [of key e w'] wr res er(2) loop(2,3) ready ind by (simp add: iw chk_ok_def keyed_fresh_def)
qed

lemma chk_log_law:
  assumes I: "cinv lg iw"
    and ix: "chop_block_indexer_index (chk_indexer gc G) store block iw = Some (Inr h, iw')"
    and comp: "chk_compat gc cs algo mode ((h, block) # lg)"
  shows "cinv ((h, block) # lg) iw'"
proof -
  have J: "cok iw" using I by (simp add: chk_inv_def)
  from J ix obtain key e w' where w':
    "chop_store_write_block store (snd iw) (G im (stored (handle key block) block)) (stored (handle key block) block) = (e, w')"
    "snd iw' = w'" "cok iw'" "Inr h = (if e = CHOP_OK then Inr (handle key block) else Inl e)"
    "length key = keylen" "\<not> cs_weak cs algo key"
    by (rule chk_index_cases)
  then have h: "e = CHOP_OK" "h = handle key block" by (auto split: if_splits)
  have "chk_id h = G im (stored h block)" using J h by (simp add: id_of_handle chk_ok_def)
  then have "key_inv chk_id stored ((h, block) # lg) (contents w')"
    using keyed_write(2) [of "snd iw" chk_id stored lg h block w'] I comp w'(1) h
    by (simp add: chk_inv_def chk_ok_def chk_compat_def)
  with I w'(2,3,5,6) h(2) show ?thesis by (auto simp: chk_inv_def)
qed

lemma chk_log_fail_law:
  assumes I: "cinv lg iw"
    and ix: "chop_block_indexer_index (chk_indexer gc G) store block iw = Some (Inl err, iw')"
  shows "cinv lg iw'"
proof -
  have J: "cok iw" using I by (simp add: chk_inv_def)
  from J ix obtain key e w' where w':
    "chop_store_write_block store (snd iw) (G im (stored (handle key block) block)) (stored (handle key block) block) = (e, w')"
    "snd iw' = w'" "cok iw'" "Inl err = (if e = CHOP_OK then Inr (handle key block) else Inl e)"
    by (rule chk_index_cases)
  have "contents w' = contents (snd iw)"
    using write_block_law [OF _ w'(1)] J w'(4) by (auto simp: chk_ok_def split: if_splits)
  with I w'(2,3) show ?thesis by (simp add: chk_inv_def)
qed

lemma chk_fetch_ok:
  assumes I: "cinv lg (i, w)" and f: "chk_fetcher_ok cs algo mode im f" and b: "(h, block) \<in> set lg"
    and h': "h' \<in> {h, chk_reread h}"
  shows "\<exists>f' w'. chop_block_fetcher_fetch (chk_fetcher gc G) h' store buffer (f, w)
      = Some ((CHOP_OK, block, length block), f', w') \<and> cinv lg (i, w') \<and> chk_fetcher_ok cs algo mode im f'"
proof -
  obtain key where h: "length key = keylen" "\<not> cs_weak cs algo key" "h = handle key block"
    using I b by (auto simp: chk_inv_def)
  have ready: "chk_ready gc cs G algo mode km im" "inv w" "key_inv chk_id stored lg (contents w)"
    using I by (auto simp: chk_inv_def chk_ok_def)
  then have laws: "cipher_laws gc cs" "plain_mode mode" "0 < blklen" "length (G im x) = chop_hash_size im" for x
    by (auto simp: chk_ready_def md_laws_def)
  obtain ch where ch: "cbf_cipher_handle f = Some ch" "cipher_for cs algo mode ch" "cbf_block_id_hash_method f = im"
    using f by (auto simp: chk_fetcher_ok_def)
  let ?c = "cs_encrypt cs (algo, mode) key (chk_pad blklen block)"
  note pad = chk_pad_props [OF laws(3), of block]
  have c: "length ?c = length (chk_pad blklen block)" "cs_decrypt cs (algo, mode) key ?c = chk_pad blklen block"
    using cipher_round_trip [OF laws(1,2) pad(1) h(1)] by auto
  obtain r1 w1 where rd: "chop_store_read_block store w (chk_id h) [] = (r1, w1)" by (metis prod.exhaust)
  note r1 = keyed_read [OF ready(2,3) b rd]
  have same: "chk_id h' = chk_id h" "chk_block_size h' = length block" "chk_key_size h' = keylen" "chk_key h' = key"
    "chk_block_id_size h' = chop_hash_size im" "chk_block_id h' = G im ?c"
    using h' h(3) by (auto simp: chk_reread_def chk_handle_def chk_id_def)
  have read: "chop_store_read_block store w (chk_id h') [] = ((CHOP_OK, ?c, length ?c), w1)"
    using rd r1(1) same(1) h(3) by (simp add: stored_handle)
  have intact: "chk_intact G im h' ?c" by (simp add: chk_intact_def same)
  have algo: "chop_cipher_algorithm ch = algo" using ch(2) by (simp add: chop_cipher_algorithm_def cipher_for_def)
  obtain e1 ch1 where s: "chop_cipher_set_key gc (chop_cipher_reset gc ch) key = (e1, ch1)" by (metis prod.exhaust)
  have "key_tried gc cs algo mode e1 key ch1"
    using cipher_for_reset [OF laws(1) ch(2)] s h(1) by (intro key_tried_set [OF laws(1)])
  with h(2) have e1: "e1 = CHOP_OK" "keyed_fresh cs algo mode keylen key ch1"
    by (auto simp: key_tried_def keyed_fresh_def)
  obtain dr ch2 where d: "chop_cipher_decrypt gc ch1 ?c = (dr, ch2)" by (metis prod.exhaust)
  have "blklen dvd length ?c" using c(1) pad(1) by simp
  from cipher_for_crypt(2) [OF laws(1) _ laws(2) _ _ this d] e1(2) c(2)
  have dr: "dr = Inr (chk_pad blklen block)" "cipher_for cs algo mode ch2" by (auto simp: keyed_fresh_def)
  have "chop_block_fetcher_fetch (chk_fetcher gc G) h' store buffer (f, w)
      = Some ((CHOP_OK, block, length block), f\<lparr>cbf_cipher_handle := Some ch2\<rparr>, w1)"
    using read intact algo s e1(1) d dr(1) pad(2,3) c(1) same(2-4) h(1) ch
    by (simp add: chop_block_fetcher_fetch_def chk_fetcher_def chk_block_fetch_def chop_cipher_algo_key_size_def)
  moreover have "cinv lg (i, w1)" using I r1(2,3) by (simp add: chk_inv_def chk_ok_def)
  moreover have "chk_fetcher_ok cs algo mode im (f\<lparr>cbf_cipher_handle := Some ch2\<rparr>)"
    using dr(2) ch(3) by (simp add: chk_fetcher_ok_def)
  ultimately show ?thesis by blast
qed

end

sublocale chk_indexing \<subseteq> idx: block_indexing chk_index_handle_class wf_chk chk_encode chk_reread
  "chk_indexer gc G" "chk_fetcher gc G" store "chk_ok inv gc cs G algo mode km im"
  "chk_inv inv contents gc cs G algo mode km im" "chk_fetcher_ok cs algo mode im"
  "chk_compat gc cs algo mode" "2 ^ 32 - 1" 1100
proof (unfold_locales, goal_cases)
  case (1 x lg)
  then show ?case by (auto simp: chk_compat_def dest: key_compat_tail)
next
  case (2 iw block h iw')
  from 2(1,2) obtain key e where "cok iw'"
    "Inr h = (if e = CHOP_OK then Inr (handle key block) else Inl e)" "length key = keylen"
    by (rule chk_index_cases)
  moreover have "keylen \<le> 1024" "length (G im x) = chop_hash_size im" for x
    using 2(1) by (auto simp: chk_ok_def chk_ready_def md_laws_def)
  ultimately show ?case
    using hash_size_bound [of im] 2(3)
    by (auto simp: wf_chk_def chk_encode_def chk_handle_def split: if_splits)
next
  case (3 iw block err iw')
  from 3(1,2) show ?case by (rule chk_index_cases) (auto split: if_splits)
next
  case (4 lg iw block h iw')
  then show ?case by (rule chk_log_law)
next
  case (5 lg iw block err iw')
  then show ?case by (rule chk_log_fail_law)
next
  case (6 lg i w f h block h' buffer)
  then show ?case by (rule chk_fetch_ok)
qed

text \<open>On a store that can be written, with a generator that gives good keys, indexing returns with success.\<close>

locale reliable_chk = chk_indexing + reliable_store
begin

lemma chk_index_succeeds:
  assumes "cok iw" "random_keys gc cs algo"
  shows "\<exists>h iw'. chop_block_indexer_index (chk_indexer gc G) store block iw = Some (Inr h, iw')"
proof -
  obtain ind rng w where iw: "iw = ((ind, rng), w)" by (cases iw) auto
  have ready: "chk_ready gc cs G algo mode km im" and ind: "cbi_key_hash_method ind = km"
    "cbi_block_id_hash_method ind = im" "inv w"
    using assms(1) by (auto simp: chk_ok_def iw)
  obtain ch where ch: "cbi_cipher_handle ind = Some ch" "cipher_for cs algo mode ch"
    using assms(1) by (auto simp: chk_ok_def iw)
  have pos: "0 < blklen" "0 < keylen" "cipher_laws gc cs" "plain_mode mode" "length (G im x) = chop_hash_size im" for x
    using ready by (auto simp: chk_ready_def md_laws_def)
  have algo: "chop_cipher_algorithm ch = algo" using ch(2) by (simp add: chop_cipher_algorithm_def cipher_for_def)
  from first_key [OF ready ch(2), of block] obtain err0 ch0 where k0:
    "cipher_make_suitable_key (chop_cipher_algo_key_size gc algo) (take (chop_hash_size km) (G km block))
       = Some (content_key gc G algo km block)"
    "chop_cipher_set_key gc (chop_cipher_reset gc ch) (content_key gc G algo km block) = (err0, ch0)"
    "key_tried gc cs algo mode err0 (content_key gc G algo km block) ch0" .
  obtain key ch1 rng1 where loop:
    "weak_key_loop gc keylen err0 (content_key gc G algo km block) ch0 rng = Some (CHOP_OK, key, ch1, rng1)"
    using weak_loop_returns [OF pos(3) assms(2) k0(3)] .
  have kf: "keyed_fresh cs algo mode keylen key ch1"
    using weak_loop_partial [OF loop] pos(3) k0(3) by (auto simp: weak_loop_ok_def)
  obtain er ch2 where enc: "chop_cipher_encrypt gc ch1 (chk_pad blklen block) = (er, ch2)" by (metis prod.exhaust)
  from cipher_for_crypt(1) [OF pos(3) _ pos(4) _ _ chk_pad_props(1) [OF pos(1)] enc] kf
  have er: "er = Inr (stored (handle key block) block)" by (auto simp: keyed_fresh_def stored_handle)
  obtain e w' where wr: "chop_store_write_block store w (take (chop_hash_size im) (G im (stored (handle key block) block)))
      (stored (handle key block) block) = (e, w')" by (metis prod.exhaust)
  have "e = CHOP_OK" using write_succeeds [OF ind(3)] wr by (metis fst_conv)
  then show ?thesis
    using pos(1,2) loop enc er wr ch(1) ind algo k0(1,2)
    by (simp add: chop_block_indexer_index_def chk_indexer_def chk_index_block_def iw Let_def
        chop_cipher_algo_key_size_def chop_cipher_algo_block_size_def)
qed

end

sublocale reliable_chk \<subseteq> ridx: reliable_indexing chk_index_handle_class wf_chk chk_encode chk_reread
  "chk_indexer gc G" "chk_fetcher gc G" store
  "\<lambda>iw. chk_ok inv gc cs G algo mode km im iw \<and> random_keys gc cs algo"
  "chk_inv inv contents gc cs G algo mode km im" "chk_fetcher_ok cs algo mode im"
  "chk_compat gc cs algo mode" "2 ^ 32 - 1" 1100
proof (unfold_locales, goal_cases)
  case (1 x lg)
  then show ?case by (rule idx.compat_tail)
next
  case (2 iw block h iw')
  then show ?case using idx.index_law [of iw block h iw'] by simp
next
  case (3 iw block err iw')
  then show ?case using idx.index_fail_law [of iw block err iw'] by simp
next
  case (4 lg iw block h iw')
  then show ?case by (rule idx.log_law)
next
  case (5 lg iw block err iw')
  then show ?case by (rule idx.log_fail_law)
next
  case (6 lg i w f h block h' buffer)
  then show ?case by (rule idx.fetch_law)
next
  case (7 iw block)
  then show ?case using chk_index_succeeds [of iw block] by simp
qed

interpretation db_chk: chk_indexing "generic_db_store ops"
  "\<lambda>s. db_laws ops mp \<and> db_open s" "\<lambda>s. mp (db s)" gc cs G algo mode km im
  for ops :: "'d db_ops" and mp and gc :: "('g, 'r) gcry" and cs and G and algo and mode and km and im
  by unfold_locales

interpretation reliable_db_chk: reliable_chk "generic_db_store ops"
  "\<lambda>s. (db_laws ops mp \<and> db_writable ops) \<and> db_open s" "\<lambda>s. mp (db s)" gc cs G algo mode km im
  for ops :: "'d db_ops" and mp and gc :: "('g, 'r) gcry" and cs and G and algo and mode and km and im
  by unfold_locales


text \<open>The sample cipher with the sample digest, in the state \<open>k\<close> leaves its handle.\<close>

abbreviation sample_kind :: "chop_cipher_algo \<times> chop_cipher_mode" where
  "sample_kind \<equiv> (CHOP_CIPHER_AES, CHOP_CIPHER_MODE_CBC)"

definition sample_chk :: "bytes option \<Rightarrow> bool \<Rightarrow> sample_hd chk_block_indexer" where
  "sample_chk k fresh =
    \<lparr>cbi_cipher_handle = Some \<lparr>gcry_handle = (sample_kind, k, fresh), ch_algo = CHOP_CIPHER_AES,
                               ch_mode = CHOP_CIPHER_MODE_CBC\<rparr>,
     cbi_owns_cipher_handle = True, cbi_key_hash_method = CHOP_HASH_MD5, cbi_block_id_hash_method = CHOP_HASH_MD5\<rparr>"

lemma sample_chk_ready:
  "chk_ready sample_gcry sample_cs sample_md CHOP_CIPHER_AES CHOP_CIPHER_MODE_CBC CHOP_HASH_MD5 CHOP_HASH_MD5"
  using sample_cipher_laws sample_md_laws
  by (simp add: chk_ready_def plain_mode_def sample_gcry_def chop_hash_size_def hash_methods_def)

lemma sample_content_key:
  "content_key sample_gcry sample_md a CHOP_HASH_MD5 b = take 2 (b @ [0, 0])"
proof -
  have g: "length (sample_md CHOP_HASH_MD5 b) = 16" "take 2 (sample_md CHOP_HASH_MD5 b) = take 2 (b @ [0, 0])"
    by (cases b; cases "tl b"; simp add: sample_md_def chop_hash_size_def hash_methods_def numeral_eq_Suc)+
  have "[0..<2] = [0, Suc 0]" by (simp add: numeral_2_eq_2)
  then have "content_key sample_gcry sample_md a CHOP_HASH_MD5 b = take 2 (sample_md CHOP_HASH_MD5 b)"
    using g(1) by (cases "sample_md CHOP_HASH_MD5 b"; cases "tl (sample_md CHOP_HASH_MD5 b)")
      (auto simp: content_key_def cycled_def sample_gcry_def numeral_2_eq_2)
  with g(2) show ?thesis by simp
qed

lemma sample_chk_index:
  assumes "take 2 (b @ [0, 0]) \<noteq> [0, 0]"
  shows "chk_index_block sample_gcry sample_md (generic_db_store alist_db) b
      ((sample_chk k fresh, rng), \<lparr>db = d, db_open = True\<rparr>) =
    (let h = chk_handle sample_gcry sample_cs sample_md CHOP_CIPHER_AES CHOP_CIPHER_MODE_CBC CHOP_HASH_MD5
               (take 2 (b @ [0, 0])) b;
         c = chk_stored sample_gcry sample_cs CHOP_CIPHER_AES CHOP_CIPHER_MODE_CBC h b
     in Some (Inr h, (sample_chk (Some (take 2 (b @ [0, 0]))) False, rng),
          \<lparr>db = (chk_block_id h, c) # filter (\<lambda>e. fst e \<noteq> chk_block_id h) d, db_open = True\<rparr>))"
proof -
  have ne: "sample_md CHOP_HASH_MD5 b \<noteq> []" and len: "length (sample_md CHOP_HASH_MD5 x) = 16" for x
    by (auto simp: sample_md_def chop_hash_size_def hash_methods_def)
  have key: "cipher_make_suitable_key 2 (take (chop_hash_size CHOP_HASH_MD5) (sample_md CHOP_HASH_MD5 b))
      = Some (take 2 (b @ [0, 0]))"
    using suitable_key [OF ne, of 2] sample_content_key [of CHOP_CIPHER_AES b] len [of b]
    by (simp add: content_key_def sample_gcry_def chop_hash_size_def hash_methods_def)
  define k2 where "k2 = take 2 (b @ [0, 0 :: byte])"
  have two: "length k2 = 2" "k2 \<noteq> [0, 0]" using assms by (simp_all add: k2_def)
  have id: "take (chop_hash_size CHOP_HASH_MD5) (sample_md CHOP_HASH_MD5 x) = sample_md CHOP_HASH_MD5 x" for x
    using len by (simp add: chop_hash_size_def hash_methods_def)
  show ?thesis
    unfolding k2_def [symmetric] using two key [unfolded k2_def [symmetric]]
    by (simp add: chk_index_block_def sample_chk_def chop_cipher_algorithm_def chop_cipher_algo_key_size_def
      chop_cipher_algo_block_size_def id sample_gcry_def chop_cipher_set_key_def chop_cipher_reset_def
      weak_key_loop.simps chop_cipher_encrypt_def sample_crypt_def chk_handle_def chk_stored_def sample_cs_def
      generic_db_defs alist_db_def Let_def)
qed


end
