(* ===== verification/Chop_CHK_Text.thy ===== *)
theory Chop_CHK_Text
  imports Chop_CHK_Correct
begin

text \<open>
  The serialized forms of the content-hash-key indexer: text and binary handles, and the configuration
  strings of indexers and fetchers, are read back.
\<close>

section \<open>Text handles\<close>

lemma strchr_append:
  assumes "\<forall>x \<in> set xs. x \<noteq> c \<and> x \<noteq> 0"
  shows "strchr (xs @ c # ys) c = Some (length xs)"
proof -
  have "takeWhile (\<lambda>x. x \<noteq> c \<and> x \<noteq> 0) (xs @ c # ys) = xs"
    using assms by (subst takeWhile_append2) auto
  then show ?thesis by (simp add: strchr_def)
qed

text \<open>The text form of a content-hash-key handle, its key and its block identifier in base32 and the
  size of the block in hexadecimal, is read back when it fits the 1023 characters the
  reader looks at; the handle read is the one written, except that its binary size is short of the
  block identifier.\<close>

theorem chk_ascii_round_trip:
  assumes "wf_chk h" "chk_serialize CHOP_SERIAL_ASCII h = Some (Inr str)" "length str \<le> 1023"
  shows "chk_deserialize CHOP_SERIAL_ASCII str = Some (Inr (chk_reread h, length str - 1))"
proof -
  let ?k = "chop_buffer_to_base32_string (chk_key h)" and ?b = "chop_buffer_to_base32_string (chk_block_id h)"
  let ?z = "sprintf_zx (chk_block_size h)"
  let ?tail = "?b @ of_char CHR ''/'' # ?z @ [0, 0]"
  have str: "str = ?k @ of_char CHR '','' # ?b @ of_char CHR ''/'' # ?z @ [0]"
    using assms(1,2) by (simp add: chk_serialize_def wf_chk_def)
  have input: "take 1023 str @ [0] = ?k @ of_char CHR '','' # ?tail" using assms(3) str by simp
  have comma: "strchr (?k @ of_char CHR '','' # ?tail) (of_char CHR '','') = Some (length ?k)"
    using base32_string_no_slash by (intro strchr_append) auto
  have "strchr ((of_char CHR '','' # ?b) @ of_char CHR ''/'' # ?z @ [0, 0]) (of_char CHR ''/'')
      = Some (length (of_char CHR '','' # ?b))"
    using base32_string_no_slash by (intro strchr_append) auto
  then have slash: "strchr (drop (length ?k) (?k @ of_char CHR '','' # ?tail)) (of_char CHR ''/'')
      = Some (Suc (length ?b))"
    by simp
  have z: "strtoul16 (?z @ [0, 0]) = (chk_block_size h, length ?z)"
    using assms(1) by (intro strtoul16_sprintf_zx) (simp add: wf_chk_def)
  have drops: "drop (length ?k + 1) (?k @ of_char CHR '','' # ?tail) = ?tail"
    "drop (length ?k + Suc (length ?b) + 1) (?k @ of_char CHR '','' # ?tail) = ?z @ [0, 0]" "Suc (length ?b) - 1 = length ?b"
    by simp_all
  note parts = base32_round_trip [of "chk_key h" "of_char CHR '','' # ?tail"]
    base32_round_trip [of "chk_block_id h" "of_char CHR ''/'' # ?z @ [0, 0]"]
  show ?thesis
    unfolding chk_deserialize_def Let_def chop_serial_method.case input comma option.case parts prod.case slash drops z
    using assms(1) by (cases h) (simp add: str wf_chk_def chk_reread_def)
qed

theorem chk_ascii_round_trip_witness:
  "\<exists>str. chk_serialize CHOP_SERIAL_ASCII \<lparr>chk_block_size = 5, chk_key_size = 1, chk_key = [7],
        chk_block_id_size = 1, chk_block_id = [9], chk_size = 14\<rparr> = Some (Inr str)
    \<and> chk_deserialize CHOP_SERIAL_ASCII str = Some (Inr (\<lparr>chk_block_size = 5, chk_key_size = 1, chk_key = [7],
        chk_block_id_size = 1, chk_block_id = [9], chk_size = 13\<rparr>, length str - 1))"
proof -
  let ?h = "\<lparr>chk_block_size = 5, chk_key_size = 1, chk_key = [7],
        chk_block_id_size = 1, chk_block_id = [9], chk_size = 14\<rparr>"
  let ?str = "chop_buffer_to_base32_string [7] @ [of_char CHR '',''] @ chop_buffer_to_base32_string [9]
      @ [of_char CHR ''/''] @ sprintf_zx 5 @ [0]"
  have ser: "chk_serialize CHOP_SERIAL_ASCII ?h = Some (Inr ?str)" by (simp add: chk_serialize_def)
  have "length (sprintf_zx 5) \<le> 3" by (simp add: sprintf_zx.simps)
  then have "length ?str \<le> 1023"
    by (simp add: base32_encode_spec rfc4648_base32_def Let_def length_rfc4648_chars)
  with chk_ascii_round_trip [of ?h ?str] ser show ?thesis by (simp add: wf_chk_def chk_reread_def)
qed

text \<open>C40: The binary form of a content-hash-key handle is read back whatever bytes follow it, with its key,
  block identifier and block size.  The binary size of the handle read is smaller than what
  was read, by the size of the block identifier.\<close>

theorem chk_binary_round_trip:
  assumes "wf_chk h" "chk_serialize CHOP_SERIAL_BINARY h = Some (Inr bin)"
  shows "\<exists>h'. chk_deserialize CHOP_SERIAL_BINARY (bin @ rest) = Some (Inr (h', length bin))
    \<and> chk_equalp h h' \<and> length bin = chk_size h \<and> chk_size h' + chk_block_id_size h = length bin"
  using chk_codec.serialize_law [OF assms(1)] chk_codec.deserialize_law [OF assms(1), of rest]
    chk_codec.binary_size_law [OF assms(1)] assms
  by (auto simp: chk_index_handle_class_def chk_reread_def chk_equalp_def wf_chk_def)

theorem chk_binary_round_trip_witness:
  "\<exists>h'. chk_deserialize CHOP_SERIAL_BINARY ([2, 0, 0, 0, 1, 0, 0, 0, 1, 0, 0, 0, 9, 8] @ [5]) = Some (Inr (h', 14))
     \<and> chk_size h' + 1 = 14"
  using chk_binary_round_trip [of "\<lparr>chk_block_size = 2, chk_key_size = 1, chk_key = [9],
        chk_block_id_size = 1, chk_block_id = [8], chk_size = 14\<rparr>" "[2, 0, 0, 0, 1, 0, 0, 0, 1, 0, 0, 0, 9, 8]" "[5]"]
  by (auto simp: wf_chk_def chk_serialize_def le32_def)

section \<open>Configurations\<close>

lemma algo_name_chars:
  "\<forall>c \<in> set (chop_cipher_algo_name a). c \<noteq> 0 \<and> c \<noteq> of_char CHR '','' \<and> tolower c \<noteq> 0 \<and> tolower c \<noteq> of_char CHR '',''"
  by (cases a; simp add: chop_cipher_algo_name_def cipher_algos_def ascii_def tolower_def)

lemma mode_name_chars:
  "\<forall>c \<in> set (chop_cipher_mode_name m). c \<noteq> 0 \<and> c \<noteq> of_char CHR '','' \<and> name_char (tolower c)"
  by (cases m; simp add: chop_cipher_mode_name_def cipher_modes_def ascii_def tolower_def name_char_def
        ispunct_def isalnum_def isspace_def)

lemma hash_name_chars:
  "\<forall>c \<in> set (chop_hash_method_name h). c \<noteq> 0 \<and> c \<noteq> of_char CHR '','' \<and> isalnum c \<and> name_char (tolower c)"
  by (cases h; simp add: chop_hash_method_name_def hash_methods_def ascii_def tolower_def name_char_def
        ispunct_def isalnum_def isspace_def)

lemma hash_names:
  "chop_hash_method_lookup (chop_hash_method_name h) = Inr h"
  "chop_hash_method_lookup (map tolower (chop_hash_method_name h)) = Inr h"
  by (cases h; simp add: chop_hash_method_lookup_def chop_hash_method_name_def hash_methods_def
      strcasecmp_eq_def ascii_def toupper_def tolower_def)+

lemma names_not_Nil: "chop_hash_method_name h \<noteq> []"
  by (cases h) (simp_all add: chop_hash_method_name_def hash_methods_def ascii_def)

lemma takeWhile_comma:
  assumes "\<forall>c \<in> set xs. c \<noteq> of_char CHR '',''"
  shows "takeWhile (\<lambda>c. c \<noteq> of_char CHR '','') (xs @ of_char CHR '','' # ys) = xs"
  using assms by (subst takeWhile_append2) auto

lemma FETCH_NAME_append:
  assumes "\<forall>c \<in> set xs. c \<noteq> of_char CHR '',''"
  shows "FETCH_NAME (xs @ of_char CHR '','' # ys) = Some (xs, ys)"
  using takeWhile_comma [OF assms, of ys] by (simp add: FETCH_NAME_def)

lemma c_string_id: "\<forall>c \<in> set xs. c \<noteq> 0 \<Longrightarrow> takeWhile (\<lambda>c. c \<noteq> 0) xs = (xs :: bytes)"
  by (rule takeWhile_eq_all_conv [THEN iffD2])

lemma scan_name_append:
  assumes "\<forall>c \<in> set xs. name_char c" "\<not> name_char c"
  shows "scan_name (ys @ xs @ c # zs) (length ys) = Some xs"
proof -
  have "takeWhile name_char (xs @ c # zs) = xs" using assms by (subst takeWhile_append2) auto
  then show ?thesis by (simp add: scan_name_def)
qed

text \<open>The configuration of a content-hash-key indexer, written as the names of its cipher, mode and hash
  methods, is read back as an indexer with the same ones and a new cipher handle, provided
  libgcrypt opens one.\<close>

theorem cbi_config_round_trip:
  assumes "cbi_cipher_handle indexer = Some ch" "chop_cipher_copy gc ch = Some ch'"
    and "cbi_serialize CHOP_SERIAL_ASCII indexer = Some (Inr str)"
  shows "cbi_deserialize gc CHOP_SERIAL_ASCII str
    = Inr (indexer\<lparr>cbi_cipher_handle := Some ch', cbi_owns_cipher_handle := True\<rparr>, length str - 1)"
proof -
  let ?a = "chop_cipher_algo_name (ch_algo ch)" and ?m = "chop_cipher_mode_name (ch_mode ch)"
  let ?k = "chop_hash_method_name (cbi_key_hash_method indexer)"
  let ?i = "chop_hash_method_name (cbi_block_id_hash_method indexer)"
  have str: "str = ?a @ of_char CHR '','' # ?m @ of_char CHR '','' # ?k @ of_char CHR '','' # ?i @ [0]"
    using assms(1,3) by (simp add: cbi_serialize_def chop_cipher_algorithm_def chop_cipher_mode_of_def)
  have fetch: "FETCH_NAME (?a @ of_char CHR '','' # ys) = Some (?a, ys)"
    "FETCH_NAME (?m @ of_char CHR '','' # ys) = Some (?m, ys)"
    "FETCH_NAME (?k @ of_char CHR '','' # ys) = Some (?k, ys)" for ys
    using algo_name_chars mode_name_chars hash_name_chars by (intro FETCH_NAME_append; blast)+
  have c_string: "takeWhile (\<lambda>c. c \<noteq> 0) ?a = ?a" "takeWhile (\<lambda>c. c \<noteq> 0) ?m = ?m" "takeWhile (\<lambda>c. c \<noteq> 0) ?k = ?k"
    using algo_name_chars mode_name_chars hash_name_chars by (intro c_string_id; blast)+
  have "takeWhile isalnum (?i @ [0]) = ?i"
    using hash_name_chars by (subst takeWhile_append2) (auto simp: isalnum_def)
  note eval = cbi_deserialize_def str chop_serial_method.case fetch option.case prod.case Let_def this c_string
    cipher_names hash_names sum.case
  have "chop_cipher_open gc (ch_algo ch) (ch_mode ch) = Some ch'" using assms(2) by (simp add: chop_cipher_copy_def)
  then show ?thesis unfolding eval by (cases indexer) simp
qed

text \<open>The configuration of a content-hash-key fetcher that knows the hash method of its block identifiers is
  read back.  Without one, the reader, which looks for a third name behind the NUL that ends the
  second, leaves the text that the writer gave it.\<close>

theorem cbf_config_round_trip:
  assumes "cbf_cipher_handle fetcher = Some ch"
    and "cbf_serialize CHOP_SERIAL_ASCII fetcher buffer = Some (CHOP_OK, str)"
  shows "cbf_deserialize gc CHOP_SERIAL_ASCII str =
    (if cbf_block_id_hash_method fetcher = CHOP_HASH_NONE then None
     else Some (Inr (fetcher\<lparr>cbf_cipher_handle := chop_cipher_copy gc ch, cbf_owns_cipher_handle := True\<rparr>,
                     length str - 1)))"
proof -
  let ?a = "map tolower (chop_cipher_algo_name (ch_algo ch))" and ?m = "map tolower (chop_cipher_mode_name (ch_mode ch))"
  let ?h = "map tolower (chop_hash_method_name (cbf_block_id_hash_method fetcher))"
  let ?rest = "(if cbf_block_id_hash_method fetcher \<noteq> CHOP_HASH_NONE then of_char CHR '','' # ?h else []) @ [0]"
  have str: "str = ?a @ of_char CHR '','' # ?m @ ?rest"
    using assms by (simp add: cbf_serialize_def chop_cipher_algorithm_def chop_cipher_mode_of_def)
  have algo: "takeWhile (\<lambda>c. c \<noteq> of_char CHR '','') str = ?a" "takeWhile (\<lambda>c. c \<noteq> 0) ?a = ?a"
    unfolding str using algo_name_chars by (intro takeWhile_comma c_string_id; auto)+
  have stop: "\<not> name_char 0" "\<not> name_char (of_char CHR '','')"
    by (simp_all add: name_char_def ispunct_def isalnum_def)
  have chars: "\<forall>c \<in> set ?m. name_char c" "\<forall>c \<in> set ?h. name_char c" using mode_name_chars hash_name_chars by auto
  have mode: "scan_name str (length ?a + 1) = Some ?m"
    using scan_name_append [OF chars(1) stop(1), of "?a @ [of_char CHR '','']" "[]"]
      scan_name_append [OF chars(1) stop(2), of "?a @ [of_char CHR '','']" "?h @ [0]"]
    by (auto simp: str)
  have "length ?a = length str \<longleftrightarrow> False" by (simp add: str)
  note eval = cbf_deserialize_def chop_serial_method.case Let_def algo this if_False cipher_names sum.case mode bind.simps
  show ?thesis
  proof (cases "cbf_block_id_hash_method fetcher = CHOP_HASH_NONE")
    case True
    then have "scan_name str (length ?a + 1 + length ?m + 1) = None" by (simp add: str scan_name_def)
    then show ?thesis unfolding eval using True by simp
  next
    case False
    have h: "scan_name str (length ?a + 1 + length ?m + 1) = Some ?h"
      using scan_name_append [OF chars(2) stop(1), of "?a @ of_char CHR '','' # ?m @ [of_char CHR '','']" "[]"] False
      by (simp add: str)
    have "length str - 1 = length ?a + 1 + length ?m + 1 + length ?h" "?h = [] \<longleftrightarrow> False"
      using False names_not_Nil by (auto simp: str)
    then show ?thesis
      unfolding eval h hash_names using False by (cases fetcher) (simp add: cbf_ctor_def chop_cipher_copy_def)
  qed
qed

theorem cbi_config_round_trip_witness:
  "\<exists>str. cbi_serialize CHOP_SERIAL_ASCII (sample_chk (Some [1, 2]) False) = Some (Inr str)
    \<and> cbi_deserialize sample_gcry CHOP_SERIAL_ASCII str = Inr (sample_chk None True, length str - 1)"
proof -
  obtain str where s: "cbi_serialize CHOP_SERIAL_ASCII (sample_chk (Some [1, 2]) False) = Some (Inr str)"
    by (simp add: cbi_serialize_def sample_chk_def)
  have "chop_cipher_copy sample_gcry \<lparr>gcry_handle = (sample_kind, Some [1, 2], False), ch_algo = CHOP_CIPHER_AES,
        ch_mode = CHOP_CIPHER_MODE_CBC\<rparr> = Some \<lparr>gcry_handle = (sample_kind, None, True), ch_algo = CHOP_CIPHER_AES,
        ch_mode = CHOP_CIPHER_MODE_CBC\<rparr>"
    by (simp add: chop_cipher_copy_def chop_cipher_open_def sample_gcry_def)
  from cbi_config_round_trip [OF _ this s] s show ?thesis by (simp add: sample_chk_def)
qed

theorem cbf_config_round_trip_witness:
  "\<exists>str. cbf_serialize CHOP_SERIAL_ASCII (cbf_ctor\<lparr>cbf_cipher_handle := chop_cipher_open sample_gcry CHOP_CIPHER_AES
        CHOP_CIPHER_MODE_CBC\<rparr>) [] = Some (CHOP_OK, str)
    \<and> cbf_deserialize sample_gcry CHOP_SERIAL_ASCII str = None"
proof -
  let ?ch = "\<lparr>gcry_handle = (sample_kind, None :: bytes option, True), ch_algo = CHOP_CIPHER_AES, ch_mode = CHOP_CIPHER_MODE_CBC\<rparr>"
  have o: "chop_cipher_open sample_gcry CHOP_CIPHER_AES CHOP_CIPHER_MODE_CBC = Some ?ch"
    by (simp add: chop_cipher_open_def sample_gcry_def)
  obtain str where s: "cbf_serialize CHOP_SERIAL_ASCII (cbf_ctor\<lparr>cbf_cipher_handle := Some ?ch\<rparr>) [] = Some (CHOP_OK, str)"
    by (simp add: cbf_serialize_def)
  from cbf_config_round_trip [OF _ s, of ?ch sample_gcry] s o show ?thesis by (simp add: cbf_ctor_def)
qed

end
