(* ===== verification/Chop_CHK_Roundtrip.thy ===== *)
theory Chop_CHK_Roundtrip
  imports Chop_Tree_Roundtrip Chop_CHK_Text
begin

text \<open>
  Storing and retrieving a stream with the content-hash-key indexer: every block of the
  tree, data and key blocks, is encrypted in the store, and the stream comes back.
\<close>

section \<open>The round trip\<close>

lemma chk_stream_indexing:
  assumes "block_source rb cinv blocks" "2 \<le> c" "10 + c * 1100 \<le> 2 ^ 32 - 1"
  shows "stream_indexing chk_index_handle_class wf_chk chk_encode chk_reread (chk_indexer gc G)
    (chk_fetcher gc G) (generic_db_store ops)
    (\<lambda>iw. chk_ok (\<lambda>s. (db_laws ops mp \<and> db_writable ops) \<and> db_open s) gc cs G algo mode km im iw
       \<and> random_keys gc cs algo)
    (chk_inv (\<lambda>s. (db_laws ops mp \<and> db_writable ops) \<and> db_open s) (\<lambda>s. mp (db s)) gc cs G algo mode km im)
    (chk_fetcher_ok cs algo mode im) (chk_compat gc cs algo mode) (2 ^ 32 - 1) 1100 c rb cinv blocks"
  using assms reliable_db_chk.ridx.reliable_indexing_axioms
    [where ops = ops and mp = mp and gc = gc and cs = cs and G = G and algo = algo and mode = mode and km = km and im = im]
  by (intro stream_indexing.intro tree_writing.intro tree_writing_axioms.intro stream_indexing_axioms.intro) simp_all

text \<open>C37: Storing and retrieving an encrypted file.  A non-empty memory stream, cut by the fixed-size
  chopper and indexed by the tree indexer with content-hash keys on an empty, writable
  database, is indexed with success, even when keys derived from blocks are weak; and unless two
  of the ciphertexts written collide under the hash of the block identifiers, reading the stream
  that the indexer's own fetcher gives for the handle, or for the handle read back from its binary
  form, gives exactly the bytes.\<close>

theorem chk_tree_round_trip:
  assumes "db_laws ops mp" "db_writable ops" "db_open w" "mp (db w) = Map.empty"
    and "chk_ready gc cs G algo mode km im" "random_keys gc cs algo"
    and "chop_chk_block_indexer_open (chop_cipher_open gc algo mode) owns km im = Inr indexer"
    and "chk_indexer_init_fetcher gc indexer = Some fetcher"
    and "3 \<le> ipb" "10 + (ipb - 1) * 1100 < 2 ^ 32" "0 < block_size" "block_size < 2 ^ 32"
    and "data \<noteq> []" "length data \<le> 2 ^ 64"
  shows "\<exists>h c' i' lg w'.
      chop_tree_index_blocks ipb (chop_fixed_chopper_read_block chop_mem_stream_read)
        (chk_indexer gc G) chk_index_handle_class (generic_db_store ops) (generic_db_store ops)
        (chop_fixed_size_chopper_init (chop_mem_stream_open data (length data)) block_size False)
        ((indexer, rng), w) = Some (CHOP_OK, Some h, c', i', w')
    \<and> chop_tree_index_blocks ipb (chop_fixed_chopper_read_block chop_mem_stream_read)
        (logged (chk_indexer gc G)) chk_index_handle_class (generic_db_store ops) (generic_db_store ops)
        (chop_fixed_size_chopper_init (chop_mem_stream_open data (length data)) block_size False)
        (((indexer, rng), []), w) = Some (CHOP_OK, Some h, c', (i', lg), w')
    \<and> (chk_compat gc cs algo mode lg \<longrightarrow>
        (\<forall>h' \<in> {h, chk_reread h}. \<exists>s'. chop_chopper_read_block (read_whole_stream (tree_stream_read
            (chk_fetcher gc G) chk_index_handle_class (generic_db_store ops) (generic_db_store ops) junk))
          (chop_tree_fetch_stream h', fetcher, w') [] = Some ((CHOP_OK, data, length data), s')))"
proof -
  let ?ch = "chop_fixed_size_chopper_init (chop_mem_stream_open data (length data)) block_size False"
  let ?ok = "\<lambda>s. (db_laws ops mp \<and> db_writable ops) \<and> db_open s"
  obtain ch where ch: "chop_cipher_open gc algo mode = Some ch"
    and ind: "indexer = \<lparr>cbi_cipher_handle = Some ch, cbi_owns_cipher_handle = owns,
      cbi_key_hash_method = km, cbi_block_id_hash_method = im\<rparr>"
    using assms(7) by (auto simp: chop_chk_block_indexer_open_def split: if_splits)
  have for_ch: "cipher_for cs algo mode ch" using cipher_for_open [OF _ ch] assms(5) by (simp add: chk_ready_def)
  then have "chop_cipher_copy gc ch = Some ch" using ch by (simp add: chop_cipher_copy_def cipher_for_def)
  then have F: "chk_fetcher_ok cs algo mode im fetcher"
    using assms(8) for_ch by (auto simp: chk_indexer_init_fetcher_def ind chk_fetcher_ok_def)
  have "2 \<le> ipb - 1" "10 + (ipb - 1) * 1100 \<le> 2 ^ 32 - 1" using assms(9,10) by auto
  note idx = chk_stream_indexing [OF mem_chop.fixed.block_source_axioms this, where gc = gc and cs = cs and G = G
      and algo = algo and mode = mode and km = km and im = im and ops = ops and mp = mp]
  note fb = fixed_blocks_of_data [OF assms(11,13)]
  have c: "ms_inv (fc_stream ?ch) \<and> 0 < fc_block_size ?ch"
    using assms(11) by (simp add: chop_fixed_size_chopper_init_def chop_mem_stream_open_def ms_inv_def)
  have ne: "fixed_blocks ms_rest ?ch \<noteq> []" and few: "length (fixed_blocks ms_rest ?ch) \<le> 2 ^ 64"
    using fb assms(14) by auto
  have small: "\<forall>x \<in> set (fixed_blocks ms_rest ?ch). length x \<le> 2 ^ 32 - 1"
    using fb(1,3) assms(12) by fastforce
  have ok: "chk_ok ?ok gc cs G algo mode km im ((indexer, rng), w)"
    using assms for_ch by (simp add: chk_ok_def ind)
  then have J: "chk_ok ?ok gc cs G algo mode km im ((indexer, rng), w) \<and> random_keys gc cs algo"
    using assms(6) by simp
  have "chk_inv ?ok (\<lambda>s. mp (db s)) gc cs G algo mode km im [] ((indexer, rng), w)"
    using ok assms(4) by (simp add: chk_inv_def)
  note round_trip = stream_indexing.index_then_read [OF idx c ne small few J this F, of junk]
  have "ipb - 1 + 1 = ipb" using assms(9) by simp
  from round_trip [unfolded fb(1) concat_chunks [OF assms(11)] this] show ?thesis by blast
qed

section \<open>A file of one byte\<close>

abbreviation sample_chk_handle :: "bytes \<Rightarrow> chk_index_handle" where
  "sample_chk_handle b \<equiv> chk_handle sample_gcry sample_cs sample_md CHOP_CIPHER_AES CHOP_CIPHER_MODE_CBC CHOP_HASH_MD5
     (take 2 (b @ [0, 0])) b"

lemma sample_chk_logged:
  assumes "take 2 (b @ [0, 0]) \<noteq> [0, 0]"
  shows "\<exists>k f d'. chop_block_indexer_index (logged (chk_indexer sample_gcry sample_md)) sample_db b
      (((sample_chk k0 f0, rng), lg), \<lparr>db = d, db_open = True\<rparr>)
    = Some (Inr (sample_chk_handle b), ((sample_chk k f, rng), (sample_chk_handle b, b) # lg), \<lparr>db = d', db_open = True\<rparr>)"
proof -
  note r = sample_chk_index [OF assms, of k0 f0 rng d, unfolded Let_def]
  have "chop_block_indexer_index (chk_indexer sample_gcry sample_md) sample_db b
      ((sample_chk k0 f0, rng), \<lparr>db = d, db_open = True\<rparr>)
    = chk_index_block sample_gcry sample_md sample_db b ((sample_chk k0 f0, rng), \<lparr>db = d, db_open = True\<rparr>)"
    by (simp add: chop_block_indexer_index_def chk_indexer_def)
  then show ?thesis unfolding logged_index_eq r by simp blast
qed

abbreviation sample_chk_key_block :: bytes where
  "sample_chk_key_block \<equiv> key_block_header 1 0 @ chk_encode (sample_chk_handle [7])"

lemma sample_chk_wf:
  assumes "length b < 2 ^ 32"
  shows "wf_chk (sample_chk_handle b)"
proof -
  have "length (sample_md CHOP_HASH_MD5 x) = 16" "chop_hash_size CHOP_HASH_MD5 = 16" for x
    by (auto simp: sample_md_def chop_hash_size_def hash_methods_def)
  moreover have "length (take 2 (b @ [0, 0])) = 2" by simp
  moreover have "gcry_cipher_get_algo_keylen sample_gcry CHOP_CIPHER_AES = 2" by (simp add: sample_gcry_def)
  ultimately show ?thesis using assms by (simp only: wf_chk_def chk_handle_def chk_index_handle.simps) simp
qed

lemma sample_chk_compat:
  "chk_compat sample_gcry sample_cs CHOP_CIPHER_AES CHOP_CIPHER_MODE_CBC
     [(sample_chk_handle sample_chk_key_block, sample_chk_key_block), (sample_chk_handle [7], [7])]"
proof -
  have "chk_id (sample_chk_handle sample_chk_key_block) \<noteq> chk_id (sample_chk_handle [7])"
    by (simp add: chk_id_def chk_handle_def chk_encode_def key_block_header_def KEY_BLOCK_MAGIC_def ascii_def le32_def
        sample_gcry_def sample_cs_def sample_md_def sample_xor_def chk_pad_def chop_hash_size_def hash_methods_def
        numeral_3_eq_3)
  moreover have "length sample_chk_key_block < 2 ^ 32"
    using chk_codec.binary_size_law [OF sample_chk_wf, of "[7]"]
    by (simp add: chk_index_handle_class_def chk_handle_def sample_gcry_def chop_hash_size_def hash_methods_def)
  ultimately show ?thesis by (auto simp: chk_compat_def key_compat_def)
qed

lemma sample_chk_run:
  "\<exists>h c i lg w. chop_tree_index_blocks 3 (chop_fixed_chopper_read_block chop_mem_stream_read)
        (logged (chk_indexer sample_gcry sample_md)) chk_index_handle_class sample_db sample_db
        (chop_fixed_size_chopper_init (chop_mem_stream_open [7] (length ([7] :: bytes))) 1 False)
        (((sample_chk None True, 0), []), \<lparr>db = [], db_open = True\<rparr>)
     = Some (CHOP_OK, h, c, (i, lg), w) \<and> chk_compat sample_gcry sample_cs CHOP_CIPHER_AES CHOP_CIPHER_MODE_CBC lg"
proof -
  have "take 2 ([7] @ [0, 0]) \<noteq> [0, 0 :: byte]" by simp
  from sample_chk_logged [OF this, of None True 0 "[]" "[]"] obtain k f d where i1:
    "chop_block_indexer_index (logged (chk_indexer sample_gcry sample_md)) sample_db [7]
       (((sample_chk None True, 0), []), \<lparr>db = [], db_open = True\<rparr>)
     = Some (Inr (sample_chk_handle [7]), ((sample_chk k f, 0), [(sample_chk_handle [7], [7])]), \<lparr>db = d, db_open = True\<rparr>)"
    by blast
  have "take 2 (sample_chk_key_block @ [0, 0]) \<noteq> [0, 0]"
    by (simp add: key_block_header_def KEY_BLOCK_MAGIC_def ascii_def)
  from sample_chk_logged [OF this, of k f 0 "[(sample_chk_handle [7], [7])]" d] obtain k' f' d' where i2:
    "chop_block_indexer_index (logged (chk_indexer sample_gcry sample_md)) sample_db sample_chk_key_block
       (((sample_chk k f, 0), [(sample_chk_handle [7], [7])]), \<lparr>db = d, db_open = True\<rparr>)
     = Some (Inr (sample_chk_handle sample_chk_key_block), ((sample_chk k' f', 0),
         [(sample_chk_handle sample_chk_key_block, sample_chk_key_block), (sample_chk_handle [7], [7])]),
         \<lparr>db = d', db_open = True\<rparr>)"
    by blast
  have wf: "wf_chk (sample_chk_handle [7])" by (rule sample_chk_wf) simp
  have one: "chop_chopper_read_block rb c b = Some ((CHOP_OK, [7], length ([7] :: bytes)), c')"
    if "chop_chopper_read_block rb c b = Some ((CHOP_OK, [7], 1), c')" for rb and c c' :: "mem_stream fixed_size_chopper" and b
    using that by simp
  note run = one_block_run [OF one [OF sample_read(1)] _ sample_read(2) i1, where hc = chk_index_handle_class]
  have "hc_serialize chk_index_handle_class CHOP_SERIAL_BINARY (sample_chk_handle [7])
      = Some (Inr (chk_encode (sample_chk_handle [7])))"
    using chk_codec.serialize_law [OF wf] .
  from run [OF _ this chk_codec.binary_size_law [OF wf, symmetric] i2] sample_chk_compat show ?thesis by blast
qed

theorem chk_tree_round_trip_witness:
  "\<exists>h c' i' w'.
      chop_tree_index_blocks 3 (chop_fixed_chopper_read_block chop_mem_stream_read)
        (chk_indexer sample_gcry sample_md) chk_index_handle_class sample_db sample_db
        (chop_fixed_size_chopper_init (chop_mem_stream_open [7] (length ([7] :: bytes))) 1 False)
        ((sample_chk None True, 0), \<lparr>db = [], db_open = True\<rparr>) = Some (CHOP_OK, Some h, c', i', w')
    \<and> (\<exists>s'. chop_chopper_read_block (read_whole_stream (tree_stream_read
            (chk_fetcher sample_gcry sample_md) chk_index_handle_class sample_db sample_db sample_junk))
          (chop_tree_fetch_stream h, the (chk_indexer_init_fetcher sample_gcry (sample_chk None True)), w') []
        = Some ((CHOP_OK, [7], length ([7] :: bytes)), s'))"
proof -
  have wr: "db_writable alist_db" by (simp add: db_writable_def alist_db_def)
  have open_chk: "chop_chk_block_indexer_open (chop_cipher_open sample_gcry CHOP_CIPHER_AES CHOP_CIPHER_MODE_CBC) True
      CHOP_HASH_MD5 CHOP_HASH_MD5 = Inr (sample_chk None True)"
    by (simp add: chop_chk_block_indexer_open_def chop_cipher_open_def sample_gcry_def sample_chk_def)
  have fetcher: "chk_indexer_init_fetcher sample_gcry (sample_chk None True)
      = Some (the (chk_indexer_init_fetcher sample_gcry (sample_chk None True)))"
    by (simp add: chk_indexer_init_fetcher_def sample_chk_def)
  from chk_tree_round_trip [OF alist_db_laws wr _ _ sample_chk_ready sample_random_keys open_chk fetcher,
      of "\<lparr>db = [], db_open = True\<rparr>" 3 1 "[7]" 0 sample_junk]
    sample_chk_run show ?thesis by force
qed

end
