(* ===== verification/Chop_Buffers.thy ===== *)
theory Chop_Buffers
  imports Chop_Prelude "HOL-Library.Multiset"
begin

text \<open>
  Growable buffers and their pool (\<^verbatim>\<open>src/src/buffers.c\<close>, \<^verbatim>\<open>include/chop/buffers.h\<close>).  The rest of the
  development takes a buffer for its contents, a list of bytes; here the buffers are pointers
  into a heap, some of them kept in a pool for reuse, and the theorem at the end says that they
  behave as independent lists of bytes.  The allocator is a parameter.  None is a copy outside of
  a block or a loop that does not end.
\<close>

section \<open>The heap\<close>

text \<open>Address 0 is NULL; an allocated block is its contents.\<close>

type_synonym heap = "nat \<rightharpoonup> bytes"

text \<open>The allocator of the C library: the address of a new block, or NULL; for a block that grows also
  the contents of the new part.\<close>

record allocator =
  al_alloc :: "heap \<Rightarrow> nat \<Rightarrow> nat option"
  al_realloc :: "heap \<Rightarrow> nat \<Rightarrow> nat \<Rightarrow> (nat \<times> (nat \<Rightarrow> byte)) option"

definition allocator_laws :: "allocator \<Rightarrow> bool" where
  "allocator_laws al \<longleftrightarrow>
    (\<forall>h n a. al_alloc al h n = Some a \<longrightarrow> a \<noteq> 0 \<and> h a = None)
    \<and> (\<forall>h p n a tail. al_realloc al h p n = Some (a, tail) \<longrightarrow> a \<noteq> 0 \<and> (a = p \<or> h a = None))"

definition chop_calloc :: "allocator \<Rightarrow> heap \<Rightarrow> nat \<Rightarrow> (nat \<times> heap) option" where
  "chop_calloc al h amount = map_option (\<lambda>a. (a, h(a \<mapsto> replicate amount 0))) (al_alloc al h amount)"

definition block_at :: "heap \<Rightarrow> nat \<Rightarrow> bytes" where
  "block_at h a = (case h a of Some b \<Rightarrow> b | None \<Rightarrow> [])"

definition chop_realloc :: "allocator \<Rightarrow> heap \<Rightarrow> nat \<Rightarrow> nat \<Rightarrow> (nat \<times> heap) option" where
  "chop_realloc al h mem new_amount =
    map_option (\<lambda>(a, tail). (a, (h(mem := None))(a \<mapsto>
        take new_amount (block_at h mem) @ map tail [length (block_at h mem)..<new_amount])))
      (al_realloc al h mem new_amount)"

definition chop_free :: "heap \<Rightarrow> nat \<Rightarrow> heap" where
  "chop_free h mem = h(mem := None)"

text \<open>\<^verbatim>\<open>memcpy\<close> to \<open>a + off\<close>, and from \<open>a\<close>.\<close>

definition poke :: "heap \<Rightarrow> nat \<Rightarrow> nat \<Rightarrow> bytes \<Rightarrow> heap option" where
  "poke h a off bs =
    (if bs = [] then Some h
     else if off + length bs \<le> length (block_at h a)
     then Some (h(a \<mapsto> take off (block_at h a) @ bs @ drop (off + length bs) (block_at h a)))
     else None)"

definition peek :: "heap \<Rightarrow> nat \<Rightarrow> nat \<Rightarrow> bytes option" where
  "peek h a n = (if n \<le> length (block_at h a) then Some (take n (block_at h a)) else None)"

section \<open>Buffers and their pool\<close>

record chop_buffer =
  buf_addr :: nat
  buf_real_size :: nat
  buf_size :: nat

definition BUFFER_POOL_MAX_SIZE :: nat where "BUFFER_POOL_MAX_SIZE = 20"

definition BUFFER_POOL_MAX_AVAILABLE :: nat where "BUFFER_POOL_MAX_AVAILABLE = 8192"

record buffer_world =
  bw_heap :: heap
  buffer_pool :: "chop_buffer list"
  buffer_pool_available :: nat

definition find_buffer_in_pool :: "nat \<Rightarrow> buffer_world \<Rightarrow> (chop_buffer \<times> buffer_world) option" where
  "find_buffer_in_pool sz w =
    (let pool = buffer_pool w;
         buf = length (takeWhile (\<lambda>b. buf_real_size b < sz) pool)
     in if buf < length pool
        then Some (pool ! buf, w\<lparr>buffer_pool := butlast (pool[buf := last pool]),
                                 buffer_pool_available := buffer_pool_available w - buf_real_size (pool ! buf)\<rparr>)
        else None)"

definition chop_buffer_init ::
  "allocator \<Rightarrow> nat \<Rightarrow> buffer_world \<Rightarrow> chop_error \<times> chop_buffer option \<times> buffer_world" where
  "chop_buffer_init al sz w =
    (case find_buffer_in_pool sz w of
       Some (b, w') \<Rightarrow> (CHOP_OK, Some (b\<lparr>buf_size := 0\<rparr>), w')
     | None \<Rightarrow>
        (case chop_calloc al (bw_heap w) sz of
           None \<Rightarrow> (ENOMEM, None, w)
         | Some (a, h) \<Rightarrow> (CHOP_OK, Some \<lparr>buf_addr = a, buf_real_size = sz, buf_size = 0\<rparr>, w\<lparr>bw_heap := h\<rparr>)))"

definition chop_buffer_return :: "chop_buffer \<Rightarrow> buffer_world \<Rightarrow> chop_buffer \<times> buffer_world" where
  "chop_buffer_return b w =
    (\<lparr>buf_addr = 0, buf_real_size = 0, buf_size = 0\<rparr>,
     if length (buffer_pool w) < BUFFER_POOL_MAX_SIZE
        \<and> buffer_pool_available w + buf_real_size b < BUFFER_POOL_MAX_AVAILABLE
     then w\<lparr>buffer_pool := buffer_pool w @ [b],
            buffer_pool_available := buffer_pool_available w + buf_real_size b\<rparr>
     else w\<lparr>bw_heap := chop_free (bw_heap w) (buf_addr b)\<rparr>)"

text \<open>Doubling a \<^verbatim>\<open>size_t\<close>: the shift wraps.\<close>

partial_function (option) grow_size :: "nat \<Rightarrow> nat \<Rightarrow> nat option" where
  "grow_size new_size sz =
    (if new_size < sz then grow_size (2 * new_size mod 2 ^ 64) sz else Some new_size)"

declare grow_size.simps [code]

definition chop_buffer_grow ::
  "allocator \<Rightarrow> chop_buffer \<Rightarrow> nat \<Rightarrow> buffer_world \<Rightarrow> (chop_error \<times> chop_buffer \<times> buffer_world) option" where
  "chop_buffer_grow al b sz w =
    (case find_buffer_in_pool sz w of
       Some (new, w1) \<Rightarrow>
         Option.bind (peek (bw_heap w1) (buf_addr b) (buf_size b)) (\<lambda>bs.
           Option.bind (poke (bw_heap w1) (buf_addr new) 0 bs) (\<lambda>h.
             Some (CHOP_OK, new\<lparr>buf_size := buf_size b\<rparr>, snd (chop_buffer_return b (w1\<lparr>bw_heap := h\<rparr>)))))
     | None \<Rightarrow>
         Option.bind (grow_size (if buf_real_size b = 0 then 1 else buf_real_size b) sz) (\<lambda>new_size.
           (case chop_realloc al (bw_heap w) (buf_addr b) new_size of
              None \<Rightarrow> Some (ENOMEM, b, w)
            | Some (a, h) \<Rightarrow> Some (CHOP_OK, b\<lparr>buf_addr := a, buf_real_size := new_size\<rparr>, w\<lparr>bw_heap := h\<rparr>))))"

definition chop_buffer_push ::
  "allocator \<Rightarrow> chop_buffer \<Rightarrow> bytes \<Rightarrow> buffer_world \<Rightarrow> (chop_error \<times> chop_buffer \<times> buffer_world) option" where
  "chop_buffer_push al b bs w =
    Option.bind (if buf_real_size b < length bs then chop_buffer_grow al b (length bs) w else Some (CHOP_OK, b, w))
      (\<lambda>(err, b1, w1).
        if err \<noteq> CHOP_OK then Some (err, b1, w1)
        else Option.bind (poke (bw_heap w1) (buf_addr b1) 0 bs) (\<lambda>h.
          Some (CHOP_OK, b1\<lparr>buf_size := length bs\<rparr>, w1\<lparr>bw_heap := h\<rparr>)))"

definition chop_buffer_append ::
  "allocator \<Rightarrow> chop_buffer \<Rightarrow> bytes \<Rightarrow> buffer_world \<Rightarrow> (chop_error \<times> chop_buffer \<times> buffer_world) option" where
  "chop_buffer_append al b bs w =
    (let new_size = (buf_size b + length bs) mod 2 ^ 64 in
     Option.bind (if buf_real_size b < new_size then chop_buffer_grow al b new_size w else Some (CHOP_OK, b, w))
       (\<lambda>(err, b1, w1).
         if err \<noteq> CHOP_OK then Some (err, b1, w1)
         else Option.bind (poke (bw_heap w1) (buf_addr b1) (buf_size b1) bs) (\<lambda>h.
           Some (CHOP_OK, b1\<lparr>buf_size := new_size\<rparr>, w1\<lparr>bw_heap := h\<rparr>))))"

definition chop_buffer_size :: "chop_buffer \<Rightarrow> nat" where
  "chop_buffer_size b = buf_size b"

definition chop_buffer_clear :: "chop_buffer \<Rightarrow> chop_buffer" where
  "chop_buffer_clear b = b\<lparr>buf_size := 0\<rparr>"

definition chop_buffer_content :: "heap \<Rightarrow> chop_buffer \<Rightarrow> bytes" where
  "chop_buffer_content h b = take (buf_size b) (block_at h (buf_addr b))"

section \<open>Ownership\<close>

definition buf_ok :: "heap \<Rightarrow> chop_buffer \<Rightarrow> bool" where
  "buf_ok h b \<longleftrightarrow> length (block_at h (buf_addr b)) = buf_real_size b \<and> buf_size b \<le> buf_real_size b
     \<and> (buf_addr b = 0 \<or> h (buf_addr b) \<noteq> None)"

text \<open>Every block belongs to exactly one of the buffers \<open>M\<close>, in use or in the pool.\<close>

definition heap_inv :: "heap \<Rightarrow> chop_buffer multiset \<Rightarrow> bool" where
  "heap_inv h M \<longleftrightarrow> h 0 = None \<and> (\<forall>b \<in># M. buf_ok h b)
     \<and> (\<forall>a. a \<noteq> 0 \<longrightarrow> count (image_mset buf_addr M) a = (if h a = None then 0 else 1))"

definition pool_inv :: "buffer_world \<Rightarrow> bool" where
  "pool_inv w \<longleftrightarrow> buffer_pool_available w = sum_list (map buf_real_size (buffer_pool w))
     \<and> buffer_pool_available w < BUFFER_POOL_MAX_AVAILABLE \<and> length (buffer_pool w) \<le> BUFFER_POOL_MAX_SIZE"

definition world_inv :: "buffer_world \<Rightarrow> chop_buffer multiset \<Rightarrow> bool" where
  "world_inv w live \<longleftrightarrow> heap_inv (bw_heap w) (live + mset (buffer_pool w)) \<and> pool_inv w"

lemma block_at_0 [simp]: "heap_inv h M \<Longrightarrow> block_at h 0 = []"
  by (simp add: heap_inv_def block_at_def)

lemma heap_inv_ok: "heap_inv h M \<Longrightarrow> b \<in># M \<Longrightarrow> buf_ok h b"
  by (simp add: heap_inv_def)

lemma heap_inv_count:
  "heap_inv h M \<Longrightarrow> a \<noteq> 0 \<Longrightarrow> count (image_mset buf_addr M) a = (if h a = None then 0 else 1)"
  unfolding heap_inv_def by blast

text \<open>Two different buffers never share a block.\<close>

lemma heap_inv_other:
  assumes "heap_inv h (add_mset b M)" "c \<in># M" "buf_addr b \<noteq> 0"
  shows "buf_addr c \<noteq> buf_addr b"
proof
  assume "buf_addr c = buf_addr b"
  with assms(2) have "0 < count (image_mset buf_addr M) (buf_addr b)"
    by (metis count_greater_zero_iff image_eqI set_image_mset)
  moreover have "count (image_mset buf_addr (add_mset b M)) (buf_addr b) \<le> 1"
    using heap_inv_count [OF assms(1,3)] by (simp split: if_splits)
  ultimately show False by (simp del: count_greater_zero_iff)
qed

lemma block_at_update [simp]:
  "block_at (h(a \<mapsto> blk)) a' = (if a' = a then blk else block_at h a')"
  "block_at (h(a := None)) a' = (if a' = a then [] else block_at h a')"
  by (simp_all add: block_at_def)

text \<open>What the others see.\<close>

definition same_contents :: "heap \<Rightarrow> heap \<Rightarrow> chop_buffer multiset \<Rightarrow> bool" where
  "same_contents h h' M \<longleftrightarrow> (\<forall>c \<in># M. chop_buffer_content h' c = chop_buffer_content h c)"

lemma same_contents_refl [simp]: "same_contents h h M"
  by (simp add: same_contents_def)

lemma same_contents_trans: "same_contents h h' M \<Longrightarrow> same_contents h' h'' M \<Longrightarrow> same_contents h h'' M"
  by (simp add: same_contents_def)

lemma same_contents_sub: "same_contents h h' (M + N) \<Longrightarrow> same_contents h h' M"
  by (simp add: same_contents_def)

text \<open>A buffer gets another block, or its block other contents.\<close>

lemma heap_inv_replace:
  assumes inv: "heap_inv h (add_mset b M)" and a: "buf_addr b' = buf_addr b \<or> h (buf_addr b') = None" "buf_addr b' \<noteq> 0"
    and blk: "length blk = buf_real_size b'" "buf_size b' \<le> buf_real_size b'"
    and h': "h' = (h(buf_addr b := None))(buf_addr b' \<mapsto> blk)"
  shows "heap_inv h' (add_mset b' M)" "same_contents h h' M"
proof -
  have others: "buf_addr c \<noteq> buf_addr b' \<and> (buf_addr c \<noteq> buf_addr b \<or> buf_addr c = 0)" if c: "c \<in># M" for c
  proof -
    have "buf_ok h c" using heap_inv_ok [OF inv] c by simp
    then have "buf_addr c = 0 \<or> h (buf_addr c) \<noteq> None" by (simp add: buf_ok_def)
    moreover have "buf_addr b \<noteq> 0 \<Longrightarrow> buf_addr c \<noteq> buf_addr b" using heap_inv_other [OF inv c] .
    ultimately show ?thesis using a by metis
  qed
  have blocks: "block_at h' (buf_addr c) = block_at h (buf_addr c)" if "c \<in># M" for c
    using others [OF that] inv by (auto simp: h' block_at_def heap_inv_def)
  then show "same_contents h h' M" by (simp add: same_contents_def chop_buffer_content_def)
  have "buf_ok h' c" if "c \<in># M" for c
    using heap_inv_ok [OF inv, of c] that others [OF that] blocks [OF that] by (auto simp: buf_ok_def h')
  moreover have "buf_ok h' b'" using blk by (simp add: buf_ok_def h')
  moreover have "count (image_mset buf_addr (add_mset b' M)) x = (if h' x = None then 0 else 1)" if x: "x \<noteq> 0" for x
  proof -
    have "count (image_mset buf_addr (add_mset b M)) x = (if h x = None then 0 else 1)"
      using heap_inv_count [OF inv x] .
    moreover have "count (image_mset buf_addr M) (buf_addr b') = 0"
      using others by (fastforce simp: count_eq_zero_iff)
    moreover have "count (image_mset buf_addr M) (buf_addr b) = 0" if "buf_addr b \<noteq> 0"
      using others that by (fastforce simp: count_eq_zero_iff)
    ultimately show ?thesis using x by (auto simp: h' split: if_splits)
  qed
  ultimately show "heap_inv h' (add_mset b' M)"
    using inv a(2) by (auto simp: heap_inv_def h')
qed

lemma heap_inv_free:
  assumes inv: "heap_inv h (add_mset b M)"
  shows "heap_inv (h(buf_addr b := None)) M" "same_contents h (h(buf_addr b := None)) M"
proof -
  let ?h = "h(buf_addr b := None)"
  have others: "buf_addr c \<noteq> buf_addr b \<or> buf_addr c = 0" if c: "c \<in># M" for c
    using heap_inv_other [OF inv c] by metis
  have blocks: "block_at ?h (buf_addr c) = block_at h (buf_addr c)" if "c \<in># M" for c
    using others [OF that] inv by (auto simp: block_at_def heap_inv_def)
  then show "same_contents h ?h M" by (simp add: same_contents_def chop_buffer_content_def)
  have "buf_ok ?h c" if "c \<in># M" for c
    using heap_inv_ok [OF inv, of c] that others [OF that] blocks [OF that] by (auto simp: buf_ok_def)
  moreover have "count (image_mset buf_addr M) x = (if ?h x = None then 0 else 1)" if x: "x \<noteq> 0" for x
  proof -
    have "count (image_mset buf_addr (add_mset b M)) x = (if h x = None then 0 else 1)"
      using heap_inv_count [OF inv x] .
    then show ?thesis by (auto split: if_splits)
  qed
  ultimately show "heap_inv ?h M" using inv by (auto simp: heap_inv_def)
qed

lemma heap_inv_null: "heap_inv h M \<Longrightarrow> heap_inv h (add_mset \<lparr>buf_addr = 0, buf_real_size = 0, buf_size = 0\<rparr> M)"
  by (auto simp: heap_inv_def buf_ok_def block_at_def)

lemma heap_inv_resize:
  assumes "heap_inv h (add_mset b M)" "n \<le> buf_real_size b"
  shows "heap_inv h (add_mset (b\<lparr>buf_size := n\<rparr>) M)"
  using assms by (auto simp: heap_inv_def buf_ok_def)

section \<open>The pool\<close>

lemma mset_remove_swap:
  assumes "n < length xs"
  shows "mset xs = add_mset (xs ! n) (mset (butlast (xs[n := last xs])))"
proof -
  have ne: "xs \<noteq> []" using assms by auto
  then have "last (xs[n := last xs]) = last xs"
    by (cases "n = length xs - 1") (simp_all add: last_conv_nth nth_list_update)
  then have "xs[n := last xs] = butlast (xs[n := last xs]) @ [last xs]"
    using ne by (metis append_butlast_last_id list_update_nonempty)
  then have "mset (xs[n := last xs]) = add_mset (last xs) (mset (butlast (xs[n := last xs])))"
    by (metis mset.simps mset_append union_mset_add_mset_right add.right_neutral)
  then have "mset (butlast (xs[n := last xs])) = mset xs - {#xs ! n#}" using assms by (simp add: mset_update)
  with assms show ?thesis by simp
qed

lemma find_buffer_found:
  assumes "find_buffer_in_pool sz w = Some (b, w')" "pool_inv w"
  shows "bw_heap w' = bw_heap w" "mset (buffer_pool w) = add_mset b (mset (buffer_pool w'))"
    "sz \<le> buf_real_size b" "pool_inv w'"
proof -
  define n where "n = length (takeWhile (\<lambda>b. buf_real_size b < sz) (buffer_pool w))"
  have n: "n < length (buffer_pool w)" "b = buffer_pool w ! n"
    "w' = w\<lparr>buffer_pool := butlast ((buffer_pool w)[n := last (buffer_pool w)]),
            buffer_pool_available := buffer_pool_available w - buf_real_size b\<rparr>"
    using assms(1) by (auto simp: find_buffer_in_pool_def Let_def n_def [symmetric] split: if_splits)
  then show "bw_heap w' = bw_heap w" by simp
  show m: "mset (buffer_pool w) = add_mset b (mset (buffer_pool w'))"
    using mset_remove_swap [OF n(1)] n(2,3) by simp
  show "sz \<le> buf_real_size b"
    using nth_length_takeWhile [of "\<lambda>b. buf_real_size b < sz" "buffer_pool w"] n(1,2) by (simp add: n_def)
  have "sum_list (map buf_real_size (buffer_pool w)) = buf_real_size b + sum_list (map buf_real_size (buffer_pool w'))"
    using arg_cong [OF m, of "\<lambda>m. sum_mset (image_mset buf_real_size m)"] by (simp flip: sum_mset_sum_list mset_map)
  with assms(2) n(3) show "pool_inv w'" by (auto simp: pool_inv_def)
qed

lemma return_ok:
  assumes "world_inv w (add_mset b L)" "chop_buffer_return b w = (b', w')"
  shows "world_inv w' L" "same_contents (bw_heap w) (bw_heap w') L" "world_inv w' (add_mset b' L)"
    "chop_buffer_content (bw_heap w') b' = []"
proof -
  have inv: "heap_inv (bw_heap w) (add_mset b (L + mset (buffer_pool w)))" "pool_inv w"
    using assms(1) by (simp_all add: world_inv_def)
  show w': "world_inv w' L" and "same_contents (bw_heap w) (bw_heap w') L"
    using assms(2) inv heap_inv_free [OF inv(1)]
    by (auto simp: chop_buffer_return_def world_inv_def pool_inv_def chop_free_def dest: same_contents_sub
        split: if_splits)
  have b': "b' = \<lparr>buf_addr = 0, buf_real_size = 0, buf_size = 0\<rparr>"
    using assms(2) by (simp add: chop_buffer_return_def)
  with w' heap_inv_null show "world_inv w' (add_mset b' L)" by (simp add: world_inv_def)
  show "chop_buffer_content (bw_heap w') b' = []" by (simp add: b' chop_buffer_content_def)
qed

section \<open>Copying and growing\<close>

lemma poke_ok:
  assumes "heap_inv h (add_mset b M)" "off + length bs \<le> buf_real_size b"
  obtains h' where "poke h (buf_addr b) off bs = Some h'" "heap_inv h' (add_mset b M)" "same_contents h h' M"
    "block_at h' (buf_addr b) = take off (block_at h (buf_addr b)) @ bs @ drop (off + length bs) (block_at h (buf_addr b))"
proof (cases "bs = []")
  case True
  then show thesis using that [of h] assms(1) by (simp add: poke_def)
next
  case False
  have ok: "buf_ok h b" using heap_inv_ok [OF assms(1)] by simp
  then have len: "length (block_at h (buf_addr b)) = buf_real_size b" "buf_size b \<le> buf_real_size b"
    by (simp_all add: buf_ok_def)
  have "buf_addr b \<noteq> 0"
  proof
    assume "buf_addr b = 0"
    then have "buf_real_size b = 0" using len(1) block_at_0 [OF assms(1)] by simp
    with False assms(2) show False by simp
  qed
  then show thesis
    using that heap_inv_replace [OF assms(1) _ _ _ len(2) refl] len assms(2) False
    by (simp add: poke_def)
qed

definition small_size :: nat where "small_size = 2 ^ 63"

lemma grow_size_ge:
  assumes "grow_size n sz = Some m"
  shows "sz \<le> m"
  using _ assms
  by (rule grow_size.raw_induct [where P = "\<lambda>n sz m. sz \<le> m"]) (auto split: if_splits)

lemma grow_size_returns:
  assumes "0 < n" "sz \<le> small_size"
  shows "\<exists>m. grow_size n sz = Some m"
  using assms(1)
proof (induction "sz - n" arbitrary: n rule: less_induct)
  case less
  show ?case
  proof (cases "n < sz")
    case True
    then have "2 * n mod 2 ^ 64 = 2 * n" using assms(2) by (simp add: small_size_def)
    with less.hyps [of "2 * n"] less.prems True show ?thesis by (subst grow_size.simps) auto
  qed (subst grow_size.simps, simp)
qed

lemma grow_ok:
  assumes al: "allocator_laws al" and inv: "world_inv w (add_mset b L)" and big: "buf_real_size b < sz"
    and g: "chop_buffer_grow al b sz w = Some (err, b', w')"
  shows "world_inv w' (add_mset b' L)" "same_contents (bw_heap w) (bw_heap w') L" "buf_size b' = buf_size b"
    "chop_buffer_content (bw_heap w') b' = chop_buffer_content (bw_heap w) b"
    "err = CHOP_OK \<and> sz \<le> buf_real_size b' \<or> err = ENOMEM"
proof -
  have hi: "heap_inv (bw_heap w) (add_mset b (L + mset (buffer_pool w)))" and pool: "pool_inv w"
    using inv by (simp_all add: world_inv_def)
  have ok: "buf_ok (bw_heap w) b" using heap_inv_ok [OF hi] by simp
  have "world_inv w' (add_mset b' L) \<and> same_contents (bw_heap w) (bw_heap w') L \<and> buf_size b' = buf_size b
    \<and> chop_buffer_content (bw_heap w') b' = chop_buffer_content (bw_heap w) b
    \<and> (err = CHOP_OK \<and> sz \<le> buf_real_size b' \<or> err = ENOMEM)"
  proof (cases "find_buffer_in_pool sz w")
    case (Some x)
    obtain new w1 where x: "find_buffer_in_pool sz w = Some (new, w1)" using Some by (cases x) auto
    note f = find_buffer_found [OF x pool]
    let ?bs = "take (buf_size b) (block_at (bw_heap w) (buf_addr b))"
    have hi2: "heap_inv (bw_heap w) (add_mset new (add_mset b (L + mset (buffer_pool w1))))"
      using hi f(2) by (simp add: add_mset_commute)
    have "0 + length ?bs \<le> buf_real_size new" using ok f(3) big by (simp add: buf_ok_def)
    from poke_ok [OF hi2 this] obtain h where h: "poke (bw_heap w) (buf_addr new) 0 ?bs = Some h"
      "heap_inv h (add_mset new (add_mset b (L + mset (buffer_pool w1))))"
      "same_contents (bw_heap w) h (add_mset b (L + mset (buffer_pool w1)))"
      "block_at h (buf_addr new) = ?bs @ drop (length ?bs) (block_at (bw_heap w) (buf_addr new))"
      by auto
    let ?new = "new\<lparr>buf_size := buf_size b\<rparr>"
    have "buf_size b \<le> buf_real_size new" using ok f(3) big by (simp add: buf_ok_def)
    from heap_inv_resize [OF h(2) this] have w2: "world_inv (w1\<lparr>bw_heap := h\<rparr>) (add_mset b (add_mset ?new L))"
      using f(4) by (simp add: world_inv_def add_mset_commute pool_inv_def)
    obtain nb w3 where r: "chop_buffer_return b (w1\<lparr>bw_heap := h\<rparr>) = (nb, w3)" by (metis prod.exhaust)
    note r' = return_ok [OF w2 r]
    have "peek (bw_heap w1) (buf_addr b) (buf_size b) = Some ?bs" using ok f(1) by (simp add: peek_def buf_ok_def)
    then have res: "err = CHOP_OK" "b' = ?new" "w' = w3" using g x h(1) f(1) r by (simp_all add: chop_buffer_grow_def)
    have "chop_buffer_content h ?new = ?bs" using h(4) ok by (simp add: chop_buffer_content_def buf_ok_def)
    with r'(2) have "chop_buffer_content (bw_heap w3) ?new = chop_buffer_content (bw_heap w) b"
      by (simp add: same_contents_def) (simp add: chop_buffer_content_def)
    moreover have "same_contents (bw_heap w) (bw_heap w3) L"
      using h(3) r'(2) by (simp add: same_contents_def)
    ultimately show ?thesis using res r'(1) f(3) by simp
  next
    case None
    then obtain n where n: "grow_size (if buf_real_size b = 0 then 1 else buf_real_size b) sz = Some n"
      using g by (auto simp: chop_buffer_grow_def bind_eq_Some_conv)
    note ge = grow_size_ge [OF n]
    show ?thesis
    proof (cases "al_realloc al (bw_heap w) (buf_addr b) n")
      case fail: None
      then show ?thesis using g None n inv by (simp add: chop_buffer_grow_def chop_realloc_def)
    next
      case (Some y)
      obtain a tail where y: "y = (a, tail)" by (cases y)
      let ?b = "b\<lparr>buf_addr := a, buf_real_size := n\<rparr>"
      let ?blk = "take n (block_at (bw_heap w) (buf_addr b)) @ map tail [length (block_at (bw_heap w) (buf_addr b))..<n]"
      have res: "err = CHOP_OK" "b' = ?b"
        "w' = w\<lparr>bw_heap := ((bw_heap w)(buf_addr b := None))(a \<mapsto> ?blk)\<rparr>"
        using g None n Some y by (simp_all add: chop_buffer_grow_def chop_realloc_def)
      note a2 = al [unfolded allocator_laws_def, THEN conjunct2, THEN spec, THEN spec, THEN spec, THEN spec, THEN spec,
          THEN mp, OF Some [unfolded y]]
      have a: "a \<noteq> 0" "a = buf_addr b \<or> bw_heap w a = None"
        by (rule conjunct1 [OF a2]) (rule conjunct2 [OF a2])
      have len: "length ?blk = n" using ok ge big by (simp add: buf_ok_def)
      have "heap_inv (bw_heap w') (add_mset ?b (L + mset (buffer_pool w)))"
        "same_contents (bw_heap w) (bw_heap w') (L + mset (buffer_pool w))"
        using heap_inv_replace [OF hi, where b' = ?b and blk = ?blk and h' = "bw_heap w'"] a len res(3) ok ge big
        by (simp_all add: buf_ok_def)
      moreover have "chop_buffer_content (bw_heap w') ?b = chop_buffer_content (bw_heap w) b"
        using ok ge big by (simp add: res(3) chop_buffer_content_def buf_ok_def)
      ultimately show ?thesis using res ge pool by (auto simp: world_inv_def pool_inv_def dest: same_contents_sub)
    qed
  qed
  then show "world_inv w' (add_mset b' L)" "same_contents (bw_heap w) (bw_heap w') L" "buf_size b' = buf_size b"
    "chop_buffer_content (bw_heap w') b' = chop_buffer_content (bw_heap w) b"
    "err = CHOP_OK \<and> sz \<le> buf_real_size b' \<or> err = ENOMEM" by blast+
qed

lemma grow_returns:
  assumes "world_inv w (add_mset b L)" "buf_real_size b < sz" "sz \<le> small_size"
  shows "\<exists>r. chop_buffer_grow al b sz w = Some r"
proof (cases "find_buffer_in_pool sz w")
  case None
  then show ?thesis
    using grow_size_returns [OF _ assms(3), of "if buf_real_size b = 0 then 1 else buf_real_size b"]
    by (auto simp: chop_buffer_grow_def split: option.splits)
next
  case (Some x)
  obtain new w1 where x: "find_buffer_in_pool sz w = Some (new, w1)" using Some by (cases x) auto
  have hi: "heap_inv (bw_heap w) (add_mset b (L + mset (buffer_pool w)))" and pool: "pool_inv w"
    using assms(1) by (simp_all add: world_inv_def)
  note f = find_buffer_found [OF x pool]
  have ok: "buf_ok (bw_heap w) b" using heap_inv_ok [OF hi] by simp
  let ?bs = "take (buf_size b) (block_at (bw_heap w) (buf_addr b))"
  have hi2: "heap_inv (bw_heap w) (add_mset new (add_mset b (L + mset (buffer_pool w1))))"
    using hi f(2) by (simp add: add_mset_commute)
  have "0 + length ?bs \<le> buf_real_size new" using ok f(3) assms(2) by (simp add: buf_ok_def)
  from poke_ok [OF hi2 this] obtain h where "poke (bw_heap w) (buf_addr new) 0 ?bs = Some h" .
  with x ok f(1) show ?thesis by (simp add: chop_buffer_grow_def peek_def buf_ok_def)
qed

section \<open>Pushing and appending\<close>

lemma fill_ok:
  assumes inv: "world_inv w (add_mset b L)" and fits: "off + length bs \<le> buf_real_size b" "off \<le> buf_size b"
  obtains h where "poke (bw_heap w) (buf_addr b) off bs = Some h"
    "world_inv (w\<lparr>bw_heap := h\<rparr>) (add_mset (b\<lparr>buf_size := off + length bs\<rparr>) L)" "same_contents (bw_heap w) h L"
    "chop_buffer_content h (b\<lparr>buf_size := off + length bs\<rparr>)
       = take off (chop_buffer_content (bw_heap w) b) @ bs"
proof -
  have hi: "heap_inv (bw_heap w) (add_mset b (L + mset (buffer_pool w)))" "pool_inv w"
    using inv by (simp_all add: world_inv_def)
  have ok: "buf_ok (bw_heap w) b" using heap_inv_ok [OF hi(1)] by simp
  from poke_ok [OF hi(1) fits(1)] obtain h where h: "poke (bw_heap w) (buf_addr b) off bs = Some h"
    "heap_inv h (add_mset b (L + mset (buffer_pool w)))" "same_contents (bw_heap w) h (L + mset (buffer_pool w))"
    "block_at h (buf_addr b) = take off (block_at (bw_heap w) (buf_addr b)) @ bs
       @ drop (off + length bs) (block_at (bw_heap w) (buf_addr b))" .
  have "world_inv (w\<lparr>bw_heap := h\<rparr>) (add_mset (b\<lparr>buf_size := off + length bs\<rparr>) L)"
    using heap_inv_resize [OF h(2) fits(1)] hi(2) by (simp add: world_inv_def pool_inv_def)
  moreover have "chop_buffer_content h (b\<lparr>buf_size := off + length bs\<rparr>)
       = take off (chop_buffer_content (bw_heap w) b) @ bs"
    using h(4) ok fits by (simp add: chop_buffer_content_def buf_ok_def)
  ultimately show thesis using that h(1,3) by (blast dest: same_contents_sub)
qed

definition store_ok where
  "store_ok w b L new r \<longleftrightarrow> (case r of (err, b', w') \<Rightarrow>
     world_inv w' (add_mset b' L) \<and> same_contents (bw_heap w) (bw_heap w') L
     \<and> (err = CHOP_OK \<and> chop_buffer_content (bw_heap w') b' = new
        \<or> err = ENOMEM \<and> chop_buffer_content (bw_heap w') b' = chop_buffer_content (bw_heap w) b))"

text \<open>Growing where that is needed, then copying to offset \<open>off\<close>: what pushing and appending have in
  common.\<close>

lemma grow_and_fill:
  assumes al: "allocator_laws al" and inv: "world_inv w (add_mset b L)"
    and n: "n = off + length bs" "n \<le> small_size" "off \<le> buf_size b"
  shows "\<exists>r. Option.bind (if buf_real_size b < n then chop_buffer_grow al b n w else Some (CHOP_OK, b, w))
      (\<lambda>(err, b1, w1). if err \<noteq> CHOP_OK then Some (err, b1, w1)
         else Option.bind (poke (bw_heap w1) (buf_addr b1) off bs) (\<lambda>h.
           Some (CHOP_OK, b1\<lparr>buf_size := n\<rparr>, w1\<lparr>bw_heap := h\<rparr>))) = Some r
    \<and> store_ok w b L (take off (chop_buffer_content (bw_heap w) b) @ bs) r"
proof -
  obtain err b1 w1 where g: "(if buf_real_size b < n then chop_buffer_grow al b n w else Some (CHOP_OK, b, w))
      = Some (err, b1, w1)"
    using grow_returns [OF inv _ n(2), of al] by (cases "buf_real_size b < n") auto
  have w1: "world_inv w1 (add_mset b1 L)" "same_contents (bw_heap w) (bw_heap w1) L" "buf_size b1 = buf_size b"
    "chop_buffer_content (bw_heap w1) b1 = chop_buffer_content (bw_heap w) b"
    "err = CHOP_OK \<and> n \<le> buf_real_size b1 \<or> err = ENOMEM"
    using grow_ok [OF al inv, of n err b1 w1] g inv by (auto split: if_splits)
  show ?thesis
  proof (cases "err = CHOP_OK")
    case False
    with g w1 show ?thesis by (simp add: store_ok_def)
  next
    case True
    with w1(5) n(1) have fits: "off + length bs \<le> buf_real_size b1" by simp
    have off: "off \<le> buf_size b1" using n(3) w1(3) by simp
    from fill_ok [OF w1(1) fits off] obtain h where "poke (bw_heap w1) (buf_addr b1) off bs = Some h"
      "world_inv (w1\<lparr>bw_heap := h\<rparr>) (add_mset (b1\<lparr>buf_size := off + length bs\<rparr>) L)" "same_contents (bw_heap w1) h L"
      "chop_buffer_content h (b1\<lparr>buf_size := off + length bs\<rparr>)
         = take off (chop_buffer_content (bw_heap w1) b1) @ bs" .
    with g True w1(2,4) n(1) show ?thesis by (auto simp: store_ok_def intro: same_contents_trans)
  qed
qed

lemma buffer_push_ok:
  assumes "allocator_laws al" "world_inv w (add_mset b L)" "length bs \<le> small_size"
  shows "\<exists>r. chop_buffer_push al b bs w = Some r \<and> store_ok w b L bs r"
  using grow_and_fill [OF assms(1,2), of "length bs" 0 bs] assms(3) by (simp add: chop_buffer_push_def)

lemma buffer_append_ok:
  assumes "allocator_laws al" "world_inv w (add_mset b L)"
    and "length (chop_buffer_content (bw_heap w) b @ bs) \<le> small_size"
  shows "\<exists>r. chop_buffer_append al b bs w = Some r
    \<and> store_ok w b L (chop_buffer_content (bw_heap w) b @ bs) r"
proof -
  have "buf_ok (bw_heap w) b"
    using heap_inv_ok [of "bw_heap w" "add_mset b (L + mset (buffer_pool w))" b] assms(2) by (simp add: world_inv_def)
  then have len: "length (chop_buffer_content (bw_heap w) b) = buf_size b"
    by (simp add: chop_buffer_content_def buf_ok_def)
  with assms(3) have small: "buf_size b + length bs \<le> small_size" by simp
  then have "(buf_size b + length bs) mod 2 ^ 64 = buf_size b + length bs" by (simp add: small_size_def)
  moreover have "take (buf_size b) (chop_buffer_content (bw_heap w) b) = chop_buffer_content (bw_heap w) b"
    using len by simp
  moreover have "chop_buffer_append al b bs w =
      Option.bind (if buf_real_size b < buf_size b + length bs then chop_buffer_grow al b (buf_size b + length bs) w
          else Some (CHOP_OK, b, w))
      (\<lambda>(err, b1, w1). if err \<noteq> CHOP_OK then Some (err, b1, w1)
         else Option.bind (poke (bw_heap w1) (buf_addr b1) (buf_size b) bs) (\<lambda>h.
           Some (CHOP_OK, b1\<lparr>buf_size := buf_size b + length bs\<rparr>, w1\<lparr>bw_heap := h\<rparr>)))"
  proof (cases "if buf_real_size b < buf_size b + length bs then chop_buffer_grow al b (buf_size b + length bs) w
      else Some (CHOP_OK, b, w)")
    case (Some r)
    obtain err b1 w1 where r: "r = (err, b1, w1)" by (cases r)
    have "buf_size b1 = buf_size b"
      using Some r grow_ok(3) [OF assms(1,2)] by (auto split: if_splits)
    with calculation(1) Some r show ?thesis by (simp only: chop_buffer_append_def Let_def bind.simps prod.case)
  qed (simp only: chop_buffer_append_def Let_def bind.simps calculation(1))
  ultimately show ?thesis using grow_and_fill [OF assms(1,2) refl small] by simp
qed

section \<open>Programs over buffers\<close>

text \<open>A program uses its buffers by number; returning a buffer leaves the empty buffer of address 0.\<close>

datatype buffer_op =
    Buf_Init nat
  | Buf_Push nat bytes
  | Buf_Append nat bytes
  | Buf_Clear nat
  | Buf_Return nat

definition buffer_store ::
  "nat \<Rightarrow> chop_buffer list \<Rightarrow> (chop_error \<times> chop_buffer \<times> buffer_world) option
     \<Rightarrow> (chop_error \<times> chop_buffer list \<times> buffer_world) option" where
  "buffer_store i bufs r = map_option (\<lambda>(err, b, w). (err, bufs[i := b], w)) r"

fun exec_buffer_op ::
  "allocator \<Rightarrow> buffer_op \<Rightarrow> chop_buffer list \<Rightarrow> buffer_world
     \<Rightarrow> (chop_error \<times> chop_buffer list \<times> buffer_world) option" where
  "exec_buffer_op al (Buf_Init n) bufs w =
     (case chop_buffer_init al n w of
        (err, Some b, w') \<Rightarrow> Some (err, bufs @ [b], w')
      | (err, None, w') \<Rightarrow> Some (err, bufs, w'))"
| "exec_buffer_op al (Buf_Push i bs) bufs w = buffer_store i bufs (chop_buffer_push al (bufs ! i) bs w)"
| "exec_buffer_op al (Buf_Append i bs) bufs w = buffer_store i bufs (chop_buffer_append al (bufs ! i) bs w)"
| "exec_buffer_op al (Buf_Clear i) bufs w = Some (CHOP_OK, bufs[i := chop_buffer_clear (bufs ! i)], w)"
| "exec_buffer_op al (Buf_Return i) bufs w =
     (case chop_buffer_return (bufs ! i) w of (b, w') \<Rightarrow> Some (CHOP_OK, bufs[i := b], w'))"

text \<open>The specification: independent lists of bytes.\<close>

fun spec_buffer_op :: "buffer_op \<Rightarrow> bytes list \<Rightarrow> bytes list" where
  "spec_buffer_op (Buf_Init n) cs = cs @ [[]]"
| "spec_buffer_op (Buf_Push i bs) cs = cs[i := bs]"
| "spec_buffer_op (Buf_Append i bs) cs = cs[i := cs ! i @ bs]"
| "spec_buffer_op (Buf_Clear i) cs = cs[i := []]"
| "spec_buffer_op (Buf_Return i) cs = cs[i := []]"

fun op_fits :: "buffer_op \<Rightarrow> bytes list \<Rightarrow> bool" where
  "op_fits (Buf_Init n) cs \<longleftrightarrow> True"
| "op_fits (Buf_Push i bs) cs \<longleftrightarrow> i < length cs \<and> length bs \<le> small_size"
| "op_fits (Buf_Append i bs) cs \<longleftrightarrow> i < length cs \<and> length (cs ! i @ bs) \<le> small_size"
| "op_fits (Buf_Clear i) cs \<longleftrightarrow> i < length cs"
| "op_fits (Buf_Return i) cs \<longleftrightarrow> i < length cs"

definition buffer_contents :: "buffer_world \<Rightarrow> chop_buffer list \<Rightarrow> bytes list" where
  "buffer_contents w bufs = map (chop_buffer_content (bw_heap w)) bufs"

lemma mset_remove_nth: "i < length xs \<Longrightarrow> mset xs = add_mset (xs ! i) (mset xs - {#xs ! i#})"
  by simp

lemma set_remove_nth:
  assumes "j < length xs" "j \<noteq> i" "i < length xs"
  shows "xs ! j \<in># mset xs - {#xs ! i#}"
proof -
  have "mset (xs[i := y]) = add_mset y (mset xs - {#xs ! i#})" for y using assms(3) by (simp add: mset_update)
  moreover have "mset xs - {#xs ! i#} = mset (take i xs) + mset (drop (Suc i) xs)"
    using assms(3) by (subst id_take_nth_drop [OF assms(3)]) simp
  moreover have "xs ! j \<in> set (take i xs) \<union> set (drop (Suc i) xs)"
    using assms by (cases "j < i") (auto simp: in_set_conv_nth intro: exI [of _ "j - Suc i"])
  ultimately show ?thesis by simp
qed

lemma contents_update:
  assumes "i < length bufs" "same_contents (bw_heap w) (bw_heap w') (mset bufs - {#bufs ! i#})"
    and "chop_buffer_content (bw_heap w') b = c"
  shows "buffer_contents w' (bufs[i := b]) = (buffer_contents w bufs)[i := c]"
proof (rule nth_equalityI)
  fix j assume j: "j < length (buffer_contents w' (bufs[i := b]))"
  then show "buffer_contents w' (bufs[i := b]) ! j = (buffer_contents w bufs)[i := c] ! j"
    using assms set_remove_nth [of j bufs i] by (cases "j = i") (simp_all add: buffer_contents_def same_contents_def)
qed (simp add: buffer_contents_def)

text \<open>The states a program can reach, from no buffer, an empty heap and an empty pool.\<close>

definition empty_buffer_world :: buffer_world where
  "empty_buffer_world = \<lparr>bw_heap = (\<lambda>_. None), buffer_pool = [], buffer_pool_available = 0\<rparr>"

inductive buffers_reach :: "allocator \<Rightarrow> chop_buffer list \<Rightarrow> buffer_world \<Rightarrow> bool" for al where
  start: "buffers_reach al [] empty_buffer_world"
| step: "buffers_reach al bufs w \<Longrightarrow> op_fits op (buffer_contents w bufs) \<Longrightarrow>
    exec_buffer_op al op bufs w = Some (err, bufs', w') \<Longrightarrow> buffers_reach al bufs' w'"

definition op_done :: "buffer_op \<Rightarrow> bytes list \<Rightarrow> chop_error \<Rightarrow> chop_buffer list \<Rightarrow> buffer_world \<Rightarrow> bool" where
  "op_done op cs err bufs' w' \<longleftrightarrow>
     (err = CHOP_OK \<and> buffer_contents w' bufs' = spec_buffer_op op cs \<or> err = ENOMEM \<and> buffer_contents w' bufs' = cs)"

lemma init_ok:
  assumes al: "allocator_laws al" and inv: "world_inv w L" and r: "chop_buffer_init al n w = (err, mb, w')"
  shows "err = CHOP_OK \<and> (\<exists>b. mb = Some b \<and> world_inv w' (add_mset b L) \<and> chop_buffer_content (bw_heap w') b = [])
      \<and> same_contents (bw_heap w) (bw_heap w') L
    \<or> err = ENOMEM \<and> mb = None \<and> w' = w"
proof (cases "find_buffer_in_pool n w")
  case (Some x)
  obtain b w1 where x: "find_buffer_in_pool n w = Some (b, w1)" using Some by (cases x) auto
  have pool: "pool_inv w" using inv by (simp add: world_inv_def)
  note f = find_buffer_found [OF x pool]
  have "heap_inv (bw_heap w) (add_mset b (L + mset (buffer_pool w1)))"
    using inv f(2) by (simp add: world_inv_def)
  from heap_inv_resize [OF this, of 0] have "world_inv w1 (add_mset (b\<lparr>buf_size := 0\<rparr>) L)"
    using f(1,4) by (simp add: world_inv_def)
  then show ?thesis using r x f(1) by (auto simp: chop_buffer_init_def chop_buffer_content_def)
next
  case None
  show ?thesis
  proof (cases "al_alloc al (bw_heap w) n")
    case fail: None
    then show ?thesis using r None by (simp add: chop_buffer_init_def chop_calloc_def)
  next
    case (Some a)
    let ?nul = "\<lparr>buf_addr = 0, buf_real_size = 0, buf_size = 0\<rparr>"
    let ?b = "\<lparr>buf_addr = a, buf_real_size = n, buf_size = 0\<rparr>"
    have a: "a \<noteq> 0" "bw_heap w a = None" using al Some by (auto simp: allocator_laws_def)
    have hi: "heap_inv (bw_heap w) (add_mset ?nul (L + mset (buffer_pool w)))"
      using inv heap_inv_null by (simp add: world_inv_def)
    have "heap_inv ((bw_heap w)(a \<mapsto> replicate n 0)) (add_mset ?b (L + mset (buffer_pool w)))"
      "same_contents (bw_heap w) ((bw_heap w)(a \<mapsto> replicate n 0)) (L + mset (buffer_pool w))"
      using heap_inv_replace [OF hi, where b' = ?b and blk = "replicate n 0" and
          h' = "(bw_heap w)(a \<mapsto> replicate n 0)"] a hi
      by (simp_all add: heap_inv_def fun_upd_idem)
    then show ?thesis
      using r None Some inv
      by (auto simp: chop_buffer_init_def chop_calloc_def world_inv_def pool_inv_def chop_buffer_content_def
          dest: same_contents_sub)
  qed
qed

lemma same_buffer_contents:
  "same_contents (bw_heap w) (bw_heap w') (mset bufs) \<Longrightarrow> buffer_contents w' bufs = buffer_contents w bufs"
  by (simp add: same_contents_def buffer_contents_def)

lemma store_done:
  assumes i: "i < length bufs" and r: "\<exists>r. R = Some r \<and> store_ok w (bufs ! i) (mset bufs - {#bufs ! i#}) c r"
    and spec: "spec_buffer_op op (buffer_contents w bufs) = (buffer_contents w bufs)[i := c]"
  shows "\<exists>err bufs' w'. buffer_store i bufs R = Some (err, bufs', w') \<and> world_inv w' (mset bufs')
    \<and> op_done op (buffer_contents w bufs) err bufs' w'"
proof -
  obtain err b w' where R: "R = Some (err, b, w')" and ok: "store_ok w (bufs ! i) (mset bufs - {#bufs ! i#}) c (err, b, w')"
    using r by auto
  have idem: "(buffer_contents w bufs)[i := chop_buffer_content (bw_heap w) (bufs ! i)] = buffer_contents w bufs"
    using i by (simp add: buffer_contents_def flip: map_update)
  have inv: "world_inv w' (mset (bufs[i := b]))" and same: "same_contents (bw_heap w) (bw_heap w') (mset bufs - {#bufs ! i#})"
    using ok i by (simp_all add: store_ok_def mset_update)
  have "op_done op (buffer_contents w bufs) err (bufs[i := b]) w'"
    using ok contents_update [OF i same refl, of b] idem spec by (auto simp: store_ok_def op_done_def)
  with R inv show ?thesis by (simp add: buffer_store_def)
qed

lemma exec_buffer_ok:
  assumes al: "allocator_laws al" and inv: "world_inv w (mset bufs)" and fits: "op_fits op (buffer_contents w bufs)"
  shows "\<exists>err bufs' w'. exec_buffer_op al op bufs w = Some (err, bufs', w') \<and> world_inv w' (mset bufs')
    \<and> op_done op (buffer_contents w bufs) err bufs' w'"
proof (cases op)
  case (Buf_Init n)
  obtain err mb w' where r: "chop_buffer_init al n w = (err, mb, w')" by (metis prod_cases3)
  from init_ok [OF al inv r] show ?thesis
    using Buf_Init r inv same_buffer_contents [of w w' bufs]
    by (auto simp: op_done_def buffer_contents_def)
next
  case (Buf_Push i bs)
  then have i: "i < length bufs" and bs: "length bs \<le> small_size"
    using fits by (simp_all add: buffer_contents_def)
  have "world_inv w (add_mset (bufs ! i) (mset bufs - {#bufs ! i#}))" using inv i by simp
  from store_done [OF i buffer_push_ok [OF al this bs]] show ?thesis by (simp add: Buf_Push)
next
  case (Buf_Append i bs)
  then have i: "i < length bufs" and bs: "length (chop_buffer_content (bw_heap w) (bufs ! i) @ bs) \<le> small_size"
    using fits by (auto simp: buffer_contents_def)
  have "world_inv w (add_mset (bufs ! i) (mset bufs - {#bufs ! i#}))" using inv i by simp
  from store_done [OF i buffer_append_ok [OF al this bs]] show ?thesis using i by (simp add: Buf_Append buffer_contents_def)
next
  case (Buf_Clear i)
  then have i: "i < length bufs" using fits by (simp add: buffer_contents_def)
  have "heap_inv (bw_heap w) (add_mset (bufs ! i) (mset bufs - {#bufs ! i#} + mset (buffer_pool w)))"
    using inv i by (simp add: world_inv_def)
  from heap_inv_resize [OF this, of 0] have "world_inv w (mset (bufs[i := chop_buffer_clear (bufs ! i)]))"
    using inv i by (simp add: world_inv_def mset_update chop_buffer_clear_def)
  moreover have "chop_buffer_content (bw_heap w) (chop_buffer_clear (bufs ! i)) = []"
    by (simp add: chop_buffer_clear_def chop_buffer_content_def)
  from contents_update [OF i _ this, of w] have "buffer_contents w (bufs[i := chop_buffer_clear (bufs ! i)])
      = (buffer_contents w bufs)[i := []]" by simp
  ultimately show ?thesis by (simp add: Buf_Clear op_done_def)
next
  case (Buf_Return i)
  then have i: "i < length bufs" using fits by (simp add: buffer_contents_def)
  obtain b w' where r: "chop_buffer_return (bufs ! i) w = (b, w')" by (metis prod.exhaust)
  have "world_inv w (add_mset (bufs ! i) (mset bufs - {#bufs ! i#}))" using inv i by simp
  note ok = return_ok [OF this r]
  have "world_inv w' (mset (bufs[i := b]))" using ok(3) i by (simp add: mset_update)
  moreover have "buffer_contents w' (bufs[i := b]) = (buffer_contents w bufs)[i := []]"
    by (rule contents_update [OF i ok(2,4)])
  ultimately show ?thesis using r by (simp add: Buf_Return op_done_def)
qed

lemma reach_inv:
  assumes "allocator_laws al" "buffers_reach al bufs w"
  shows "world_inv w (mset bufs)"
  using assms(2)
proof (induction rule: buffers_reach.induct)
  case start
  show ?case
    by (simp add: empty_buffer_world_def world_inv_def heap_inv_def pool_inv_def BUFFER_POOL_MAX_AVAILABLE_def)
next
  case (step bufs w op err bufs' w')
  from exec_buffer_ok [OF assms(1) step.IH step.hyps(2)] step.hyps(3) show ?case by auto
qed

lemma count_image_distinct:
  assumes "\<And>a. a \<noteq> 0 \<Longrightarrow> count (mset (xs :: nat list)) a \<le> 1"
  shows "distinct (filter (\<lambda>a. a \<noteq> 0) xs)"
proof -
  have "count (mset (filter (\<lambda>a. a \<noteq> 0) xs)) a \<le> 1" for a using assms by (cases "a = 0") auto
  then have "count (mset (filter (\<lambda>a. a \<noteq> 0) xs)) a = (if a \<in> set (filter (\<lambda>a. a \<noteq> 0) xs) then 1 else 0)" for a
    by (metis One_nat_def count_greater_zero_iff count_inI le_antisym less_eq_Suc_le set_mset_mset)
  then show ?thesis by (simp add: distinct_count_atmost_1)
qed

section \<open>Main properties\<close>

text \<open>C31: buffers behave as independent lists of bytes.  In every state that a program reaches from an
  empty pool, initialising, pushing, appending, clearing and returning a buffer does return (no copy
  goes outside of a block, no size is doubled for ever) and has either the effect of the operation on
  the lists, every other buffer keeping its contents, or the error \<^verbatim>\<open>ENOMEM\<close> and no effect at all.
  This holds whether the memory comes from the pool or from the allocator, as long as the contents are
  at most \<open>2 ^ 63\<close> bytes long.\<close>

theorem buffers_refine_byte_lists:
  assumes "allocator_laws al" and "buffers_reach al bufs w" and "op_fits op (buffer_contents w bufs)"
  shows "\<exists>err bufs' w'. exec_buffer_op al op bufs w = Some (err, bufs', w') \<and> buffers_reach al bufs' w'
    \<and> (err = CHOP_OK \<and> buffer_contents w' bufs' = spec_buffer_op op (buffer_contents w bufs)
       \<or> err = ENOMEM \<and> buffer_contents w' bufs' = buffer_contents w bufs)"
  using exec_buffer_ok [OF assms(1) reach_inv [OF assms(1,2)] assms(3)] buffers_reach.step [OF assms(2,3)]
  unfolding op_done_def by blast

text \<open>C32: ownership and bounds of the pool.  In every state that a program reaches, no two buffers, in
  use or in the pool, share a block; every allocated block belongs to one of them (nothing leaks) and
  is as long as the buffer says; the pool holds at most 20 buffers, less than 8192 bytes in total, and
  its byte counter is exact.\<close>

theorem buffer_pool_invariant:
  assumes "allocator_laws al" and "buffers_reach al bufs w"
  shows "distinct (filter (\<lambda>a. a \<noteq> 0) (map buf_addr (bufs @ buffer_pool w)))
    \<and> dom (bw_heap w) = set (filter (\<lambda>a. a \<noteq> 0) (map buf_addr (bufs @ buffer_pool w)))
    \<and> list_all (\<lambda>b. length (block_at (bw_heap w) (buf_addr b)) = buf_real_size b \<and> buf_size b \<le> buf_real_size b)
         (bufs @ buffer_pool w)
    \<and> buffer_pool_available w = sum_list (map buf_real_size (buffer_pool w))
    \<and> buffer_pool_available w < BUFFER_POOL_MAX_AVAILABLE \<and> length (buffer_pool w) \<le> BUFFER_POOL_MAX_SIZE"
proof -
  have inv: "heap_inv (bw_heap w) (mset (bufs @ buffer_pool w))" and pool: "pool_inv w"
    using reach_inv [OF assms] by (simp_all add: world_inv_def)
  have cnt: "a \<noteq> 0 \<Longrightarrow> count (mset (map buf_addr (bufs @ buffer_pool w))) a = (if bw_heap w a = None then 0 else 1)" for a
    by (simp only: mset_map) (rule heap_inv_count [OF inv])
  then have "distinct (filter (\<lambda>a. a \<noteq> 0) (map buf_addr (bufs @ buffer_pool w)))"
    by (intro count_image_distinct) simp
  moreover have "a \<in> dom (bw_heap w) \<longleftrightarrow> a \<in> set (filter (\<lambda>a. a \<noteq> 0) (map buf_addr (bufs @ buffer_pool w)))" for a
  proof (cases "a = 0")
    case False
    then show ?thesis using cnt [OF False] count_eq_zero_iff [of "mset (map buf_addr (bufs @ buffer_pool w))" a]
      by (auto split: if_splits)
  qed (use inv in \<open>auto simp: heap_inv_def\<close>)
  then have "dom (bw_heap w) = set (filter (\<lambda>a. a \<noteq> 0) (map buf_addr (bufs @ buffer_pool w)))" by blast
  moreover have "list_all (\<lambda>b. length (block_at (bw_heap w) (buf_addr b)) = buf_real_size b \<and> buf_size b \<le> buf_real_size b)
      (bufs @ buffer_pool w)"
    using inv by (auto simp: heap_inv_def buf_ok_def list_all_iff)
  ultimately show ?thesis using pool by (simp add: pool_inv_def)
qed

text \<open>An allocator: the first free address below 5, for blocks of less than 64 bytes.\<close>

definition sample_allocator :: allocator where
  "sample_allocator = \<lparr>
     al_alloc = (\<lambda>h n. if n < 64 then List.find (\<lambda>a. h a = None) [1, 2, 3, 4] else None),
     al_realloc = (\<lambda>h p n. if n < 64 then map_option (\<lambda>a. (a, \<lambda>_. 7)) (List.find (\<lambda>a. h a = None) [1, 2, 3, 4]) else None)\<rparr>"

lemma sample_allocator_laws: "allocator_laws sample_allocator"
  by (auto simp: allocator_laws_def sample_allocator_def find_Some_iff split: if_splits)

lemma sample_grow_size: "grow_size 2 (Suc (Suc (Suc 0))) = Some 4"
  by (simp add: grow_size.simps [of 2] grow_size.simps [of 4])

text \<open>A buffer of two bytes grown for three, then returned to the pool and taken again.\<close>

definition sample_buffer :: chop_buffer where
  "sample_buffer = \<lparr>buf_addr = 2, buf_real_size = 4, buf_size = 0\<rparr>"

definition sample_world :: buffer_world where
  "sample_world = \<lparr>bw_heap = (\<lambda>_. None)(1 := None, 2 \<mapsto> [1, 2, 3, 7]), buffer_pool = [], buffer_pool_available = 0\<rparr>"

lemma sample_reach: "buffers_reach sample_allocator [sample_buffer\<lparr>buf_addr := 0, buf_real_size := 0\<rparr>, sample_buffer] sample_world"
proof -
  let ?al = sample_allocator
  let ?h = "(\<lambda>_. None)(2 \<mapsto> [1, 2, 3, 7])"
  note defs = empty_buffer_world_def chop_buffer_init_def find_buffer_in_pool_def chop_calloc_def sample_allocator_def
    sample_buffer_def sample_world_def buffer_contents_def small_size_def buffer_store_def chop_buffer_push_def
    chop_buffer_grow_def sample_grow_size chop_realloc_def poke_def chop_buffer_return_def BUFFER_POOL_MAX_SIZE_def
    BUFFER_POOL_MAX_AVAILABLE_def
  have "buffers_reach ?al [\<lparr>buf_addr = 1, buf_real_size = 2, buf_size = 0\<rparr>]
      \<lparr>bw_heap = (\<lambda>_. None)(1 \<mapsto> [0, 0]), buffer_pool = [], buffer_pool_available = 0\<rparr>"
    by (rule buffers_reach.step [OF buffers_reach.start, of "Buf_Init 2"]) (simp_all add: defs numeral_2_eq_2)
  then have "buffers_reach ?al [\<lparr>buf_addr = 2, buf_real_size = 4, buf_size = 3\<rparr>]
      \<lparr>bw_heap = ?h, buffer_pool = [], buffer_pool_available = 0\<rparr>"
    by (rule buffers_reach.step [where op = "Buf_Push 0 [1, 2, 3]"])
      (simp_all add: defs block_at_def fun_upd_twist upt_rec)
  then have "buffers_reach ?al [\<lparr>buf_addr = 0, buf_real_size = 0, buf_size = 0\<rparr>]
      \<lparr>bw_heap = ?h, buffer_pool = [\<lparr>buf_addr = 2, buf_real_size = 4, buf_size = 3\<rparr>], buffer_pool_available = 4\<rparr>"
    by (rule buffers_reach.step [where op = "Buf_Return 0"]) (simp_all add: defs)
  then show ?thesis
    by (rule buffers_reach.step [where op = "Buf_Init 3"]) (simp_all add: defs)
qed

theorem buffers_refine_byte_lists_witness:
  "\<exists>err bufs' w'. exec_buffer_op sample_allocator (Buf_Append 1 [6, 7, 8])
        [sample_buffer\<lparr>buf_addr := 0, buf_real_size := 0\<rparr>, sample_buffer] sample_world = Some (err, bufs', w')
    \<and> (err = CHOP_OK \<and> buffer_contents w' bufs' = [[], [6, 7, 8]] \<or> err = ENOMEM \<and> buffer_contents w' bufs' = [[], []])"
proof -
  have cs: "buffer_contents sample_world [sample_buffer\<lparr>buf_addr := 0, buf_real_size := 0\<rparr>, sample_buffer] = [[], []]"
    by (simp add: buffer_contents_def chop_buffer_content_def sample_buffer_def)
  have "op_fits (Buf_Append 1 [6, 7, 8])
      (buffer_contents sample_world [sample_buffer\<lparr>buf_addr := 0, buf_real_size := 0\<rparr>, sample_buffer])"
    by (simp add: cs small_size_def)
  from buffers_refine_byte_lists [OF sample_allocator_laws sample_reach this] show ?thesis
    unfolding cs by auto
qed

theorem buffer_pool_invariant_witness:
  "dom (bw_heap sample_world) = {2} \<and> length (buffer_pool sample_world) \<le> BUFFER_POOL_MAX_SIZE"
  using buffer_pool_invariant [OF sample_allocator_laws sample_reach] by (simp add: sample_world_def sample_buffer_def)

end
