(* ===== verification/Chop_UUID.thy ===== *)
theory Chop_UUID
  imports Chop_Hash
begin

text \<open>
  The block indexer that names blocks by universally unique identifiers
  (\<^verbatim>\<open>src/src/block-indexer-uuid.c\<close>).  The functions of libuuid are a parameter; the state of its
  generator is the state of the indexer, which has none of its own.
\<close>

section \<open>libuuid\<close>

text \<open>\<^verbatim>\<open>uuid_t\<close> is an array of 16 bytes; \<^verbatim>\<open>uuid_unparse\<close> writes 36 characters and a zero.\<close>

record 'g libuuid =
  uuid_generate :: "'g \<Rightarrow> bytes \<times> 'g"
  uuid_unparse :: "bytes \<Rightarrow> bytes"
  uuid_parse :: "bytes \<Rightarrow> bytes option"
  uuid_compare :: "bytes \<Rightarrow> bytes \<Rightarrow> int"
  uuid_copy :: "bytes \<Rightarrow> bytes"

definition uuid_laws :: "'g libuuid \<Rightarrow> bool" where
  "uuid_laws L \<longleftrightarrow>
    (\<forall>g. length (fst (uuid_generate L g)) = 16)
    \<and> (\<forall>u. length u = 16 \<longrightarrow> length (uuid_unparse L u) = 37)
    \<and> (\<forall>u rest. length u = 16 \<longrightarrow> uuid_parse L (uuid_unparse L u @ rest) = Some u)
    \<and> (\<forall>u v. uuid_compare L u v = 0 \<longleftrightarrow> u = v) \<and> (\<forall>u. uuid_copy L u = u)"

section \<open>Index handles\<close>

record uuid_index_handle =
  uih_uuid :: bytes
  uih_size :: nat

definition CHOP_UUID_SIZE :: nat where "CHOP_UUID_SIZE = 37"

definition uih_equalp :: "'g libuuid \<Rightarrow> uuid_index_handle \<Rightarrow> uuid_index_handle \<Rightarrow> bool" where
  "uih_equalp L uih1 uih2 = (uuid_compare L (uih_uuid uih1) (uih_uuid uih2) = 0)"

definition uih_copy :: "'g libuuid \<Rightarrow> uuid_index_handle \<Rightarrow> uuid_index_handle \<Rightarrow> uuid_index_handle" where
  "uih_copy L source dest = dest\<lparr>uih_uuid := uuid_copy L (uih_uuid source), uih_size := CHOP_UUID_SIZE\<rparr>"

text \<open>One form for both methods.\<close>

definition uih_serialize :: "'g libuuid \<Rightarrow> chop_serial_method \<Rightarrow> uuid_index_handle \<Rightarrow> bytes result option" where
  "uih_serialize L meth uih = Some (Inr (take CHOP_UUID_SIZE (uuid_unparse L (uih_uuid uih))))"

definition uih_deserialize ::
  "'g libuuid \<Rightarrow> chop_serial_method \<Rightarrow> bytes \<Rightarrow> (uuid_index_handle \<times> nat) result option" where
  "uih_deserialize L meth buffer =
    (if length buffer < 37 then Some (Inl CHOP_DESERIAL_TOO_SHORT)
     else (case uuid_parse L buffer of
             None \<Rightarrow> Some (Inl CHOP_DESERIAL_CORRUPT_INPUT)
           | Some u \<Rightarrow> Some (Inr (\<lparr>uih_uuid = u, uih_size = CHOP_UUID_SIZE\<rparr>, 37))))"

definition uuid_index_handle_class :: "'g libuuid \<Rightarrow> uuid_index_handle handle_class" where
  "uuid_index_handle_class L =
    \<lparr>hc_serialize = uih_serialize L, hc_deserialize = uih_deserialize L, chop_index_handle_binary_size = uih_size\<rparr>"

section \<open>Fetcher and indexer\<close>

definition uih_key :: "'g libuuid \<Rightarrow> uuid_index_handle \<Rightarrow> block_key" where
  "uih_key L handle = take CHOP_UUID_SIZE (uuid_unparse L (uih_uuid handle))"

text \<open>Nothing is written for fetchers and indexers, and nothing read.\<close>

definition ubf_serialize :: "chop_serial_method \<Rightarrow> unit \<Rightarrow> bytes \<Rightarrow> chop_error \<times> bytes" where
  "ubf_serialize meth fetcher buffer = (CHOP_OK, buffer)"

definition ubf_deserialize :: "chop_serial_method \<Rightarrow> bytes \<Rightarrow> (unit \<times> nat) result" where
  "ubf_deserialize meth buffer = Inr ((), 0)"

definition ubi_serialize :: "chop_serial_method \<Rightarrow> unit \<Rightarrow> bytes \<Rightarrow> chop_error \<times> bytes" where
  "ubi_serialize meth indexer buffer = (CHOP_OK, buffer)"

definition ubi_deserialize :: "chop_serial_method \<Rightarrow> bytes \<Rightarrow> (unit \<times> nat) result" where
  "ubi_deserialize meth buffer = Inr ((), 0)"

text \<open>As with integers, every key points to the text of the last round.\<close>

definition uuid_blocks_exist ::
  "'g libuuid \<Rightarrow> 'w block_store \<Rightarrow> uuid_index_handle list \<Rightarrow> bool list \<Rightarrow> 'w \<Rightarrow> (chop_error \<times> bool list) \<times> 'w" where
  "uuid_blocks_exist L store indices exists w =
    chop_store_blocks_exist store w (map (\<lambda>_. uih_key L (last indices)) indices) exists"

definition uuid_block_fetch ::
  "'g libuuid \<Rightarrow> 'w block_store \<Rightarrow> uuid_index_handle \<Rightarrow> bytes \<Rightarrow> unit \<times> 'w
     \<Rightarrow> ((chop_error \<times> bytes \<times> nat) \<times> unit \<times> 'w) option" where
  "uuid_block_fetch L store handle buffer fw =
    (case chop_store_read_block store (snd fw) (uih_key L handle) buffer of (r, w') \<Rightarrow> Some (r, fst fw, w'))"

definition uuid_fetcher :: "'g libuuid \<Rightarrow> (unit, 'w, uuid_index_handle) block_fetcher" where
  "uuid_fetcher L =
    \<lparr>fetch_block = uuid_block_fetch L, fetcher_blocks_exist = Some (uuid_blocks_exist L)\<rparr>"

definition uuid_block_index ::
  "'g libuuid \<Rightarrow> 'w block_store \<Rightarrow> bytes \<Rightarrow> 'g \<times> 'w \<Rightarrow> (uuid_index_handle result \<times> 'g \<times> 'w) option" where
  "uuid_block_index L store buffer gw =
    (case gw of (g, w) \<Rightarrow>
      (case uuid_generate L g of (u, g') \<Rightarrow>
        (case chop_store_write_block store w (take CHOP_UUID_SIZE (uuid_unparse L u)) buffer of
            (err, w') \<Rightarrow>
              if err \<noteq> CHOP_OK then Some (Inl err, g', w')
              else Some (Inr \<lparr>uih_uuid = u, uih_size = CHOP_UUID_SIZE\<rparr>, g', w'))))"

definition uuid_indexer :: "'g libuuid \<Rightarrow> ('g, 'w, uuid_index_handle) block_indexer" where
  "uuid_indexer L = \<lparr>index_block = uuid_block_index L\<rparr>"

section \<open>The indexer meets the contract\<close>

definition wf_uih :: "'g libuuid \<Rightarrow> uuid_index_handle \<Rightarrow> bool" where
  "wf_uih L h \<longleftrightarrow> uuid_laws L \<and> length (uih_uuid h) = 16 \<and> uih_size h = CHOP_UUID_SIZE"

lemma length_uih_key [simp]: "wf_uih L h \<Longrightarrow> length (uih_key L h) = 37"
  by (simp add: wf_uih_def uuid_laws_def uih_key_def CHOP_UUID_SIZE_def)

lemma uih_key_text: "wf_uih L h \<Longrightarrow> uih_key L h = uuid_unparse L (uih_uuid h)"
  by (simp add: wf_uih_def uuid_laws_def uih_key_def CHOP_UUID_SIZE_def)

lemma uih_parse: "wf_uih L h \<Longrightarrow> uuid_parse L (uih_key L h @ rest) = Some (uih_uuid h)"
  using uih_key_text [of L h] by (simp add: wf_uih_def uuid_laws_def)

lemma uih_key_inj: "wf_uih L h \<Longrightarrow> wf_uih L h' \<Longrightarrow> uih_key L h = uih_key L h' \<Longrightarrow> uih_uuid h = uih_uuid h'"
  using uih_parse [of L h "[]"] uih_parse [of L h' "[]"] by simp

interpretation uih_codec: handle_codec "uuid_index_handle_class L" "wf_uih L" "uih_key L" "\<lambda>h. h" for L :: "'g libuuid"
proof (unfold_locales, goal_cases)
  case (2 h rest)
  then show ?case
    using uih_parse [OF 2, of rest] by (cases h) (simp add: uuid_index_handle_class_def uih_deserialize_def wf_uih_def)
next
  case (3 h)
  then show ?case using length_uih_key [OF 3] by (simp add: uuid_index_handle_class_def wf_uih_def CHOP_UUID_SIZE_def)
next
  case (4 h)
  then show ?case using length_uih_key [OF 4] by fastforce
qed (simp add: uuid_index_handle_class_def uih_serialize_def uih_key_def)

definition uuid_ok :: "('w \<Rightarrow> bool) \<Rightarrow> 'g libuuid \<Rightarrow> 'g \<times> 'w \<Rightarrow> bool" where
  "uuid_ok ok L gw \<longleftrightarrow> uuid_laws L \<and> ok (snd gw)"

definition uuid_inv ::
  "('w \<Rightarrow> bool) \<Rightarrow> ('w \<Rightarrow> block_key \<rightharpoonup> bytes) \<Rightarrow> 'g libuuid \<Rightarrow> uuid_index_handle block_log \<Rightarrow> 'g \<times> 'w \<Rightarrow> bool" where
  "uuid_inv ok contents L lg gw \<longleftrightarrow> ok (snd gw) \<and> key_inv (uih_key L) (\<lambda>h b. b) lg (contents (snd gw))"

lemmas uuid_index_defs =
  chop_block_indexer_index_def uuid_indexer_def uuid_block_index_def uuid_ok_def uuid_inv_def wf_uih_def

text \<open>What an indexing call with success did.\<close>

lemma uuid_index_success:
  assumes "chop_block_indexer_index (uuid_indexer L) store block gw = Some (Inr h, gw')" "uuid_laws L"
  shows "wf_uih L h" "uih_uuid h = fst (uuid_generate L (fst gw))" "fst gw' = snd (uuid_generate L (fst gw))"
    "chop_store_write_block store (snd gw) (uih_key L h) block = (CHOP_OK, snd gw')"
  using assms
  by (auto simp: uuid_index_defs uih_key_def uuid_laws_def split: prod.splits if_splits) (metis fst_conv)

lemma uuid_index_failure:
  assumes "chop_block_indexer_index (uuid_indexer L) store block gw = Some (Inl err, gw')"
  obtains k where "chop_store_write_block store (snd gw) k block = (err, snd gw')" "err \<noteq> CHOP_OK"
  using assms by (auto simp: uuid_index_defs split: prod.splits if_splits)

locale uuid_indexing = map_store store inv contents
  for store :: "'w block_store" and inv and contents +
  fixes L :: "'g libuuid"

sublocale uuid_indexing \<subseteq> idx: block_indexing "uuid_index_handle_class L" "wf_uih L" "uih_key L" "\<lambda>h. h"
  "uuid_indexer L" "uuid_fetcher L" store "uuid_ok inv L" "\<lambda>lg gw. uuid_laws L \<and> uuid_inv inv contents L lg gw" "\<lambda>f. True"
  "key_compat (uih_key L) (\<lambda>h b. b)" "2 ^ 64" 37
proof (unfold_locales, goal_cases)
  case (1 x lg)
  then show ?case by (rule key_compat_tail)
next
  case (2 gw block h gw')
  note s = uuid_index_success [OF 2(2)]
  show ?case using 2 s write_block_law [of "snd gw" "uih_key L h" block CHOP_OK "snd gw'"] by (simp add: uuid_ok_def)
next
  case (3 gw block err gw')
  from 3(2) obtain k where "chop_store_write_block store (snd gw) k block = (err, snd gw')" "err \<noteq> CHOP_OK"
    by (rule uuid_index_failure)
  with 3(1) write_block_law [of "snd gw" k block err "snd gw'"] show ?case by (simp add: uuid_ok_def)
next
  case (4 lg gw block h gw')
  note s = uuid_index_success [OF 4(2)]
  show ?case
    using 4 s keyed_write [of "snd gw" "uih_key L" "\<lambda>h b. b" lg h block "snd gw'"] by (simp add: uuid_inv_def)
next
  case (5 lg gw block err gw')
  from 5(2) obtain k where "chop_store_write_block store (snd gw) k block = (err, snd gw')" "err \<noteq> CHOP_OK"
    by (rule uuid_index_failure)
  with 5(1) write_block_law [of "snd gw" k block err "snd gw'"] show ?case by (simp add: uuid_inv_def)
next
  case (6 lg i w f h block h' buffer)
  obtain r w' where rd: "chop_store_read_block store w (uih_key L h) buffer = (r, w')" by (metis prod.exhaust)
  from 6 keyed_read [of w "uih_key L" "\<lambda>h b. b" lg h block buffer r w'] rd show ?case
    by (auto simp: chop_block_fetcher_fetch_def uuid_fetcher_def uuid_block_fetch_def uuid_inv_def)
qed

locale reliable_uuid = uuid_indexing + reliable_store

sublocale reliable_uuid \<subseteq> ridx: reliable_indexing "uuid_index_handle_class L" "wf_uih L" "uih_key L" "\<lambda>h. h"
  "uuid_indexer L" "uuid_fetcher L" store "uuid_ok inv L" "\<lambda>lg gw. uuid_laws L \<and> uuid_inv inv contents L lg gw" "\<lambda>f. True"
  "key_compat (uih_key L) (\<lambda>h b. b)" "2 ^ 64" 37
proof (unfold_locales, goal_cases)
  case (1 gw block)
  then show ?case
    using write_succeeds [of "snd gw" _ block]
    by (auto simp: uuid_index_defs split: prod.splits if_splits) (metis fst_conv)+
qed

interpretation reliable_db_uuid: reliable_uuid "generic_db_store ops"
  "\<lambda>s. (db_laws ops m \<and> db_writable ops) \<and> db_open s" "\<lambda>s. m (db s)" L
  for ops :: "'d db_ops" and m and L :: "'g libuuid"
  by unfold_locales

text \<open>Blocks with different identifiers never share a key.\<close>

lemma distinct_uuid_compat:
  assumes "distinct (map (uih_uuid \<circ> fst) lg)" "\<forall>(h, b) \<in> set lg. wf_uih L h"
  shows "key_compat (uih_key L) (\<lambda>h b. b) lg"
proof -
  have "b = b'" if "(h, b) \<in> set lg" "(h', b') \<in> set lg" "uih_key L h = uih_key L h'" for h b h' b'
  proof -
    have "uih_uuid h = uih_uuid h'" using uih_key_inj that assms(2) by blast
    with assms(1) that(1,2) show ?thesis by (force simp: distinct_map inj_on_def)
  qed
  then show ?thesis by (auto simp: key_compat_def)
qed

text \<open>Every handle given out is well formed.\<close>

lemma uuid_run_wf:
  assumes "index_run (uuid_indexer L) store s t" "uuid_laws L" "log_of s = []"
  shows "\<forall>(h, b) \<in> set (log_of t). wf_uih L h"
  using assms
proof (induction rule: index_run.induct)
  case (run_step s t block r u)
  note l = logged_log [OF run_step.hyps(2)]
  with run_step uuid_index_success(1) [of L store block "erase_log t" _ "erase_log u"] show ?case by (cases r) auto
qed simp

end
