(* ===== verification/Chop_UUID_Roundtrip.thy ===== *)
theory Chop_UUID_Roundtrip
  imports Chop_UUID Chop_Tree_Roundtrip
begin

text \<open>
  Storing and retrieving a stream with the UUID block indexer.
\<close>

lemma uuid_stream_indexing:
  assumes "2 \<le> c" "c < 2 ^ 32"
  shows "stream_indexing (uuid_index_handle_class L) (wf_uih L) (uih_key L) (\<lambda>h. h) (uuid_indexer L) (uuid_fetcher L)
    (generic_db_store ops) (uuid_ok (\<lambda>s. (db_laws ops mp \<and> db_writable ops) \<and> db_open s) L)
    (\<lambda>lg gw. uuid_laws L \<and> uuid_inv (\<lambda>s. (db_laws ops mp \<and> db_writable ops) \<and> db_open s) (\<lambda>s. mp (db s)) L lg gw)
    (\<lambda>f. True) (key_compat (uih_key L) (\<lambda>h b. b)) (2 ^ 64) 37 c (chop_fixed_chopper_read_block chop_mem_stream_read)
    (\<lambda>c. ms_inv (fc_stream c) \<and> 0 < fc_block_size c) (fixed_blocks ms_rest)"
  by unfold_locales (use assms in simp_all)

text \<open>C30: Storing and retrieving a file with the UUID block indexer: a non-empty memory stream cut by the
  fixed-size chopper is indexed with success on an empty, writable database, and as long as the
  generator of libuuid has made distinct identifiers, reading the stream fetched for the handle gives
  back exactly the bytes.\<close>

theorem uuid_tree_round_trip:
  assumes "db_laws ops mp" "db_writable ops" "db_open w" "mp (db w) = Map.empty" "uuid_laws L"
    and "3 \<le> ipb" "ipb \<le> 2 ^ 32" "0 < block_size" "block_size \<le> 2 ^ 64" "data \<noteq> []" "length data \<le> 2 ^ 64"
  shows "\<exists>h c' g' lg w'.
      chop_tree_index_blocks ipb (chop_fixed_chopper_read_block chop_mem_stream_read)
        (uuid_indexer L) (uuid_index_handle_class L) (generic_db_store ops) (generic_db_store ops)
        (chop_fixed_size_chopper_init (chop_mem_stream_open data (length data)) block_size False)
        (g, w) = Some (CHOP_OK, Some h, c', g', w')
    \<and> chop_tree_index_blocks ipb (chop_fixed_chopper_read_block chop_mem_stream_read)
        (logged (uuid_indexer L)) (uuid_index_handle_class L) (generic_db_store ops) (generic_db_store ops)
        (chop_fixed_size_chopper_init (chop_mem_stream_open data (length data)) block_size False)
        ((g, []), w) = Some (CHOP_OK, Some h, c', (g', lg), w')
    \<and> (distinct (map (uih_uuid \<circ> fst) lg) \<longrightarrow>
        (\<exists>s'. chop_chopper_read_block (read_whole_stream (tree_stream_read
            (uuid_fetcher L) (uuid_index_handle_class L) (generic_db_store ops) (generic_db_store ops) junk))
          (chop_tree_fetch_stream h, (), w') [] = Some ((CHOP_OK, data, length data), s')))"
proof -
  let ?ch = "chop_fixed_size_chopper_init (chop_mem_stream_open data (length data)) block_size False"
  have "2 \<le> ipb - 1" "ipb - 1 < 2 ^ 32" using assms(6,7) by auto
  note idx = uuid_stream_indexing [OF this, of L ops mp]
  note fb = fixed_blocks_of_data [OF assms(8,10)]
  have ch: "ms_inv (fc_stream ?ch) \<and> 0 < fc_block_size ?ch"
    using assms(8) by (simp add: chop_fixed_size_chopper_init_def chop_mem_stream_open_def ms_inv_def)
  have small: "\<forall>x \<in> set (fixed_blocks ms_rest ?ch). length x \<le> 2 ^ 64"
    using fb(1,3) assms(9) by fastforce
  have ne: "fixed_blocks ms_rest ?ch \<noteq> []" and few: "length (fixed_blocks ms_rest ?ch) \<le> 2 ^ 64"
    using fb assms(11) by auto
  have J: "uuid_ok (\<lambda>s. (db_laws ops mp \<and> db_writable ops) \<and> db_open s) L (g, w)"
    using assms by (simp add: uuid_ok_def)
  then have "uuid_laws L \<and> uuid_inv (\<lambda>s. (db_laws ops mp \<and> db_writable ops) \<and> db_open s) (\<lambda>s. mp (db s)) L [] (g, w)"
    using assms(4) by (simp add: uuid_inv_def uuid_ok_def)
  note round_trip = stream_indexing.index_then_read [OF idx ch ne small few J this TrueI, of junk "()"]
  have compat: "key_compat (uih_key L) (\<lambda>h b. b) lg"
    if "index_run (uuid_indexer L) (generic_db_store ops) ((g, []), w) ((g', lg), w')"
      "distinct (map (uih_uuid \<circ> fst) lg)" for g' lg w'
    using uuid_run_wf [OF that(1) assms(5)] that(2) by (intro distinct_uuid_compat) (simp_all add: log_of_def)
  have "ipb - 1 + 1 = ipb" using assms(6) by simp
  from round_trip [unfolded fb(1) concat_chunks [OF assms(8)] this] compat show ?thesis by blast
qed

text \<open>A generator that counts; a text form padded with dashes.\<close>

definition sample_libuuid :: "byte libuuid" where
  "sample_libuuid = \<lparr>
     uuid_generate = (\<lambda>g. (g # replicate 15 0, g + 1)),
     uuid_unparse = (\<lambda>u. u @ replicate 20 45 @ [0]),
     uuid_parse = (\<lambda>b. Some (take 16 b)),
     uuid_compare = (\<lambda>u v. if u = v then 0 else 1),
     uuid_copy = (\<lambda>u. u)\<rparr>"

lemma sample_libuuid_laws: "uuid_laws sample_libuuid"
  by (simp add: uuid_laws_def sample_libuuid_def)

lemma sample_uuid_index:
  "chop_block_indexer_index (logged (uuid_indexer sample_libuuid)) sample_db b ((g, lg), \<lparr>db = d, db_open = True\<rparr>)
   = (let h = \<lparr>uih_uuid = g # replicate 15 0, uih_size = 37\<rparr> in
      Some (Inr h, (g + 1, (h, b) # lg),
        \<lparr>db = (uih_key sample_libuuid h, b) # filter (\<lambda>e. fst e \<noteq> uih_key sample_libuuid h) d, db_open = True\<rparr>))"
  unfolding logged_index_eq
  by (simp add: chop_block_indexer_index_def uuid_indexer_def uuid_block_index_def uih_key_def sample_libuuid_def
      generic_db_defs alist_db_def CHOP_UUID_SIZE_def Let_def)

lemma sample_uuid_run:
  "\<exists>h c i lg w. chop_tree_index_blocks 3 (chop_fixed_chopper_read_block chop_mem_stream_read)
        (logged (uuid_indexer sample_libuuid)) (uuid_index_handle_class sample_libuuid) sample_db sample_db
        (chop_fixed_size_chopper_init (chop_mem_stream_open [7] (length ([7] :: bytes))) 1 False)
        ((5, []), \<lparr>db = [], db_open = True\<rparr>)
     = Some (CHOP_OK, h, c, (i, lg), w) \<and> distinct (map (uih_uuid \<circ> fst) lg)"
proof -
  let ?h = "\<lparr>uih_uuid = 5 # replicate 15 0, uih_size = 37\<rparr>"
  have wf: "wf_uih sample_libuuid ?h" by (simp add: wf_uih_def sample_libuuid_laws CHOP_UUID_SIZE_def)
  have one: "chop_chopper_read_block rb c b = Some ((CHOP_OK, [7], length ([7] :: bytes)), c')"
    if "chop_chopper_read_block rb c b = Some ((CHOP_OK, [7], 1), c')" for rb and c c' :: "mem_stream fixed_size_chopper" and b
    using that by simp
  note run = one_block_run [OF one [OF sample_read(1)] _ sample_read(2)
      sample_uuid_index [of "[7]" 5 "[]" "[]", unfolded Let_def],
      where hc = "uuid_index_handle_class sample_libuuid"]
  from run [OF _ uih_codec.serialize_law [OF wf] uih_codec.binary_size_law [OF wf, symmetric]
      sample_uuid_index [unfolded Let_def]] show ?thesis
    by simp
qed

theorem uuid_tree_round_trip_witness:
  "\<exists>h c' g' w' s'.
      chop_tree_index_blocks 3 (chop_fixed_chopper_read_block chop_mem_stream_read)
        (uuid_indexer sample_libuuid) (uuid_index_handle_class sample_libuuid) sample_db sample_db
        (chop_fixed_size_chopper_init (chop_mem_stream_open [7] (length ([7] :: bytes))) 1 False)
        (5, \<lparr>db = [], db_open = True\<rparr>) = Some (CHOP_OK, Some h, c', g', w')
    \<and> chop_chopper_read_block (read_whole_stream (tree_stream_read
            (uuid_fetcher sample_libuuid) (uuid_index_handle_class sample_libuuid) sample_db sample_db sample_junk))
          (chop_tree_fetch_stream h, (), w') []
        = Some ((CHOP_OK, [7], length ([7] :: bytes)), s')"
proof -
  have wr: "db_writable alist_db" by (simp add: db_writable_def alist_db_def)
  from uuid_tree_round_trip [OF alist_db_laws wr _ _ sample_libuuid_laws,
      of "\<lparr>db = [], db_open = True\<rparr>" 3 1 "[7]" 5 sample_junk]
    sample_uuid_run show ?thesis by force
qed

end
