(* ===== verification/Chop_Filters.thy ===== *)
theory Chop_Filters
  imports Chop_Streams "HOL-Library.Sublist"
begin

text \<open>
  Filters (\<^verbatim>\<open>include/chop/filters.h\<close>, \<^verbatim>\<open>src/src/filters.c\<close>) and the compressing and decompressing
  filters over zlib and bzip2 (\<^verbatim>\<open>filter-zip-push-pull.c\<close>, \<^verbatim>\<open>filter-zlib-zip.c\<close> and its three siblings).
  The libraries are a parameter.  A fault handler is a function of the filter, of its own data and of
  the amount asked for; the handler that the code installs in the filter object is an argument of the
  operations here.  None is a call that does not return.
\<close>

section \<open>Filters and faults\<close>

record chop_filter =
  within_fault_handler :: bool

type_synonym ('d, 'f) fault_handler = "'f \<times> 'd \<Rightarrow> nat \<Rightarrow> (chop_error \<times> 'f \<times> 'd) option"

definition chop_filter_handle_input_fault ::
  "('d, 'a chop_filter_scheme) fault_handler option \<Rightarrow> nat \<Rightarrow> 'a chop_filter_scheme \<times> 'd
     \<Rightarrow> (chop_error \<times> 'a chop_filter_scheme \<times> 'd) option" where
  "chop_filter_handle_input_fault handler amount fd =
    (case (handler, fd) of
       (None, f, d) \<Rightarrow> Some (CHOP_FILTER_UNHANDLED_FAULT, f, d)
     | (Some handle, f, d) \<Rightarrow>
         if within_fault_handler f then Some (CHOP_FILTER_UNHANDLED_FAULT, f, d)
         else map_option (\<lambda>(err, f', d'). (err, f'\<lparr>within_fault_handler := False\<rparr>, d'))
                (handle (f\<lparr>within_fault_handler := True\<rparr>, d) amount))"

definition chop_filter_handle_output_fault ::
  "('d, 'a chop_filter_scheme) fault_handler option \<Rightarrow> nat \<Rightarrow> 'a chop_filter_scheme \<times> 'd
     \<Rightarrow> (chop_error \<times> 'a chop_filter_scheme \<times> 'd) option" where
  "chop_filter_handle_output_fault handler amount fd =
    (case (handler, fd) of
       (None, f, d) \<Rightarrow> Some (CHOP_FILTER_UNHANDLED_FAULT, f, d)
     | (Some handle, f, d) \<Rightarrow>
         if within_fault_handler f then Some (CHOP_FILTER_UNHANDLED_FAULT, f, d)
         else map_option (\<lambda>(err, f', d'). (err, f'\<lparr>within_fault_handler := False\<rparr>, d'))
                (handle (f\<lparr>within_fault_handler := True\<rparr>, d) amount))"

section \<open>The compression libraries\<close>

text \<open>One call of \<^verbatim>\<open>deflate\<close>, \<^verbatim>\<open>inflate\<close>, \<^verbatim>\<open>BZ2_bzCompress\<close> or \<^verbatim>\<open>BZ2_bzDecompress\<close>: whether to
  flush, the input available, the room for output and the state give a return code, the number
  of bytes taken, the output and the new state.\<close>

type_synonym 'z zip_process = "bool \<Rightarrow> bytes \<Rightarrow> nat \<Rightarrow> 'z \<Rightarrow> int \<times> nat \<times> bytes \<times> 'z"

record 'z zip_engine =
  ZIP_PROCESS :: "'z zip_process"
  ZIP_RESET_PROCESSING :: "'z \<Rightarrow> 'z"

text \<open>The return codes of \<^verbatim>\<open>zlib.h\<close> and \<^verbatim>\<open>bzlib.h\<close>.\<close>

definition Z_OK :: int where "Z_OK = 0"
definition Z_STREAM_END :: int where "Z_STREAM_END = 1"
definition Z_DATA_ERROR :: int where "Z_DATA_ERROR = - 3"
definition Z_BUF_ERROR :: int where "Z_BUF_ERROR = - 5"
definition BZ_OK :: int where "BZ_OK = 0"
definition BZ_RUN_OK :: int where "BZ_RUN_OK = 1"
definition BZ_FINISH_OK :: int where "BZ_FINISH_OK = 3"
definition BZ_STREAM_END :: int where "BZ_STREAM_END = 4"
definition BZ_SEQUENCE_ERROR :: int where "BZ_SEQUENCE_ERROR = - 1"
definition BZ_DATA_ERROR :: int where "BZ_DATA_ERROR = - 4"
definition BZ_DATA_ERROR_MAGIC :: int where "BZ_DATA_ERROR_MAGIC = - 5"
definition BZ_OUTBUFF_FULL :: int where "BZ_OUTBUFF_FULL = - 8"

lemmas zip_codes = Z_OK_def Z_STREAM_END_def Z_DATA_ERROR_def Z_BUF_ERROR_def BZ_OK_def BZ_RUN_OK_def BZ_FINISH_OK_def
  BZ_STREAM_END_def BZ_SEQUENCE_ERROR_def BZ_DATA_ERROR_def BZ_DATA_ERROR_MAGIC_def BZ_OUTBUFF_FULL_def

text \<open>The macros each filter defines before it includes the shared methods.\<close>

record zip_macros =
  ZIP_OK :: int
  ZIP_STREAM_ENDED :: "int \<Rightarrow> bool"
  ZIP_NEED_MORE_INPUT :: "nat \<Rightarrow> int \<Rightarrow> bool"
  ZIP_CANT_PRODUCE_MORE :: "int \<Rightarrow> bool"
  ZIP_INPUT_CORRUPTED :: "int \<Rightarrow> bool"

definition zlib_zip :: zip_macros where
  "zlib_zip = \<lparr>ZIP_OK = Z_OK, ZIP_STREAM_ENDED = (\<lambda>zret. zret = Z_STREAM_END),
     ZIP_NEED_MORE_INPUT = (\<lambda>avail_in zret. False), ZIP_CANT_PRODUCE_MORE = (\<lambda>zret. zret = Z_BUF_ERROR),
     ZIP_INPUT_CORRUPTED = (\<lambda>zret. False)\<rparr>"

definition zlib_unzip :: zip_macros where
  "zlib_unzip = \<lparr>ZIP_OK = Z_OK, ZIP_STREAM_ENDED = (\<lambda>zret. zret = Z_STREAM_END),
     ZIP_NEED_MORE_INPUT = (\<lambda>avail_in zret. zret = Z_BUF_ERROR), ZIP_CANT_PRODUCE_MORE = (\<lambda>zret. zret = Z_STREAM_END),
     ZIP_INPUT_CORRUPTED = (\<lambda>zret. zret = Z_DATA_ERROR)\<rparr>"

definition bzip2_zip :: zip_macros where
  "bzip2_zip = \<lparr>ZIP_OK = BZ_OK, ZIP_STREAM_ENDED = (\<lambda>zret. zret = BZ_STREAM_END \<or> zret = BZ_SEQUENCE_ERROR),
     ZIP_NEED_MORE_INPUT = (\<lambda>avail_in zret. False), ZIP_CANT_PRODUCE_MORE = (\<lambda>zret. zret = BZ_OUTBUFF_FULL),
     ZIP_INPUT_CORRUPTED = (\<lambda>zret. zret = BZ_DATA_ERROR)\<rparr>"

definition bzip2_unzip :: zip_macros where
  "bzip2_unzip = \<lparr>ZIP_OK = BZ_OK, ZIP_STREAM_ENDED = (\<lambda>zret. zret = BZ_STREAM_END \<or> zret = BZ_SEQUENCE_ERROR),
     ZIP_NEED_MORE_INPUT = (\<lambda>avail_in zret. avail_in = 0), ZIP_CANT_PRODUCE_MORE = (\<lambda>zret. zret = BZ_STREAM_END),
     ZIP_INPUT_CORRUPTED = (\<lambda>zret. zret = BZ_DATA_ERROR \<or> zret = BZ_DATA_ERROR_MAGIC)\<rparr>"

text \<open>The bzip2 compressor maps two codes of the library to \<^verbatim>\<open>BZ_OK\<close>.\<close>

definition do_zip_process :: "'z zip_process \<Rightarrow> 'z zip_process" where
  "do_zip_process BZ2_bzCompress flush input avail_out z =
    (case BZ2_bzCompress flush input avail_out z of (err, k, out, z') \<Rightarrow>
      (if flush then if err = BZ_FINISH_OK then BZ_OK else err
       else if err = BZ_RUN_OK then BZ_OK else err, k, out, z'))"

section \<open>The zip filter\<close>

text \<open>\<^verbatim>\<open>input_buffer_size\<close> is the length of \<open>zf_input_buffer\<close>; \<^verbatim>\<open>next_in\<close> is an offset into it;
  \<^verbatim>\<open>avail_in\<close> and \<^verbatim>\<open>avail_out\<close> are 32-bit integers.\<close>

record 'z zip_filter = chop_filter +
  zf_input_buffer :: bytes
  zf_next_in :: nat
  zf_avail_in :: nat
  zf_zstream :: 'z

text \<open>The initial contents of the buffer are those of fresh memory.\<close>

definition zip_filter_new :: "(nat \<Rightarrow> byte) \<Rightarrow> nat \<Rightarrow> 'z \<Rightarrow> 'z zip_filter" where
  "zip_filter_new memory input_size z =
    \<lparr>within_fault_handler = False, zf_input_buffer = map memory [0..<(if input_size = 0 then 1024 else input_size)],
     zf_next_in = 0, zf_avail_in = 0, zf_zstream = z\<rparr>"

definition chop_zlib_zip_filter_init :: "(int \<Rightarrow> 'z) \<Rightarrow> (nat \<Rightarrow> byte) \<Rightarrow> int \<Rightarrow> nat \<Rightarrow> 'z zip_filter" where
  "chop_zlib_zip_filter_init deflateInit memory zlib_compression_level input_size =
    zip_filter_new memory input_size
      (deflateInit (if 0 \<le> zlib_compression_level then zlib_compression_level else - 1))"

definition chop_zlib_unzip_filter_init :: "'z \<Rightarrow> (nat \<Rightarrow> byte) \<Rightarrow> nat \<Rightarrow> 'z zip_filter" where
  "chop_zlib_unzip_filter_init inflateInit memory input_size = zip_filter_new memory input_size inflateInit"

text \<open>Opening bzip2: the library's code and state; \<^verbatim>\<open>BZ_PARAM_ERROR\<close> is -2.\<close>

definition chop_bzip2_zip_filter_init ::
  "(nat \<Rightarrow> nat \<Rightarrow> int \<times> 'z) \<Rightarrow> (nat \<Rightarrow> byte) \<Rightarrow> nat \<Rightarrow> nat \<Rightarrow> nat \<Rightarrow> 'z zip_filter result" where
  "chop_bzip2_zip_filter_init BZ2_bzCompressInit memory block_count_100k work_factor input_size =
    (case BZ2_bzCompressInit block_count_100k work_factor of (err, z) \<Rightarrow>
      if err = - 2 then Inl CHOP_INVALID_ARG
      else if err = BZ_OK then Inr (zip_filter_new memory input_size z)
      else Inl CHOP_FILTER_ERROR)"

definition bzf_open ::
  "(nat \<Rightarrow> nat \<Rightarrow> int \<times> 'z) \<Rightarrow> (nat \<Rightarrow> byte) \<Rightarrow> int \<Rightarrow> nat \<Rightarrow> 'z zip_filter result" where
  "bzf_open BZ2_bzCompressInit memory compression_level input_size =
    chop_bzip2_zip_filter_init BZ2_bzCompressInit memory
      (if 0 \<le> compression_level then nat compression_level else 1) 0 input_size"

definition chop_bzip2_unzip_filter_init ::
  "(int \<Rightarrow> int \<times> 'z) \<Rightarrow> (nat \<Rightarrow> byte) \<Rightarrow> int \<Rightarrow> nat \<Rightarrow> 'z zip_filter result" where
  "chop_bzip2_unzip_filter_init BZ2_bzDecompressInit memory small input_size =
    (case BZ2_bzDecompressInit small of (err, z) \<Rightarrow>
      if err \<noteq> 0 then Inl CHOP_FILTER_ERROR else Inr (zip_filter_new memory input_size z))"

partial_function (option) zip_push_loop ::
  "('d, 'z zip_filter) fault_handler option \<Rightarrow> bytes \<Rightarrow> nat \<Rightarrow> 'z zip_filter \<times> 'd
     \<Rightarrow> ((chop_error \<times> nat) \<times> 'z zip_filter \<times> 'd) option" where
  "zip_push_loop oh buffer pushed fd =
    (case fd of (f, d) \<Rightarrow>
      if buffer = [] then Some ((CHOP_OK, pushed), f, d)
      else if length (zf_input_buffer f) \<le> zf_avail_in f then
        Option.bind (chop_filter_handle_output_fault oh (length (zf_input_buffer f)) (f, d)) (\<lambda>(err, f1, d1).
          if err \<noteq> CHOP_OK then
            Some ((if err \<noteq> CHOP_FILTER_UNHANDLED_FAULT then err else if pushed = 0 then CHOP_FILTER_FULL else CHOP_OK,
              pushed), f1, d1)
          else zip_push_loop oh buffer pushed (f1, d1))
      else let available = length (zf_input_buffer f) - zf_avail_in f;
               amount = (if length buffer < available then length buffer else available)
           in zip_push_loop oh (drop amount buffer) (pushed + amount)
                (f\<lparr>zf_input_buffer := take (zf_avail_in f) (zf_input_buffer f) @ take amount buffer
                     @ drop (zf_avail_in f + amount) (zf_input_buffer f),
                   zf_avail_in := (zf_avail_in f + amount) mod 2 ^ 32\<rparr>, d))"

declare zip_push_loop.simps [code]

definition zip_push ::
  "('d, 'z zip_filter) fault_handler option \<Rightarrow> bytes \<Rightarrow> 'z zip_filter \<times> 'd
     \<Rightarrow> ((chop_error \<times> nat) \<times> 'z zip_filter \<times> 'd) option" where
  "zip_push oh buffer fd =
    (case fd of (f, d) \<Rightarrow> zip_push_loop oh buffer 0 (if zf_avail_in f = 0 then f\<lparr>zf_next_in := 0\<rparr> else f, d))"

text \<open>The result of pulling: a code, \<^verbatim>\<open>*pulled\<close> and the bytes written to the caller's buffer.\<close>

partial_function (option) zip_pull_loop ::
  "zip_macros \<Rightarrow> 'z zip_engine \<Rightarrow> ('d, 'z zip_filter) fault_handler option \<Rightarrow> bool \<Rightarrow> nat \<Rightarrow> int \<Rightarrow> nat \<Rightarrow> bytes
     \<Rightarrow> 'z zip_filter \<times> 'd \<Rightarrow> ((chop_error \<times> nat \<times> bytes) \<times> 'z zip_filter \<times> 'd) option" where
  "zip_pull_loop M E ih flush sz zret pulled out fd =
    (case fd of (f, d) \<Rightarrow>
      if \<not> pulled < sz then Some ((CHOP_OK, pulled, out), f, d)
      else if (zf_avail_in f = 0 \<or> ZIP_NEED_MORE_INPUT M (zf_avail_in f) zret) \<and> \<not> flush then
        Option.bind (chop_filter_handle_input_fault ih (length (zf_input_buffer f) - zf_avail_in f) (f, d))
          (\<lambda>(err, f1, d1).
            if err \<noteq> CHOP_OK then
              Some ((if err \<noteq> CHOP_FILTER_UNHANDLED_FAULT then err else CHOP_FILTER_EMPTY, pulled, out), f1, d1)
            else zip_pull_loop M E ih flush sz zret pulled out (f1, d1))
      else
        (case ZIP_PROCESS E flush (take (zf_avail_in f) (drop (zf_next_in f) (zf_input_buffer f)))
            (sz mod 2 ^ 32 - length out) (zf_zstream f) of (zret', k, new, z) \<Rightarrow>
          let f1 = f\<lparr>zf_next_in := zf_next_in f + k, zf_avail_in := zf_avail_in f - k, zf_zstream := z\<rparr>;
              out1 = out @ new;
              pulled1 = sz - (sz mod 2 ^ 32 - length out1)
          in if ZIP_INPUT_CORRUPTED M zret' then Some ((CHOP_FILTER_ERROR, pulled, out1), f1, d)
             else if flush then
               if ZIP_STREAM_ENDED M zret' \<and> pulled1 = 0
               then Some ((CHOP_FILTER_EMPTY, pulled1, out1), f1\<lparr>zf_zstream := ZIP_RESET_PROCESSING E z\<rparr>, d)
               else Some ((CHOP_OK, pulled1, out1), f1, d)
             else if ZIP_CANT_PRODUCE_MORE M zret' then Some ((CHOP_OK, pulled1, out1), f1, d)
             else if zret' \<noteq> ZIP_OK M then Some ((CHOP_FILTER_ERROR, pulled1, out1), f1, d)
             else zip_pull_loop M E ih flush sz zret' pulled1 out1 (f1, d)))"

declare zip_pull_loop.simps [code]

definition zip_pull ::
  "zip_macros \<Rightarrow> 'z zip_engine \<Rightarrow> ('d, 'z zip_filter) fault_handler option \<Rightarrow> bool \<Rightarrow> nat
     \<Rightarrow> 'z zip_filter \<times> 'd \<Rightarrow> ((chop_error \<times> nat \<times> bytes) \<times> 'z zip_filter \<times> 'd) option" where
  "zip_pull M E ih flush sz fd =
    map_option (\<lambda>((err, pulled, out), fd'). ((if err = CHOP_FILTER_EMPTY \<and> pulled \<noteq> 0 then CHOP_OK else err, pulled, out), fd'))
      (zip_pull_loop M E ih flush sz (ZIP_OK M) 0 [] fd)"

section \<open>Filtering a buffer\<close>

record input_buffer =
  ib_buffer :: bytes
  ib_read :: nat

type_synonym ('d, 'f) filter_push = "bytes \<Rightarrow> 'f \<times> 'd \<Rightarrow> ((chop_error \<times> nat) \<times> 'f \<times> 'd) option"

type_synonym ('d, 'f) filter_pull =
  "('d, 'f) fault_handler option \<Rightarrow> bool \<Rightarrow> nat \<Rightarrow> 'f \<times> 'd \<Rightarrow> ((chop_error \<times> nat \<times> bytes) \<times> 'f \<times> 'd) option"

definition handle_input_fault_from_buffer :: "(input_buffer, 'f) filter_push \<Rightarrow> (input_buffer, 'f) fault_handler" where
  "handle_input_fault_from_buffer push fd amount =
    (case fd of (f, ibuffer) \<Rightarrow>
      if ib_buffer ibuffer = [] then Some (CHOP_FILTER_UNHANDLED_FAULT, f, ibuffer)
      else map_option (\<lambda>((err, pushed), f', ib).
             (err, f', ib\<lparr>ib_buffer := drop pushed (ib_buffer ib), ib_read := ib_read ib + pushed\<rparr>))
        (push (take (if length (ib_buffer ibuffer) < amount then length (ib_buffer ibuffer) else amount)
           (ib_buffer ibuffer)) (f, ibuffer)))"

partial_function (option) filter_through_loop ::
  "(bool \<Rightarrow> nat \<Rightarrow> 's \<Rightarrow> ((chop_error \<times> nat \<times> bytes) \<times> 's) option) \<Rightarrow> bool \<Rightarrow> bytes \<Rightarrow> 's
     \<Rightarrow> (chop_error \<times> bytes \<times> 's) option" where
  "filter_through_loop pull flush output s =
    Option.bind (pull flush 1024 s) (\<lambda>((err, pulled, block), s1).
      if err \<noteq> CHOP_OK \<and> err \<noteq> CHOP_FILTER_EMPTY then Some (err, output, s1)
      else if err = CHOP_FILTER_EMPTY \<and> flush then Some (CHOP_OK, output, s1)
      else filter_through_loop pull (flush \<or> err = CHOP_FILTER_EMPTY) (output @ take pulled block) s1)"

declare filter_through_loop.simps [code]

definition chop_filter_through ::
  "(input_buffer, 'f) filter_push \<Rightarrow> (input_buffer, 'f) filter_pull \<Rightarrow> 'f \<Rightarrow> bytes
     \<Rightarrow> (chop_error \<times> bytes \<times> 'f) option" where
  "chop_filter_through push pull f input =
    map_option (\<lambda>(err, output, f', ibuffer). (err, output, f'))
      (filter_through_loop (pull (Some (handle_input_fault_from_buffer push))) False []
         (f, \<lparr>ib_buffer = input, ib_read = 0\<rparr>))"

end
