(* ===== verification/Chop_Filters_Correct.thy ===== *)
theory Chop_Filters_Correct
  imports Chop_Filters
begin

text \<open>
  The zip filters compute the transformation that the library under them computes, whatever the
  sizes of the buffers, for any source of input that keeps the contract \<open>fault_source\<close>; and what
  happens when the input is cut short.
\<close>

section \<open>What the libraries document\<close>

text \<open>What a stream of the library computes: \<open>zs_result\<close> of the inputs \<open>zs_valid\<close>; \<open>zs_in\<close> and
  \<open>zs_out\<close> are what it has taken and given since it was reset.\<close>

record 'z zip_spec =
  zs_valid :: "bytes \<Rightarrow> bool"
  zs_result :: "bytes \<Rightarrow> bytes"
  zs_bound :: "bytes \<Rightarrow> nat"
  zs_in :: "'z \<Rightarrow> bytes"
  zs_out :: "'z \<Rightarrow> bytes"
  zs_running :: "'z \<Rightarrow> bool"
  zs_finishing :: "'z \<Rightarrow> bool"

text \<open>A call with input and room for output makes progress: it takes input or gives output.\<close>

definition run_law :: "zip_macros \<Rightarrow> 'z zip_engine \<Rightarrow> 'z zip_spec \<Rightarrow> bool" where
  "run_law M E S \<longleftrightarrow>
    (\<forall>z whole input n ret k out z'. zs_running S z \<longrightarrow> zs_valid S whole \<longrightarrow> prefix (zs_in S z @ input) whole
        \<longrightarrow> input \<noteq> [] \<longrightarrow> 0 < n \<longrightarrow> ZIP_PROCESS E False input n z = (ret, k, out, z') \<longrightarrow>
       k \<le> length input \<and> length out \<le> n \<and> (0 < k \<or> out \<noteq> [])
       \<and> zs_running S z' \<and> zs_in S z' = zs_in S z @ take k input \<and> zs_out S z' = zs_out S z @ out
       \<and> (ret = ZIP_OK M \<or> ZIP_CANT_PRODUCE_MORE M ret) \<and> \<not> ZIP_INPUT_CORRUPTED M ret
       \<and> (\<forall>avail. 0 < avail \<longrightarrow> \<not> ZIP_NEED_MORE_INPUT M avail ret))"

text \<open>Once all input has been taken, flushing gives the rest of the output, and only then says that the
  stream has ended.\<close>

definition flush_law :: "zip_macros \<Rightarrow> 'z zip_engine \<Rightarrow> 'z zip_spec \<Rightarrow> bool" where
  "flush_law M E S \<longleftrightarrow>
    (\<forall>z n ret k out z'. zs_running S z \<or> zs_finishing S z \<longrightarrow> zs_valid S (zs_in S z)
        \<longrightarrow> 0 < n \<longrightarrow> ZIP_PROCESS E True [] n z = (ret, k, out, z') \<longrightarrow>
       k = 0 \<and> length out \<le> n \<and> \<not> ZIP_INPUT_CORRUPTED M ret
       \<and> zs_finishing S z' \<and> zs_in S z' = zs_in S z \<and> zs_out S z' = zs_out S z @ out
       \<and> (if ZIP_STREAM_ENDED M ret \<and> out = []
          then zs_out S z = zs_result S (zs_in S z) \<and> zs_running S (ZIP_RESET_PROCESSING E z')
            \<and> zs_in S (ZIP_RESET_PROCESSING E z') = [] \<and> zs_out S (ZIP_RESET_PROCESSING E z') = []
          else out \<noteq> []))"

definition bound_law :: "'z zip_spec \<Rightarrow> bool" where
  "bound_law S \<longleftrightarrow>
    (\<forall>z whole. zs_running S z \<and> prefix (zs_in S z) whole \<or> zs_finishing S z \<and> zs_in S z = whole
       \<longrightarrow> zs_valid S whole \<longrightarrow> length (zs_out S z) \<le> zs_bound S whole)"

definition zip_laws :: "zip_macros \<Rightarrow> 'z zip_engine \<Rightarrow> 'z zip_spec \<Rightarrow> bool" where
  "zip_laws M E S \<longleftrightarrow> run_law M E S \<and> flush_law M E S \<and> bound_law S
     \<and> (\<forall>avail. 0 < avail \<longrightarrow> \<not> ZIP_NEED_MORE_INPUT M avail (ZIP_OK M))"

lemma run_lawD:
  assumes "run_law M E S" "zs_running S z" "zs_valid S whole" "prefix (zs_in S z @ input) whole"
    "input \<noteq> []" "0 < n" "ZIP_PROCESS E False input n z = (ret, k, out, z')"
  shows "k \<le> length input" "length out \<le> n" "0 < k \<or> out \<noteq> []" "zs_running S z'"
    "zs_in S z' = zs_in S z @ take k input" "zs_out S z' = zs_out S z @ out"
    "ret = ZIP_OK M \<or> ZIP_CANT_PRODUCE_MORE M ret" "\<not> ZIP_INPUT_CORRUPTED M ret"
    "\<forall>avail. 0 < avail \<longrightarrow> \<not> ZIP_NEED_MORE_INPUT M avail ret"
  using assms(1) [unfolded run_law_def, rule_format, OF assms(2-7)] by blast+

lemma flush_lawD:
  assumes "flush_law M E S" "zs_running S z \<or> zs_finishing S z" "zs_valid S (zs_in S z)" "0 < n"
    "ZIP_PROCESS E True [] n z = (ret, k, out, z')"
  shows "k = 0" "length out \<le> n" "\<not> ZIP_INPUT_CORRUPTED M ret" "zs_finishing S z'" "zs_in S z' = zs_in S z"
    "zs_out S z' = zs_out S z @ out"
    "if ZIP_STREAM_ENDED M ret \<and> out = []
      then zs_out S z = zs_result S (zs_in S z) \<and> zs_running S (ZIP_RESET_PROCESSING E z')
            \<and> zs_in S (ZIP_RESET_PROCESSING E z') = [] \<and> zs_out S (ZIP_RESET_PROCESSING E z') = []
      else out \<noteq> []"
  using assms(1) [unfolded flush_law_def, rule_format, OF assms(2-5)] by blast+

section \<open>Where the input comes from\<close>

definition zf_pending :: "'z zip_filter \<Rightarrow> bytes" where
  "zf_pending f = take (zf_avail_in f) (drop (zf_next_in f) (zf_input_buffer f))"

definition zf_wf :: "'z zip_filter \<Rightarrow> bool" where
  "zf_wf f \<longleftrightarrow> \<not> within_fault_handler f \<and> 0 < length (zf_input_buffer f) \<and> length (zf_input_buffer f) < 2 ^ 32
     \<and> zf_next_in f + zf_avail_in f \<le> length (zf_input_buffer f)"

definition zf_loaded :: "bytes \<Rightarrow> 'z zip_filter \<Rightarrow> 'z zip_filter" where
  "zf_loaded bs f = f\<lparr>zf_input_buffer := bs @ drop (length bs) (zf_input_buffer f), zf_next_in := 0, zf_avail_in := length bs\<rparr>"

lemma length_pending: "zf_wf f \<Longrightarrow> length (zf_pending f) = zf_avail_in f"
  by (auto simp: zf_wf_def zf_pending_def min_def)

lemma pending_loaded [simp]: "zf_pending (zf_loaded bs f) = bs"
  by (simp add: zf_loaded_def zf_pending_def)

lemma wf_loaded: "zf_wf f \<Longrightarrow> length bs \<le> length (zf_input_buffer f) \<Longrightarrow> zf_wf (zf_loaded bs f)"
  by (simp add: zf_wf_def zf_loaded_def)

text \<open>Pushing what fits into an empty filter.\<close>

lemma push_empty:
  assumes "zf_avail_in f = 0" "length bs \<le> length (zf_input_buffer f)" "length (zf_input_buffer f) < 2 ^ 32"
  shows "zip_push oh bs (f, d) = Some ((CHOP_OK, length bs), zf_loaded bs f, d)"
proof (cases "bs = []")
  case True
  with assms show ?thesis
    by (simp add: zip_push_def zip_push_loop.simps [where buffer = "[]"] zf_loaded_def)
next
  case False
  then have "\<not> length (zf_input_buffer f) \<le> 0" using assms(2) by (cases bs) auto
  with False assms show ?thesis
    by (simp add: zip_push_def zip_push_loop.simps [where buffer = bs] zip_push_loop.simps [where buffer = "[]"]
        zf_loaded_def Let_def)
qed

text \<open>A handler that fills an empty filter with the next part of what is left to read, or says that
  nothing is left.\<close>

locale fault_source =
  fixes h :: "('d, 'z zip_filter) fault_handler"
    and dinv :: "'d \<Rightarrow> bool"
    and drest :: "'d \<Rightarrow> bytes"
  assumes feed_law:
    "\<lbrakk>dinv d; zf_avail_in f = 0; 0 < length (zf_input_buffer f); length (zf_input_buffer f) < 2 ^ 32\<rbrakk> \<Longrightarrow>
      (if drest d = [] then \<exists>d'. h (f, d) (length (zf_input_buffer f)) = Some (CHOP_FILTER_UNHANDLED_FAULT, f, d')
             \<and> dinv d' \<and> drest d' = []
       else \<exists>bs d'. h (f, d) (length (zf_input_buffer f)) = Some (CHOP_OK, zf_loaded bs f, d')
             \<and> dinv d' \<and> drest d = bs @ drest d' \<and> bs \<noteq> [] \<and> length bs \<le> length (zf_input_buffer f))"
begin

lemma feed:
  assumes "dinv d" "zf_wf f" "zf_avail_in f = 0"
  shows "if drest d = [] then \<exists>d'. chop_filter_handle_input_fault (Some h) (length (zf_input_buffer f)) (f, d)
             = Some (CHOP_FILTER_UNHANDLED_FAULT, f, d') \<and> dinv d' \<and> drest d' = []
       else \<exists>bs d'. chop_filter_handle_input_fault (Some h) (length (zf_input_buffer f)) (f, d)
             = Some (CHOP_OK, zf_loaded bs f, d')
             \<and> dinv d' \<and> drest d = bs @ drest d' \<and> bs \<noteq> [] \<and> length bs \<le> length (zf_input_buffer f)"
proof -
  have f: "f\<lparr>within_fault_handler := False\<rparr> = f" "\<not> within_fault_handler f" using assms(2) by (simp_all add: zf_wf_def)
  then have l: "(zf_loaded bs (f\<lparr>within_fault_handler := True\<rparr>))\<lparr>within_fault_handler := False\<rparr> = zf_loaded bs f" for bs
    by (cases f) (simp add: zf_loaded_def)
  show ?thesis
    using feed_law [of d "f\<lparr>within_fault_handler := True\<rparr>"] assms f l
    by (auto simp: chop_filter_handle_input_fault_def zf_wf_def split: if_splits)
qed

end

text \<open>A buffer as the source.\<close>

interpretation buffer_source: fault_source "handle_input_fault_from_buffer (zip_push None)" "\<lambda>ib. True" ib_buffer
proof (unfold_locales, goal_cases)
  case (1 d f)
  define n where "n = (if length (ib_buffer d) < length (zf_input_buffer f) then length (ib_buffer d) else length (zf_input_buffer f))"
  let ?bs = "take n (ib_buffer d)"
  have n: "n \<le> length (ib_buffer d)" "n \<le> length (zf_input_buffer f)" by (simp_all add: n_def)
  show ?case
  proof (cases "ib_buffer d = []")
    case False
    have "zip_push None ?bs (f, d) = Some ((CHOP_OK, length ?bs), zf_loaded ?bs f, d)"
      by (rule push_empty) (use 1 n in simp_all)
    moreover have "?bs \<noteq> []" using 1 False by (simp add: n_def)
    ultimately show ?thesis
      using False n by (auto simp: handle_input_fault_from_buffer_def n_def [symmetric] intro!: exI [of _ ?bs])
  qed (simp add: handle_input_fault_from_buffer_def)
qed

section \<open>Pulling\<close>

text \<open>What is left to do: input to load and to take, output to give.\<close>

definition zip_work :: "'z zip_spec \<Rightarrow> bytes \<Rightarrow> bytes \<Rightarrow> 'z zip_filter \<Rightarrow> nat" where
  "zip_work S goal rest f =
    2 * length rest + length (zf_pending f) + (zs_bound S goal - length (zs_out S (zf_zstream f)))"

text \<open>A filter between two uses.\<close>

definition zf_idle :: "zip_macros \<Rightarrow> 'z zip_engine \<Rightarrow> 'z zip_spec \<Rightarrow> 'z zip_filter \<Rightarrow> bool" where
  "zf_idle M E S f \<longleftrightarrow> zip_laws M E S \<and> zf_wf f \<and> zf_avail_in f = 0 \<and> zs_running S (zf_zstream f)
     \<and> zs_in S (zf_zstream f) = [] \<and> zs_out S (zf_zstream f) = []"

context fault_source
begin

text \<open>A filter that has taken part of \<open>whole\<close>, has part of it in its buffer and will read the rest; \<open>whole\<close> may
  be only the beginning of a valid input \<open>goal\<close>.\<close>

definition mid ::
  "zip_macros \<Rightarrow> 'z zip_engine \<Rightarrow> 'z zip_spec \<Rightarrow> bytes \<Rightarrow> bytes \<Rightarrow> 'z zip_filter \<Rightarrow> 'd \<Rightarrow> bool" where
  "mid M E S goal whole f d \<longleftrightarrow> zip_laws M E S \<and> zs_valid S goal \<and> prefix whole goal \<and> zf_wf f \<and> dinv d \<and> zs_running S (zf_zstream f)
     \<and> zs_in S (zf_zstream f) @ zf_pending f @ drest d = whole"

definition pull_post where
  "pull_post M E S goal whole f d sz out err new f' d' \<longleftrightarrow>
     mid M E S goal whole f' d' \<and> zs_out S (zf_zstream f') = zs_out S (zf_zstream f) @ new \<and> length (out @ new) \<le> sz
     \<and> (err = CHOP_OK \<or> err = CHOP_FILTER_EMPTY \<and> zf_pending f' = [] \<and> drest d' = [])
     \<and> (zip_work S goal (drest d') f' < zip_work S goal (drest d) f
        \<or> f' = f \<and> drest d' = drest d \<and> new = [] \<and> (err = CHOP_FILTER_EMPTY \<or> length out = sz))"

lemma process_step:
  assumes m: "mid M E S goal whole f d" and a: "zf_avail_in f \<noteq> 0" and n: "0 < n"
    and p: "ZIP_PROCESS E False (zf_pending f) n (zf_zstream f) = (ret, k, new, z)"
  defines "f1 \<equiv> f\<lparr>zf_next_in := zf_next_in f + k, zf_avail_in := zf_avail_in f - k, zf_zstream := z\<rparr>"
  shows "mid M E S goal whole f1 d" "zs_out S z = zs_out S (zf_zstream f) @ new" "length new \<le> n"
    "ret = ZIP_OK M \<or> ZIP_CANT_PRODUCE_MORE M ret" "\<not> ZIP_INPUT_CORRUPTED M ret"
    "\<forall>avail. 0 < avail \<longrightarrow> \<not> ZIP_NEED_MORE_INPUT M avail ret"
    "zip_work S goal (drest d) f1 < zip_work S goal (drest d) f"
proof -
  have laws: "run_law M E S" "bound_law S" "zs_valid S goal" "zs_running S (zf_zstream f)" "zf_wf f" "prefix whole goal"
    and whole: "zs_in S (zf_zstream f) @ zf_pending f @ drest d = whole"
    using m by (simp_all add: mid_def zip_laws_def)
  have pre: "prefix (zs_in S (zf_zstream f) @ zf_pending f) goal"
    using whole laws(6) by (metis append.assoc prefixI prefix_order.trans)
  have len: "length (zf_pending f) = zf_avail_in f" by (rule length_pending [OF laws(5)])
  then have ne: "zf_pending f \<noteq> []" using a by auto
  note r = run_lawD [OF laws(1,4,3) pre ne n p]
  have pend: "zf_pending f1 = drop k (zf_pending f)"
    by (simp add: f1_def zf_pending_def drop_take add.commute)
  have wf: "zf_wf f1" using laws(5) r(1) len by (auto simp: zf_wf_def f1_def)
  have "zs_in S z @ zf_pending f1 = zs_in S (zf_zstream f) @ zf_pending f" using r(5) pend by simp
  then have whole1: "zs_in S z @ zf_pending f1 @ drest d = whole" using whole by (metis append.assoc)
  with m r(4) wf show "mid M E S goal whole f1 d" by (simp add: mid_def f1_def)
  show "zs_out S z = zs_out S (zf_zstream f) @ new" "length new \<le> n"
    "ret = ZIP_OK M \<or> ZIP_CANT_PRODUCE_MORE M ret" "\<not> ZIP_INPUT_CORRUPTED M ret"
    "\<forall>avail. 0 < avail \<longrightarrow> \<not> ZIP_NEED_MORE_INPUT M avail ret" using r by blast+
  have "prefix (zs_in S z) goal" using whole1 laws(6) by (metis prefixI prefix_order.trans)
  with laws(2,3) r(4) have "length (zs_out S z) \<le> zs_bound S goal" by (simp add: bound_law_def)
  with r(1,3,6) pend show "zip_work S goal (drest d) f1 < zip_work S goal (drest d) f"
    by (cases new) (auto simp: zip_work_def f1_def)
qed

lemma pull_loop_ok:
  assumes "mid M E S goal whole f d" "length out \<le> sz" "sz < 2 ^ 32"
    and "\<forall>avail. 0 < avail \<longrightarrow> \<not> ZIP_NEED_MORE_INPUT M avail zret"
  shows "\<exists>err new f' d'. zip_pull_loop M E (Some h) False sz zret (length out) out (f, d)
      = Some ((err, length (out @ new), out @ new), f', d') \<and> pull_post M E S goal whole f d sz out err new f' d'"
  using assms(1,2,4)
proof (induction "zip_work S goal (drest d) f" arbitrary: f d out zret rule: less_induct)
  case less
  note m = less.prems(1)
  show ?case
  proof (cases "length out < sz")
    case False
    then show ?thesis
      using less.prems(1,2) by (subst zip_pull_loop.simps) (auto simp: pull_post_def)
  next
    case room: True
    show ?thesis
    proof (cases "zf_avail_in f = 0")
      case True
      have wf: "zf_wf f" "dinv d" using m by (simp_all add: mid_def)
      have "zf_pending f = []" using True by (simp add: zf_pending_def)
      show ?thesis
      proof (cases "drest d = []")
        case all: True
        obtain d' where d': "chop_filter_handle_input_fault (Some h) (length (zf_input_buffer f)) (f, d)
            = Some (CHOP_FILTER_UNHANDLED_FAULT, f, d')" "dinv d'" "drest d' = []"
          using feed [OF wf(2,1) True] all by auto
        have "mid M E S goal whole f d'" using m d' all by (simp add: mid_def)
        then show ?thesis
          using room True d' all \<open>zf_pending f = []\<close> by (subst zip_pull_loop.simps) (simp add: pull_post_def)
      next
        case False
        then obtain bs d' where d': "chop_filter_handle_input_fault (Some h) (length (zf_input_buffer f)) (f, d)
            = Some (CHOP_OK, zf_loaded bs f, d')" "dinv d'" "drest d = bs @ drest d'" "bs \<noteq> []"
            "length bs \<le> length (zf_input_buffer f)"
          using feed [OF wf(2,1) True] by auto
        have m': "mid M E S goal whole (zf_loaded bs f) d'"
          using m d' wf_loaded [OF wf(1) d'(5)] \<open>zf_pending f = []\<close> by (simp add: mid_def) (simp add: zf_loaded_def)
        have less': "zip_work S goal (drest d') (zf_loaded bs f) < zip_work S goal (drest d) f"
          using d'(3,4) \<open>zf_pending f = []\<close> by (simp add: zip_work_def) (simp add: zf_loaded_def)
        have "zs_out S (zf_zstream (zf_loaded bs f)) = zs_out S (zf_zstream f)" by (simp add: zf_loaded_def)
        then show ?thesis
          using less.hyps [OF less' m' less.prems(2,3)] room True d'(1) less'
          by (subst zip_pull_loop.simps) (auto simp: pull_post_def)
      qed
    next
      case False
      obtain ret k new z where p: "ZIP_PROCESS E False (zf_pending f) (sz - length out) (zf_zstream f) = (ret, k, new, z)"
        by (metis prod_cases4)
      have n: "0 < sz - length out" using room by simp
      note s = process_step [OF m False n p]
      let ?f = "f\<lparr>zf_next_in := zf_next_in f + k, zf_avail_in := zf_avail_in f - k, zf_zstream := z\<rparr>"
      have len: "length (out @ new) \<le> sz" using s(3) room by simp
      have need: "\<not> ((zf_avail_in f = 0 \<or> ZIP_NEED_MORE_INPUT M (zf_avail_in f) zret) \<and> \<not> False)"
        using False less.prems(3) by simp
      have sz: "sz mod 2 ^ 32 = sz" "sz - (sz - length (out @ new)) = length (out @ new)" using assms(3) len by simp_all
      show ?thesis
      proof (cases "ZIP_CANT_PRODUCE_MORE M ret")
        case True
        then have "zip_pull_loop M E (Some h) False sz zret (length out) out (f, d)
            = Some ((CHOP_OK, length (out @ new), out @ new), ?f, d)"
          using room need p s(5) sz by (subst zip_pull_loop.simps) (simp add: zf_pending_def)
        with s(1,2,7) len show ?thesis by (auto simp: pull_post_def)
      next
        case no: False
        then have "zip_pull_loop M E (Some h) False sz zret (length out) out (f, d)
            = zip_pull_loop M E (Some h) False sz ret (length (out @ new)) (out @ new) (?f, d)"
          using room need p s(4,5) sz by (subst zip_pull_loop.simps) (simp add: zf_pending_def)
        moreover obtain err new' f' d' where "zip_pull_loop M E (Some h) False sz ret (length (out @ new)) (out @ new) (?f, d)
            = Some ((err, length ((out @ new) @ new'), (out @ new) @ new'), f', d')"
          "pull_post M E S goal whole ?f d sz (out @ new) err new' f' d'"
          using less.hyps [OF s(7,1) len s(6)] by blast
        ultimately show ?thesis
          using s(2,7) by (intro exI [of _ err] exI [of _ "new @ new'"] exI [of _ f'] exI [of _ d'])
            (auto simp: pull_post_def)
      qed
    qed
  qed
qed


lemma pull_run:
  assumes "mid M E S goal whole f d" "0 < sz" "sz < 2 ^ 32"
  obtains err new f' d' where "zip_pull M E (Some h) False sz (f, d) = Some ((err, length new, new), f', d')"
    "mid M E S goal whole f' d'" "zs_out S (zf_zstream f') = zs_out S (zf_zstream f) @ new"
    "err = CHOP_OK \<and> zip_work S goal (drest d') f' < zip_work S goal (drest d) f
      \<or> err = CHOP_FILTER_EMPTY \<and> new = [] \<and> zf_pending f' = [] \<and> drest d' = []"
proof -
  have "\<forall>avail. 0 < avail \<longrightarrow> \<not> ZIP_NEED_MORE_INPUT M avail (ZIP_OK M)" using assms(1) by (simp add: mid_def zip_laws_def)
  with pull_loop_ok [OF assms(1) _ assms(3), of "[]" "ZIP_OK M"] obtain err new f' d' where
    r: "zip_pull_loop M E (Some h) False sz (ZIP_OK M) 0 [] (f, d) = Some ((err, length new, new), f', d')"
    and p: "pull_post M E S goal whole f d sz [] err new f' d'" by auto
  show thesis
  proof (cases "err = CHOP_FILTER_EMPTY \<and> new \<noteq> []")
    case True
    with r p assms(2) show ?thesis by (intro that [of CHOP_OK new f' d']) (auto simp: zip_pull_def pull_post_def)
  next
    case False
    with r p assms(2) show ?thesis by (intro that [of err new f' d']) (auto simp: zip_pull_def pull_post_def)
  qed
qed

text \<open>All input has been taken.\<close>

definition taken :: "zip_macros \<Rightarrow> 'z zip_engine \<Rightarrow> 'z zip_spec \<Rightarrow> bytes \<Rightarrow> 'z zip_filter \<Rightarrow> 'd \<Rightarrow> bool" where
  "taken M E S whole f d \<longleftrightarrow> zip_laws M E S \<and> zs_valid S whole \<and> zf_wf f \<and> zf_avail_in f = 0 \<and> dinv d \<and> drest d = []
     \<and> (zs_running S (zf_zstream f) \<or> zs_finishing S (zf_zstream f)) \<and> zs_in S (zf_zstream f) = whole"

lemma pull_flush_eq:
  assumes "zf_avail_in f = 0" "0 < sz" "sz < 2 ^ 32" "ZIP_PROCESS E True [] sz (zf_zstream f) = (ret, 0, new, z)"
    and "length new \<le> sz" "\<not> ZIP_INPUT_CORRUPTED M ret"
  shows "zip_pull M E ih True sz (f, d) =
    (if ZIP_STREAM_ENDED M ret \<and> new = []
     then Some ((CHOP_FILTER_EMPTY, 0, []), f\<lparr>zf_zstream := ZIP_RESET_PROCESSING E z\<rparr>, d)
     else Some ((CHOP_OK, length new, new), f\<lparr>zf_zstream := z\<rparr>, d))"
proof -
  have "f\<lparr>zf_avail_in := 0, zf_zstream := y\<rparr> = f\<lparr>zf_zstream := y\<rparr>" for y using assms(1) by (cases f) simp
  moreover have "sz mod 2 ^ 32 = sz" "sz \<le> sz - length new \<longleftrightarrow> new = []" using assms by (simp, cases new) simp_all
  ultimately have "zip_pull_loop M E ih True sz (ZIP_OK M) 0 [] (f, d) =
    (if ZIP_STREAM_ENDED M ret \<and> new = []
     then Some ((CHOP_FILTER_EMPTY, 0, []), f\<lparr>zf_zstream := ZIP_RESET_PROCESSING E z\<rparr>, d)
     else Some ((CHOP_OK, length new, new), f\<lparr>zf_zstream := z\<rparr>, d))"
    using assms by (subst zip_pull_loop.simps) (simp add: Let_def)
  then show ?thesis by (simp add: zip_pull_def)
qed

lemma pull_flush:
  assumes "taken M E S whole f d" "0 < sz" "sz < 2 ^ 32"
  obtains new z where "zip_pull M E (Some h) True sz (f, d) = Some ((CHOP_OK, length new, new), f\<lparr>zf_zstream := z\<rparr>, d)"
      "new \<noteq> []" "taken M E S whole (f\<lparr>zf_zstream := z\<rparr>) d" "zs_out S z = zs_out S (zf_zstream f) @ new"
  | z where "zip_pull M E (Some h) True sz (f, d) = Some ((CHOP_FILTER_EMPTY, 0, []), f\<lparr>zf_zstream := z\<rparr>, d)"
      "zs_out S (zf_zstream f) = zs_result S whole" "zs_running S z" "zs_in S z = []" "zs_out S z = []"
proof -
  obtain ret k new z where p: "ZIP_PROCESS E True [] sz (zf_zstream f) = (ret, k, new, z)" by (metis prod_cases4)
  have laws: "flush_law M E S" "zs_running S (zf_zstream f) \<or> zs_finishing S (zf_zstream f)"
    "zs_valid S (zs_in S (zf_zstream f))" "zf_avail_in f = 0"
    using assms(1) by (auto simp: taken_def zip_laws_def)
  note l = flush_lawD [OF laws(1-3) assms(2) p]
  have p0: "ZIP_PROCESS E True [] sz (zf_zstream f) = (ret, 0, new, z)" using p l(1) by simp
  note eq = pull_flush_eq [OF laws(4) assms(2,3) p0 l(2,3)]
  show thesis
  proof (cases "ZIP_STREAM_ENDED M ret \<and> new = []")
    case True
    with eq l(7) assms(1) show ?thesis by (intro that(2) [of "ZIP_RESET_PROCESSING E z"]) (simp_all add: taken_def)
  next
    case False
    moreover have "taken M E S whole (f\<lparr>zf_zstream := z\<rparr>) d"
      using assms(1) l(4,5) by (simp add: taken_def zf_wf_def)
    ultimately show ?thesis using eq l(6,7) by (intro that(1) [of new z]) auto
  qed
qed

section \<open>Filtering everything\<close>

lemma through_flush:
  assumes "taken M E S whole f d" "acc = zs_out S (zf_zstream f)"
  shows "\<exists>f' d'. filter_through_loop (zip_pull M E (Some h)) True acc (f, d) = Some (CHOP_OK, zs_result S whole, f', d')
    \<and> zf_idle M E S f' \<and> dinv d'"
  using assms
proof (induction "zs_bound S whole - length acc" arbitrary: f acc rule: less_induct)
  case less
  have sz: "0 < (1024 :: nat)" "(1024 :: nat) < 2 ^ 32" by simp_all
  from less.prems(1) sz show ?case
  proof (cases rule: pull_flush)
    case (1 new z)
    have "bound_law S" "zs_valid S whole" "zs_in S z = whole" "zs_running S z \<or> zs_finishing S z"
      using 1(3) by (auto simp: taken_def zip_laws_def)
    then have "length (zs_out S z) \<le> zs_bound S whole" by (auto simp: bound_law_def)
    with 1(2,4) less.prems(2) have "zs_bound S whole - length (acc @ new) < zs_bound S whole - length acc"
      by (cases new) auto
    from less.hyps [OF this 1(3)] 1(1,4) less.prems(2) show ?thesis by (subst filter_through_loop.simps) simp
  next
    case (2 z)
    moreover have "zf_idle M E S (f\<lparr>zf_zstream := z\<rparr>)" "dinv d"
      using 2 less.prems(1) by (auto simp: zf_idle_def taken_def zf_wf_def)
    ultimately show ?thesis using less.prems(2) by (subst filter_through_loop.simps) simp
  qed
qed

lemma through_run:
  assumes "mid M E S goal whole f d" "acc = zs_out S (zf_zstream f)"
  shows "\<exists>acc' f' d'. filter_through_loop (zip_pull M E (Some h)) False acc (f, d)
      = filter_through_loop (zip_pull M E (Some h)) True acc' (f', d')
    \<and> acc' = zs_out S (zf_zstream f') \<and> mid M E S goal whole f' d' \<and> zf_pending f' = [] \<and> drest d' = []"
  using assms
proof (induction "zip_work S goal (drest d) f" arbitrary: f d acc rule: less_induct)
  case less
  have sz: "0 < (1024 :: nat)" "(1024 :: nat) < 2 ^ 32" by simp_all
  from less.prems(1) sz obtain err new f' d' where
    r: "zip_pull M E (Some h) False 1024 (f, d) = Some ((err, length new, new), f', d')"
    "mid M E S goal whole f' d'" "zs_out S (zf_zstream f') = zs_out S (zf_zstream f) @ new"
    "err = CHOP_OK \<and> zip_work S goal (drest d') f' < zip_work S goal (drest d) f
      \<or> err = CHOP_FILTER_EMPTY \<and> new = [] \<and> zf_pending f' = [] \<and> drest d' = []"
    by (rule pull_run)
  show ?case
  proof (cases "err = CHOP_OK")
    case True
    with r(4) have "zip_work S goal (drest d') f' < zip_work S goal (drest d) f" by auto
    from less.hyps [OF this r(2)] True r(1,3) less.prems(2) show ?thesis by (subst filter_through_loop.simps) simp
  next
    case False
    with r(4) have e: "err = CHOP_FILTER_EMPTY" "new = []" by auto
    have "filter_through_loop (zip_pull M E (Some h)) False acc (f, d)
        = filter_through_loop (zip_pull M E (Some h)) True acc (f', d')"
      by (subst filter_through_loop.simps) (simp add: r(1) e)
    moreover have "acc = zs_out S (zf_zstream f')" using r(3) e(2) less.prems(2) by simp
    ultimately show ?thesis using r(2,4) False by blast
  qed
qed

lemma through_ok:
  assumes "mid M E S whole whole f d" "acc = zs_out S (zf_zstream f)"
  shows "\<exists>f' d'. filter_through_loop (zip_pull M E (Some h)) False acc (f, d) = Some (CHOP_OK, zs_result S whole, f', d')
    \<and> zf_idle M E S f' \<and> dinv d'"
proof -
  from through_run [OF assms] obtain acc' f' d' where r:
    "filter_through_loop (zip_pull M E (Some h)) False acc (f, d)
      = filter_through_loop (zip_pull M E (Some h)) True acc' (f', d')"
    "acc' = zs_out S (zf_zstream f')" "mid M E S whole whole f' d'" "zf_pending f' = []" "drest d' = []" by blast
  have "zf_avail_in f' = 0" using r(3,4) length_pending [of f'] by (simp add: mid_def)
  with r have "taken M E S whole f' d'" by (auto simp: mid_def taken_def)
  from through_flush [OF this r(2)] r(1) show ?thesis by simp
qed

end

text \<open>Input that ends before the stream does: every further pull succeeds, so that the loop goes on for ever.\<close>

definition stall_law :: "zip_macros \<Rightarrow> 'z zip_engine \<Rightarrow> 'z zip_spec \<Rightarrow> bool" where
  "stall_law M E S \<longleftrightarrow>
    (\<forall>z goal n ret k out z'. zs_running S z \<longrightarrow> zs_valid S goal \<longrightarrow> strict_prefix (zs_in S z) goal
        \<longrightarrow> 0 < n \<longrightarrow> ZIP_PROCESS E True [] n z = (ret, k, out, z') \<longrightarrow>
       k = 0 \<and> length out \<le> n \<and> zs_running S z' \<and> zs_in S z' = zs_in S z
       \<and> \<not> ZIP_INPUT_CORRUPTED M ret \<and> \<not> ZIP_STREAM_ENDED M ret)"

definition stalled :: "zip_macros \<Rightarrow> 'z zip_engine \<Rightarrow> 'z zip_spec \<Rightarrow> bytes \<Rightarrow> 'z zip_filter \<Rightarrow> bool" where
  "stalled M E S goal f \<longleftrightarrow> stall_law M E S \<and> zs_valid S goal \<and> zf_avail_in f = 0 \<and> zs_running S (zf_zstream f)
     \<and> strict_prefix (zs_in S (zf_zstream f)) goal"

lemma pull_stalled:
  assumes "stalled M E S goal f" "0 < sz" "sz < 2 ^ 32"
  obtains new f' where "zip_pull M E ih True sz (f, d) = Some ((CHOP_OK, length new, new), f', d)" "stalled M E S goal f'"
proof -
  obtain ret k new z where p: "ZIP_PROCESS E True [] sz (zf_zstream f) = (ret, k, new, z)" by (metis prod_cases4)
  have a: "stall_law M E S" "zs_running S (zf_zstream f)" "zs_valid S goal" "strict_prefix (zs_in S (zf_zstream f)) goal"
    "zf_avail_in f = 0" using assms(1) by (simp_all add: stalled_def)
  note l = a(1) [unfolded stall_law_def, rule_format, OF a(2-4) assms(2) p]
  have "ZIP_PROCESS E True [] sz (zf_zstream f) = (ret, 0, new, z)" using p l by simp
  from fault_source.pull_flush_eq [OF buffer_source.fault_source_axioms a(5) assms(2,3) this, of M ih d] l show thesis
    by (intro that [of new "f\<lparr>zf_zstream := z\<rparr>"]) (simp_all add: stalled_def a)
qed

lemma through_stalled:
  assumes "stalled M E S goal f"
  shows "filter_through_loop (zip_pull M E ih) True acc (f, d) = None"
proof (rule ccontr)
  assume "filter_through_loop (zip_pull M E ih) True acc (f, d) \<noteq> None"
  then obtain r where r: "filter_through_loop (zip_pull M E ih) True acc (f, d) = Some r" by blast
  have "pull = zip_pull M E ih \<longrightarrow> flush \<longrightarrow> stalled M E S goal (fst s) \<longrightarrow> False"
    if "filter_through_loop pull flush acc s = Some r" for pull flush acc s r
    using _ that
  proof (rule filter_through_loop.raw_induct
      [where P = "\<lambda>pull flush acc s r. pull = zip_pull M E ih \<longrightarrow> flush \<longrightarrow> stalled M E S goal (fst s) \<longrightarrow> False"], goal_cases)
    case (1 rec pull flush acc s r)
    show ?case
    proof (intro impI)
      assume p: "pull = zip_pull M E ih" and flush and st: "stalled M E S goal (fst s)"
      have sz: "0 < (1024 :: nat)" "(1024 :: nat) < 2 ^ 32" by simp_all
      from st sz obtain new f' where n: "zip_pull M E ih True 1024 (fst s, snd s) = Some ((CHOP_OK, length new, new), f', snd s)"
        "stalled M E S goal f'" by (rule pull_stalled)
      have "rec pull True (acc @ new) (f', snd s) = Some r"
        using 1(2) p \<open>flush\<close> n(1) by simp
      from 1(1) [OF this] p n(2) show False by simp
    qed
  qed
  from this [OF r] assms show False by simp
qed

section \<open>Main properties\<close>

lemma idle_mid:
  assumes "zf_idle M E S f" "zs_valid S goal" "prefix input goal"
  shows "buffer_source.mid M E S goal input f \<lparr>ib_buffer = input, ib_read = 0\<rparr>"
  using assms length_pending [of f] by (simp add: zf_idle_def buffer_source.mid_def)

text \<open>filtering a buffer through a compressing or decompressing filter over zlib or bzip2 ends with
  success and gives what the library computes for the whole buffer, however many rounds of loading the
  filter's input buffer, of processing and of pulling 1024 bytes that takes; and the filter is
  ready for the next buffer.\<close>

theorem filter_through_computes:
  assumes "zf_idle M E S f" and "zs_valid S input"
  shows "\<exists>f'. chop_filter_through (zip_push None) (zip_pull M E) f input = Some (CHOP_OK, zs_result S input, f')
    \<and> zf_idle M E S f'"
  using buffer_source.through_ok [OF idle_mid [OF assms prefix_order.refl]] assms(1)
  by (auto simp: chop_filter_through_def zf_idle_def)

text \<open>C28: a compressed block that was cut short makes decompression hang.  If the input of a
  decompressing filter ends before the compressed stream does, the library makes no progress and never
  says that the stream has ended, and \<^verbatim>\<open>chop_filter_through\<close> pulls nothing for ever instead of
  returning an error.\<close>

theorem filter_through_truncated_diverges:
  assumes "zf_idle M E S f" and "stall_law M E S" and "zs_valid S goal" and "strict_prefix input goal"
  shows "chop_filter_through (zip_push None) (zip_pull M E) f input = None"
proof -
  let ?d = "\<lparr>ib_buffer = input, ib_read = 0\<rparr>"
  have "prefix input goal" using assms(4) by (simp add: strict_prefix_def)
  from buffer_source.through_run [OF idle_mid [OF assms(1,3) this]] obtain f' d' acc where
    r: "filter_through_loop (zip_pull M E (Some (handle_input_fault_from_buffer (zip_push None)))) False [] (f, ?d)
      = filter_through_loop (zip_pull M E (Some (handle_input_fault_from_buffer (zip_push None)))) True acc (f', d')"
    "buffer_source.mid M E S goal input f' d'" "zf_pending f' = []" "ib_buffer d' = []"
    using assms(1) by (auto simp: zf_idle_def)
  have "zf_avail_in f' = 0" using r(2,3) length_pending [of f'] by (simp add: buffer_source.mid_def)
  with r(2-4) assms(2-4) have "stalled M E S goal f'" by (simp add: stalled_def buffer_source.mid_def)
  from through_stalled [OF this] r(1) show ?thesis by (simp add: chop_filter_through_def)
qed

section \<open>A library\<close>

text \<open>One that collects its input and transforms it when it is flushed: packing writes a one before every
  byte and a zero at the end.\<close>

record keep_state =
  ks_in :: bytes
  ks_out :: bytes
  ks_fin :: bool

definition keep_new :: keep_state where
  "keep_new = \<lparr>ks_in = [], ks_out = [], ks_fin = False\<rparr>"

definition keep_engine :: "(bytes \<Rightarrow> bytes option) \<Rightarrow> keep_state zip_engine" where
  "keep_engine g = \<lparr>
     ZIP_PROCESS = (\<lambda>flush input n z.
       if \<not> flush then (Z_OK, length input, [], z\<lparr>ks_in := ks_in z @ input\<rparr>)
       else (case g (ks_in z) of
               None \<Rightarrow> (Z_BUF_ERROR, 0, [], z)
             | Some r \<Rightarrow> let new = take n (drop (length (ks_out z)) r) in
                 (if new = [] then Z_STREAM_END else Z_OK, 0, new, z\<lparr>ks_out := ks_out z @ new, ks_fin := True\<rparr>))),
     ZIP_RESET_PROCESSING = (\<lambda>z. keep_new)\<rparr>"

definition keep_spec :: "(bytes \<Rightarrow> bytes option) \<Rightarrow> keep_state zip_spec" where
  "keep_spec g = \<lparr>zs_valid = (\<lambda>s. g s \<noteq> None), zs_result = (\<lambda>s. the (g s)), zs_bound = (\<lambda>s. length (the (g s))),
     zs_in = ks_in, zs_out = ks_out, zs_running = (\<lambda>z. \<not> ks_fin z \<and> ks_out z = []),
     zs_finishing = (\<lambda>z. ks_fin z \<and> prefix (ks_out z) (the (g (ks_in z))))\<rparr>"

lemma keep_bound: "bound_law (keep_spec g)"
  by (auto simp: bound_law_def keep_spec_def prefix_length_le)

lemma keep_flush:
  assumes "M = zlib_zip \<or> M = zlib_unzip"
  shows "flush_law M (keep_engine g) (keep_spec g)"
  unfolding flush_law_def
proof (intro allI impI, goal_cases)
  case (1 z n ret k out z')
  from 1(2) obtain r where r: "g (ks_in z) = Some r" by (auto simp: keep_spec_def)
  have pre: "prefix (ks_out z) r" using 1(1) r by (auto simp: keep_spec_def)
  have out: "out = take n (drop (length (ks_out z)) r)" "k = 0" "ret = (if out = [] then Z_STREAM_END else Z_OK)"
    "z' = z\<lparr>ks_out := ks_out z @ out, ks_fin := True\<rparr>"
    using 1(4) r by (auto simp: keep_engine_def Let_def)
  have "prefix (ks_out z @ out) r" using pre unfolding out(1) by (auto simp: prefix_def) (metis append_take_drop_id)
  moreover have "out = [] \<Longrightarrow> ks_out z = r" using pre 1(3) by (auto simp: out(1) prefix_def)
  moreover have "length out \<le> n" by (simp add: out(1))
  ultimately show ?case
    unfolding out(2-4) using assms r
    by (cases "out = []") (auto simp: keep_spec_def keep_engine_def keep_new_def zlib_zip_def zlib_unzip_def zip_codes)
qed

lemma keep_laws:
  assumes "M = zlib_zip \<or> M = zlib_unzip"
  shows "zip_laws M (keep_engine g) (keep_spec g)"
proof -
  have "run_law M (keep_engine g) (keep_spec g)"
    using assms by (auto simp: run_law_def keep_engine_def keep_spec_def zlib_zip_def zlib_unzip_def zip_codes)
  with keep_bound keep_flush [OF assms] show ?thesis
    using assms by (auto simp: zip_laws_def zlib_zip_def zlib_unzip_def zip_codes)
qed

fun pack :: "bytes \<Rightarrow> bytes" where
  "pack [] = [0]"
| "pack (b # bs) = 1 # b # pack bs"

fun unpack :: "bytes \<Rightarrow> bytes option" where
  "unpack [] = None"
| "unpack [c] = (if c = 0 then Some [] else None)"
| "unpack (c # b # bs) = (if c = 1 then map_option ((#) b) (unpack bs) else None)"

lemma unpack_pack [simp]: "unpack (pack bs) = Some bs"
  by (induction bs) auto

lemma unpack_strict_prefix: "unpack s = Some x \<Longrightarrow> strict_prefix p s \<Longrightarrow> unpack p = None"
proof (induction s arbitrary: x p rule: unpack.induct)
  case (3 c b bs)
  then show ?case by (cases p rule: unpack.cases) (auto split: if_splits)
qed (auto simp: strict_prefix_def prefix_Cons split: if_splits)

lemma unpack_stalls: "stall_law zlib_unzip (keep_engine unpack) (keep_spec unpack)"
proof -
  have "unpack p = None" if "strict_prefix p s" "unpack s \<noteq> None" for p s
    using unpack_strict_prefix that by blast
  then show ?thesis
    by (auto simp: stall_law_def keep_engine_def keep_spec_def zlib_unzip_def zip_codes)
qed

text \<open>Filters with a buffer of two bytes.\<close>

definition sample_zip :: "keep_state zip_filter" where
  "sample_zip = chop_zlib_zip_filter_init (\<lambda>level. keep_new) (\<lambda>_. 0) 6 2"

definition sample_unzip :: "keep_state zip_filter" where
  "sample_unzip = chop_zlib_unzip_filter_init keep_new (\<lambda>_. 0) 2"

lemma sample_zip_idle: "zf_idle zlib_zip (keep_engine (Some \<circ> pack)) (keep_spec (Some \<circ> pack)) sample_zip"
  unfolding zf_idle_def
  by (intro conjI keep_laws)
    (simp_all add: sample_zip_def chop_zlib_zip_filter_init_def zip_filter_new_def zf_wf_def keep_spec_def keep_new_def)

lemma sample_unzip_idle: "zf_idle zlib_unzip (keep_engine unpack) (keep_spec unpack) sample_unzip"
  unfolding zf_idle_def
  by (intro conjI keep_laws)
    (simp_all add: sample_unzip_def chop_zlib_unzip_filter_init_def zip_filter_new_def zf_wf_def keep_spec_def keep_new_def)

theorem filter_through_computes_witness:
  "\<exists>f'. chop_filter_through (zip_push None) (zip_pull zlib_zip (keep_engine (Some \<circ> pack))) sample_zip [7, 8, 9]
    = Some (CHOP_OK, [1, 7, 1, 8, 1, 9, 0], f')"
  using filter_through_computes [OF sample_zip_idle, of "[7, 8, 9]"] by (auto simp: keep_spec_def)

theorem filter_through_truncated_diverges_witness:
  "chop_filter_through (zip_push None) (zip_pull zlib_unzip (keep_engine unpack)) sample_unzip [1, 7] = None"
  by (rule filter_through_truncated_diverges [OF sample_unzip_idle unpack_stalls, of "[1, 7, 0]"])
    (simp_all add: keep_spec_def)

end
