(* ===== verification/Chop_Filtered.thy ===== *)
theory Chop_Filtered
  imports Chop_Stores Chop_Filters_Correct
begin

text \<open>
  The store that filters its blocks (\<^verbatim>\<open>src/src/store-filtered.c\<close>) and the stream that filters another
  stream (\<^verbatim>\<open>src/src/stream-filtered.c\<close>), over filters that keep the contract \<open>block_filter\<close>.
\<close>

section \<open>The filtered store\<close>

text \<open>A filter's methods; the store's world is its two filters and the world of the backend.\<close>

record 'f filter_methods =
  flt_push :: "(input_buffer, 'f) filter_push"
  flt_pull :: "(input_buffer, 'f) filter_pull"

definition filter_through :: "'f filter_methods \<Rightarrow> 'f \<Rightarrow> bytes \<Rightarrow> (chop_error \<times> bytes \<times> 'f) option" where
  "filter_through fm = chop_filter_through (flt_push fm) (flt_pull fm)"

record ('f, 'g, 'w) filtered_store =
  fb_input_filter :: 'f
  fb_output_filter :: 'g
  fb_backend :: 'w

definition filtered_blocks_exist ::
  "'w block_store \<Rightarrow> ('f, 'g, 'w) filtered_store \<Rightarrow> block_key list \<Rightarrow> bool list
     \<Rightarrow> (chop_error \<times> bool list) \<times> ('f, 'g, 'w) filtered_store" where
  "filtered_blocks_exist backend s keys exists =
    map_prod (\<lambda>r. r) (\<lambda>w. s\<lparr>fb_backend := w\<rparr>) (chop_store_blocks_exist backend (fb_backend s) keys exists)"

definition filtered_read_block ::
  "'g filter_methods \<Rightarrow> 'w block_store \<Rightarrow> ('f, 'g, 'w) filtered_store \<Rightarrow> block_key \<Rightarrow> bytes
     \<Rightarrow> ((chop_error \<times> bytes \<times> nat) \<times> ('f, 'g, 'w) filtered_store) option" where
  "filtered_read_block output_filter backend s key buffer =
    (case chop_store_read_block backend (fb_backend s) key [] of ((err, unfiltered, sz), w) \<Rightarrow>
      if err \<noteq> CHOP_OK then Some ((err, buffer, sz), s\<lparr>fb_backend := w\<rparr>)
      else map_option (\<lambda>(err, buffer', f). ((err, buffer', length buffer'), s\<lparr>fb_backend := w, fb_output_filter := f\<rparr>))
        (filter_through output_filter (fb_output_filter s) unfiltered))"

definition filtered_write_block ::
  "'f filter_methods \<Rightarrow> 'w block_store \<Rightarrow> ('f, 'g, 'w) filtered_store \<Rightarrow> block_key \<Rightarrow> bytes
     \<Rightarrow> (chop_error \<times> ('f, 'g, 'w) filtered_store) option" where
  "filtered_write_block input_filter backend s key block =
    Option.bind (filter_through input_filter (fb_input_filter s) block) (\<lambda>(err, filtered_buffer, f).
      if err \<noteq> CHOP_OK then Some (err, s\<lparr>fb_input_filter := f\<rparr>)
      else (case chop_store_write_block backend (fb_backend s) key filtered_buffer of (err, w) \<Rightarrow>
        Some (err, s\<lparr>fb_input_filter := f, fb_backend := w\<rparr>)))"

definition filtered_delete_block ::
  "'w block_store \<Rightarrow> ('f, 'g, 'w) filtered_store \<Rightarrow> block_key \<Rightarrow> chop_error \<times> ('f, 'g, 'w) filtered_store" where
  "filtered_delete_block backend s key =
    map_prod (\<lambda>r. r) (\<lambda>w. s\<lparr>fb_backend := w\<rparr>) (chop_store_delete_block backend (fb_backend s) key)"

definition filtered_first_block ::
  "'w block_store \<Rightarrow> ('f, 'g, 'w) filtered_store
     \<Rightarrow> (chop_error \<times> block_iterator option) \<times> ('f, 'g, 'w) filtered_store" where
  "filtered_first_block backend s =
    map_prod (\<lambda>r. r) (\<lambda>w. s\<lparr>fb_backend := w\<rparr>) (chop_store_first_block backend (fb_backend s))"

definition filtered_sync ::
  "'w block_store \<Rightarrow> ('f, 'g, 'w) filtered_store \<Rightarrow> chop_error \<times> ('f, 'g, 'w) filtered_store" where
  "filtered_sync backend s = map_prod (\<lambda>r. r) (\<lambda>w. s\<lparr>fb_backend := w\<rparr>) (chop_store_sync backend (fb_backend s))"

definition filtered_close ::
  "chop_proxy_semantics \<Rightarrow> 'w block_store \<Rightarrow> ('f, 'g, 'w) filtered_store
     \<Rightarrow> chop_error \<times> ('f, 'g, 'w) filtered_store" where
  "filtered_close backend_ps backend s =
    (if backend_ps = CHOP_PROXY_LEAVE_AS_IS then (CHOP_OK, s)
     else map_prod (\<lambda>r. r) (\<lambda>w. s\<lparr>fb_backend := w\<rparr>) (chop_store_close backend (fb_backend s)))"

definition chop_filtered_store_open :: "'f \<Rightarrow> 'g \<Rightarrow> 'w \<Rightarrow> ('f, 'g, 'w) filtered_store" where
  "chop_filtered_store_open input_filter output_filter backend =
    \<lparr>fb_input_filter = input_filter, fb_output_filter = output_filter, fb_backend = backend\<rparr>"

section \<open>The contract of a filter\<close>

text \<open>A filter that is ready turns a valid buffer into its image and is ready again.\<close>

locale block_filter =
  fixes fm :: "'f filter_methods"
    and ready :: "'f \<Rightarrow> bool"
    and valid :: "bytes \<Rightarrow> bool"
    and image :: "bytes \<Rightarrow> bytes"
  assumes through_law:
    "ready f \<Longrightarrow> valid bs \<Longrightarrow> \<exists>f'. filter_through fm f bs = Some (CHOP_OK, image bs, f') \<and> ready f'"

definition zip_methods :: "zip_macros \<Rightarrow> 'z zip_engine \<Rightarrow> 'z zip_filter filter_methods" where
  "zip_methods M E = \<lparr>flt_push = zip_push None, flt_pull = zip_pull M E\<rparr>"

interpretation zip: block_filter "zip_methods M E" "zf_idle M E S" "zs_valid S" "zs_result S"
  for M and E :: "'z zip_engine" and S
proof (unfold_locales, goal_cases)
  case (1 f bs)
  from buffer_source.through_ok [OF idle_mid [OF 1 prefix_order.refl]] 1(1) show ?case
    by (auto simp: filter_through_def zip_methods_def chop_filter_through_def zf_idle_def)
qed

section \<open>A filtered store over any store\<close>

locale filtered_over = backend: map_store backend inv contents
    + fin: block_filter fi ready_in valid_in image_in + fout: block_filter fo ready_out valid_out image_out
  for backend :: "'w block_store" and inv contents
    and fi :: "'f filter_methods" and ready_in valid_in image_in
    and fo :: "'g filter_methods" and ready_out valid_out image_out
begin

definition filtered_inv :: "('f, 'g, 'w) filtered_store \<Rightarrow> bool" where
  "filtered_inv s \<longleftrightarrow> (\<forall>b. valid_in b \<longrightarrow> valid_out (image_in b) \<and> image_out (image_in b) = b)
     \<and> ready_in (fb_input_filter s) \<and> ready_out (fb_output_filter s) \<and> inv (fb_backend s)
     \<and> (\<forall>k c. contents (fb_backend s) k = Some c \<longrightarrow> (\<exists>b. valid_in b \<and> c = image_in b))"

definition filtered_contents :: "('f, 'g, 'w) filtered_store \<Rightarrow> block_key \<rightharpoonup> bytes" where
  "filtered_contents s k = map_option image_out (contents (fb_backend s) k)"

lemma filtered_read:
  assumes "filtered_inv s"
  shows "\<exists>s'. filtered_read_block fo backend s key buffer =
      Some (case filtered_contents s key of Some b \<Rightarrow> (CHOP_OK, b, length b) | None \<Rightarrow> (CHOP_STORE_BLOCK_UNAVAIL, buffer, 0), s')
    \<and> filtered_inv s' \<and> filtered_contents s' = filtered_contents s"
proof -
  obtain r w where r: "chop_store_read_block backend (fb_backend s) key [] = (r, w)" by (metis prod.exhaust)
  have inv: "inv (fb_backend s)" using assms by (simp add: filtered_inv_def)
  note l = backend.read_block_law [OF inv r]
  show ?thesis
  proof (cases "contents (fb_backend s) key")
    case None
    with l r assms show ?thesis
      by (simp add: filtered_read_block_def filtered_contents_def filtered_inv_def fun_eq_iff)
  next
    case (Some c)
    then obtain b where b: "valid_in b" "c = image_in b" using assms unfolding filtered_inv_def by blast
    with assms have v: "valid_out c" "image_out c = b" "ready_out (fb_output_filter s)" by (auto simp: filtered_inv_def)
    from fout.through_law [OF v(3,1)] obtain f where
      "filter_through fo (fb_output_filter s) c = Some (CHOP_OK, b, f)" "ready_out f" using v(2) by auto
    with Some l r v(2) assms show ?thesis
      by (simp add: filtered_read_block_def filtered_contents_def filtered_inv_def fun_eq_iff)
  qed
qed

lemma filtered_write:
  assumes "filtered_inv s" "valid_in block"
  shows "\<exists>err s' w'. filtered_write_block fi backend s key block = Some (err, s') \<and> filtered_inv s'
    \<and> chop_store_write_block backend (fb_backend s) key (image_in block) = (err, w') \<and> fb_backend s' = w'
    \<and> (if err = CHOP_OK
       then filtered_contents s' = (filtered_contents s)(key \<mapsto> block)
            \<or> key \<in> dom (filtered_contents s) \<and> filtered_contents s' = filtered_contents s
       else filtered_contents s' = filtered_contents s)"
proof -
  have a: "ready_in (fb_input_filter s)" "inv (fb_backend s)" "image_out (image_in block) = block"
    using assms by (simp_all add: filtered_inv_def)
  from fin.through_law [OF a(1) assms(2)] obtain f where
    f: "filter_through fi (fb_input_filter s) block = Some (CHOP_OK, image_in block, f)" "ready_in f" by blast
  obtain err w where r: "chop_store_write_block backend (fb_backend s) key (image_in block) = (err, w)"
    by (metis prod.exhaust)
  note l = backend.write_block_law [OF a(2) r]
  have "filtered_inv (s\<lparr>fb_input_filter := f, fb_backend := w\<rparr>)"
    using assms l f(2) by (auto simp: filtered_inv_def split: if_splits)
  with f(1) r l a(3) show ?thesis
    by (auto simp: filtered_write_block_def filtered_contents_def fun_eq_iff split: if_splits)
qed

lemma filtered_delete:
  assumes "filtered_inv s" "filtered_delete_block backend s key = (err, s')"
  shows "filtered_inv s' \<and> (if err = CHOP_OK
      then key \<in> dom (filtered_contents s) \<and> filtered_contents s' = (filtered_contents s)(key := None)
      else filtered_contents s' = filtered_contents s)"
proof -
  obtain w where r: "chop_store_delete_block backend (fb_backend s) key = (err, w)" "s' = s\<lparr>fb_backend := w\<rparr>"
    using assms(2) by (cases "chop_store_delete_block backend (fb_backend s) key") (auto simp: filtered_delete_block_def)
  have "inv (fb_backend s)" using assms(1) by (simp add: filtered_inv_def)
  note l = backend.delete_block_law [OF this r(1)]
  with assms(1) r(2) show ?thesis
    by (auto simp: filtered_inv_def filtered_contents_def fun_eq_iff dom_def split: if_splits)
qed

end

section \<open>Sequences of writes and deletions\<close>

primrec filtered_cmd ::
  "'f filter_methods \<Rightarrow> 'w block_store \<Rightarrow> store_cmd \<Rightarrow> ('f, 'g, 'w) filtered_store
     \<Rightarrow> (chop_error \<times> ('f, 'g, 'w) filtered_store) option" where
  "filtered_cmd fi backend (Write_Block key block) s = filtered_write_block fi backend s key block"
| "filtered_cmd fi backend (Delete_Block key) s = Some (filtered_delete_block backend s key)"

primrec filtered_cmds ::
  "'f filter_methods \<Rightarrow> 'w block_store \<Rightarrow> store_cmd list \<Rightarrow> ('f, 'g, 'w) filtered_store
     \<Rightarrow> (chop_error list \<times> ('f, 'g, 'w) filtered_store) option" where
  "filtered_cmds fi backend [] s = Some ([], s)"
| "filtered_cmds fi backend (c # cs) s =
    Option.bind (filtered_cmd fi backend c s) (\<lambda>(err, s').
      map_option (\<lambda>(errs, s''). (err # errs, s'')) (filtered_cmds fi backend cs s'))"

primrec cmd_valid :: "(bytes \<Rightarrow> bool) \<Rightarrow> store_cmd \<Rightarrow> bool" where
  "cmd_valid valid (Write_Block key block) = valid block"
| "cmd_valid valid (Delete_Block key) = True"

locale filtered_replacing = filtered_over + replacing_store backend inv contents
begin

lemma filtered_cmd_refines:
  assumes "filtered_inv s" "cmd_valid valid_in c"
  shows "\<exists>err s'. filtered_cmd fi backend c s = Some (err, s') \<and> filtered_inv s'
    \<and> filtered_contents s' = (if err = CHOP_OK then map_cmd c (filtered_contents s) else filtered_contents s)"
proof (cases c)
  case (Write_Block key block)
  then have "valid_in block" using assms(2) by simp
  from filtered_write [OF assms(1) this, of key] obtain err s' w' where
    r: "filtered_write_block fi backend s key block = Some (err, s')" "filtered_inv s'"
    "chop_store_write_block backend (fb_backend s) key (image_in block) = (err, w')" "fb_backend s' = w'"
    "err \<noteq> CHOP_OK \<Longrightarrow> filtered_contents s' = filtered_contents s" by (auto split: if_splits)
  have a: "inv (fb_backend s)" "image_out (image_in block) = block"
    using assms(1) \<open>valid_in block\<close> by (simp_all add: filtered_inv_def)
  have "filtered_contents s' = (filtered_contents s)(key \<mapsto> block)" if "err = CHOP_OK"
    using write_replaces [OF a(1)] r(3,4) that a(2) by (simp add: filtered_contents_def fun_eq_iff)
  with r show ?thesis by (simp add: Write_Block)
next
  case (Delete_Block key)
  then show ?thesis
    using filtered_delete [OF assms(1), of key] by (cases "filtered_delete_block backend s key") (auto split: if_splits)
qed

lemma filtered_cmds_refines:
  assumes "filtered_inv s" "list_all (cmd_valid valid_in) cs"
  shows "\<exists>errs s'. filtered_cmds fi backend cs s = Some (errs, s') \<and> length errs = length cs \<and> filtered_inv s'
    \<and> filtered_contents s' = map_cmds (zip cs errs) (filtered_contents s)"
  using assms
proof (induction cs arbitrary: s)
  case (Cons c cs)
  then obtain err s1 where c: "filtered_cmd fi backend c s = Some (err, s1)" "filtered_inv s1"
    "filtered_contents s1 = (if err = CHOP_OK then map_cmd c (filtered_contents s) else filtered_contents s)"
    using filtered_cmd_refines [of s c] by auto
  from Cons.IH [OF c(2)] Cons.prems(2) obtain errs s2 where "filtered_cmds fi backend cs s1 = Some (errs, s2)"
    "length errs = length cs" "filtered_inv s2" "filtered_contents s2 = map_cmds (zip cs errs) (filtered_contents s1)"
    by auto
  with c show ?case by (auto intro!: exI [of _ "err # errs"])
qed simp

text \<open>Starting from an empty backend.\<close>

lemma filtered_run_reads:
  assumes "\<forall>b. valid_in b \<longrightarrow> valid_out (image_in b) \<and> image_out (image_in b) = b"
    and "ready_in f" "ready_out g" "inv w" "contents w = Map.empty" "list_all (cmd_valid valid_in) cs"
  shows "\<exists>errs s'. filtered_cmds fi backend cs (chop_filtered_store_open f g w) = Some (errs, s')
    \<and> length errs = length cs
    \<and> (\<exists>s''. filtered_read_block fo backend s' key buffer =
         Some (case map_cmds (zip cs errs) Map.empty key of
             Some b \<Rightarrow> (CHOP_OK, b, length b)
           | None \<Rightarrow> (CHOP_STORE_BLOCK_UNAVAIL, buffer, 0), s''))"
proof -
  let ?s = "chop_filtered_store_open f g w"
  have inv: "filtered_inv ?s" unfolding filtered_inv_def chop_filtered_store_open_def using assms by simp
  have empty: "filtered_contents ?s = Map.empty"
    using assms(5) by (simp add: filtered_contents_def chop_filtered_store_open_def fun_eq_iff)
  from filtered_cmds_refines [OF inv assms(6)] obtain errs s' where
    r: "filtered_cmds fi backend cs ?s = Some (errs, s')" "length errs = length cs" "filtered_inv s'"
    "filtered_contents s' = map_cmds (zip cs errs) Map.empty"
    unfolding empty by blast
  from filtered_read [OF r(3), of key buffer] r show ?thesis by auto
qed

end

interpretation zip_db: filtered_replacing "generic_db_store ops" "\<lambda>s. db_laws ops m \<and> db_open s" "\<lambda>s. m (db s)"
    "zip_methods M E" "zf_idle M E S" "zs_valid S" "zs_result S"
    "zip_methods M' E'" "zf_idle M' E' S'" "zs_valid S'" "zs_result S'"
  for ops :: "'d db_ops" and m and M and E :: "'z zip_engine" and S and M' and E' :: "'y zip_engine" and S'
  by unfold_locales



section \<open>The filtered stream\<close>

record ('f, 's) filtered_stream =
  fsr_filter :: 'f
  fsr_backend :: 's
  fsr_flushing :: bool
  fsr_finished :: bool

text \<open>An assertion fails where not all was pushed.\<close>

definition handle_input_fault :: "'s stream_read \<Rightarrow> ('s, 'f) filter_push \<Rightarrow> ('s, 'f) fault_handler" where
  "handle_input_fault rd push fs how_much =
    (case fs of (f, s) \<Rightarrow>
      Option.bind (chop_stream_read rd s how_much) (\<lambda>(err, buffer, s1).
        if err = CHOP_OK then
          Option.bind (push buffer (f, s1)) (\<lambda>((err, pushed), f1, s2).
            if err = CHOP_OK \<and> pushed \<noteq> length buffer then None
            else Some (if err = CHOP_STREAM_END then CHOP_FILTER_UNHANDLED_FAULT else err, f1, s2))
        else Some (if err = CHOP_STREAM_END then CHOP_FILTER_UNHANDLED_FAULT else err, f, s1)))"

definition filtered_stream_read ::
  "(bool \<Rightarrow> nat \<Rightarrow> 'f \<times> 's \<Rightarrow> ((chop_error \<times> nat \<times> bytes) \<times> 'f \<times> 's) option) \<Rightarrow> ('f, 's) filtered_stream stream_read" where
  "filtered_stream_read pull stream howmuch =
    (if fsr_finished stream then Some (CHOP_STREAM_END, [], stream)
     else Option.bind (pull (fsr_flushing stream) howmuch (fsr_filter stream, fsr_backend stream))
      (\<lambda>((err, read, buffer), f, b).
        Option.bind
          (if err = CHOP_FILTER_EMPTY \<and> \<not> fsr_flushing stream
           then map_option (\<lambda>((err1, some_more, buffer1), f1, b1).
                  (err1, if err1 = CHOP_OK then read + some_more else read, take read buffer @ buffer1,
                   stream\<lparr>fsr_filter := f1, fsr_backend := b1, fsr_flushing := True\<rparr>))
                (pull True (howmuch - read) (f, b))
           else Some (err, read, buffer, stream\<lparr>fsr_filter := f, fsr_backend := b\<rparr>))
          (\<lambda>(err, read, buffer, stream).
            if fsr_flushing stream \<and> err = CHOP_FILTER_EMPTY then
              if read \<noteq> 0 then Some (CHOP_OK, take read buffer, stream)
              else Some (CHOP_STREAM_END, [], stream\<lparr>fsr_finished := True\<rparr>)
            else Some (err, take read buffer, stream))))"

definition chop_filtered_stream_open :: "'s \<Rightarrow> 'f \<Rightarrow> ('f, 's) filtered_stream" where
  "chop_filtered_stream_open backend flt =
    \<lparr>fsr_filter = flt, fsr_backend = backend, fsr_flushing = False, fsr_finished = False\<rparr>"

text \<open>Closing closes the backend unless it is to be left as it is.\<close>

definition filtered_stream_close :: "('s \<Rightarrow> 's) \<Rightarrow> chop_proxy_semantics \<Rightarrow> ('f, 's) filtered_stream \<Rightarrow> ('f, 's) filtered_stream" where
  "filtered_stream_close stream_close backend_ps stream =
    (if backend_ps = CHOP_PROXY_LEAVE_AS_IS then stream
     else stream\<lparr>fsr_backend := stream_close (fsr_backend stream)\<rparr>)"

text \<open>A stream as the source of a filter.\<close>

lemma stream_fault_source:
  assumes "byte_stream rd sinv rest"
  shows "fault_source (handle_input_fault rd (zip_push None)) sinv rest"
proof (unfold_locales, goal_cases)
  case (1 d f)
  show ?case
  proof (cases "rest d = []")
    case True
    from byte_stream.read_end [OF assms 1(1,3) True] obtain s' where
      "chop_stream_read rd d (length (zf_input_buffer f)) = Some (CHOP_STREAM_END, [], s')" "sinv s'" "rest s' = []" .
    with True show ?thesis by (simp add: handle_input_fault_def)
  next
    case False
    from byte_stream.read_some [OF assms 1(1,3) False] obtain bs s' where
      r: "chop_stream_read rd d (length (zf_input_buffer f)) = Some (CHOP_OK, bs, s')" "sinv s'" "rest d = bs @ rest s'"
      "bs \<noteq> []" "length bs \<le> length (zf_input_buffer f)" .
    have "zip_push None bs (f, s') = Some ((CHOP_OK, length bs), zf_loaded bs f, s')"
      by (rule push_empty [OF 1(2) r(5) 1(4)])
    with r False show ?thesis by (auto simp: handle_input_fault_def)
  qed
qed

interpretation mem_source: fault_source "handle_input_fault chop_mem_stream_read (zip_push None)" ms_inv ms_rest
  by (rule stream_fault_source) (rule mem.byte_stream_axioms)

text \<open>Reading a stream to its end, some bytes at a time.\<close>

partial_function (option) read_to_end :: "'s stream_read \<Rightarrow> nat \<Rightarrow> bytes \<Rightarrow> 's \<Rightarrow> (chop_error \<times> bytes \<times> 's) option" where
  "read_to_end rd n acc s =
    Option.bind (chop_stream_read rd s n) (\<lambda>(err, bs, s').
      if err = CHOP_OK then read_to_end rd n (acc @ bs) s' else Some (err, acc, s'))"

context fault_source
begin

definition open_stream :: "'z zip_filter \<Rightarrow> 'd \<Rightarrow> bool \<Rightarrow> ('z zip_filter, 'd) filtered_stream" where
  "open_stream f d flushing = \<lparr>fsr_filter = f, fsr_backend = d, fsr_flushing = flushing, fsr_finished = False\<rparr>"

lemma read_flushing:
  assumes "taken M E S whole f d" "acc = zs_out S (zf_zstream f)" "0 < n" "n < 2 ^ 32"
  shows "\<exists>s'. read_to_end (filtered_stream_read (zip_pull M E (Some h))) n acc (open_stream f d True)
    = Some (CHOP_STREAM_END, zs_result S whole, s')"
  using assms(1,2)
proof (induction "zs_bound S whole - length acc" arbitrary: f acc rule: less_induct)
  case less
  from less.prems(1) assms(3,4) show ?case
  proof (cases rule: pull_flush)
    case (1 new z)
    have "bound_law S" "zs_valid S whole" "zs_in S z = whole" "zs_running S z \<or> zs_finishing S z"
      using 1(3) by (auto simp: taken_def zip_laws_def)
    then have "length (zs_out S z) \<le> zs_bound S whole" by (auto simp: bound_law_def)
    with 1(2,4) less.prems(2) have "zs_bound S whole - length (acc @ new) < zs_bound S whole - length acc"
      by (cases new) auto
    from less.hyps [OF this 1(3)] 1(1,4) less.prems(2) show ?thesis
      by (subst read_to_end.simps) (simp add: chop_stream_read_def filtered_stream_read_def open_stream_def)
  next
    case (2 z)
    with less.prems(2) show ?thesis
      by (subst read_to_end.simps) (simp add: chop_stream_read_def filtered_stream_read_def open_stream_def)
  qed
qed


lemma read_running:
  assumes "mid M E S whole whole f d" "acc = zs_out S (zf_zstream f)" "0 < n" "n < 2 ^ 32"
  shows "\<exists>s'. read_to_end (filtered_stream_read (zip_pull M E (Some h))) n acc (open_stream f d False)
    = Some (CHOP_STREAM_END, zs_result S whole, s')"
  using assms(1,2)
proof (induction "zip_work S whole (drest d) f" arbitrary: f d acc rule: less_induct)
  case less
  from less.prems(1) assms(3,4) obtain err new f' d' where
    r: "zip_pull M E (Some h) False n (f, d) = Some ((err, length new, new), f', d')"
    "mid M E S whole whole f' d'" "zs_out S (zf_zstream f') = zs_out S (zf_zstream f) @ new"
    "err = CHOP_OK \<and> zip_work S whole (drest d') f' < zip_work S whole (drest d) f
      \<or> err = CHOP_FILTER_EMPTY \<and> new = [] \<and> zf_pending f' = [] \<and> drest d' = []"
    by (rule pull_run)
  show ?case
  proof (cases "err = CHOP_OK")
    case True
    with r(4) have "zip_work S whole (drest d') f' < zip_work S whole (drest d) f" by auto
    from less.hyps [OF this r(2)] True r(1,3) less.prems(2) show ?thesis
      by (subst read_to_end.simps) (simp add: chop_stream_read_def filtered_stream_read_def open_stream_def)
  next
    case False
    with r(4) have e: "err = CHOP_FILTER_EMPTY" "new = []" "zf_pending f' = []" "drest d' = []" by auto
    have "zf_avail_in f' = 0" using r(2) e(3) length_pending [of f'] by (simp add: mid_def)
    with r(2) e(3,4) have tk: "taken M E S whole f' d'" by (auto simp: mid_def taken_def)
    moreover have "acc = zs_out S (zf_zstream f')" using r(3) e(2) less.prems(2) by simp
    moreover from tk assms(3,4) have "filtered_stream_read (zip_pull M E (Some h)) (open_stream f d False) n
        = filtered_stream_read (zip_pull M E (Some h)) (open_stream f' d' True) n"
      using r(1) e(1,2) by (cases rule: pull_flush) (auto simp: filtered_stream_read_def open_stream_def)
    then have "read_to_end (filtered_stream_read (zip_pull M E (Some h))) n acc (open_stream f d False)
        = read_to_end (filtered_stream_read (zip_pull M E (Some h))) n acc (open_stream f' d' True)"
      by (subst (1 2) read_to_end.simps) (simp add: chop_stream_read_def)
    ultimately show ?thesis using read_flushing [OF _ _ assms(3,4)] by simp
  qed
qed

end

text \<open>C29: reading a filtered stream to its end, any number of bytes below \<open>2 ^ 32\<close> at a time, ends
  and gives exactly what the filter's library computes for the contents of the stream behind
  it; here that stream is in memory.\<close>

theorem filtered_stream_computes:
  assumes "zf_idle M E S f" and "zs_valid S data" and "0 < n" and "n < 2 ^ 32"
  shows "\<exists>s'. read_to_end (filtered_stream_read (zip_pull M E (Some (handle_input_fault chop_mem_stream_read (zip_push None))))) n []
      (chop_filtered_stream_open (chop_mem_stream_open data (length data)) f)
    = Some (CHOP_STREAM_END, zs_result S data, s')"
proof -
  let ?s = "chop_mem_stream_open data (length data)"
  have "mem_source.mid M E S data data f ?s"
    using assms(1,2) length_pending [of f]
    by (simp add: zf_idle_def mem_source.mid_def chop_mem_stream_open_def ms_inv_def ms_rest_def)
  from mem_source.read_running [OF this _ assms(3,4), of "[]"] assms(1) show ?thesis
    by (simp add: chop_filtered_stream_open_def mem_source.open_stream_def zf_idle_def)
qed

theorem filtered_stream_computes_witness:
  "\<exists>s'. read_to_end (filtered_stream_read (zip_pull zlib_zip (keep_engine (Some \<circ> pack))
        (Some (handle_input_fault chop_mem_stream_read (zip_push None))))) 3 []
      (chop_filtered_stream_open (chop_mem_stream_open [7, 8] (length [7, 8 :: byte])) sample_zip)
    = Some (CHOP_STREAM_END, [1, 7, 1, 8, 0], s')"
  using filtered_stream_computes [OF sample_zip_idle, of "[7, 8]" 3] by (simp add: keep_spec_def)

end
