(* ===== verification/Chop_Objects.thy ===== *)
theory Chop_Objects
  imports Chop_Prelude
begin

text \<open>
  The object system (\<^verbatim>\<open>include/chop/objects.h\<close>, \<^verbatim>\<open>src/src/chop.c\<close>): classes with single inheritance,
  virtual constructors and destructors, copying.  A class is its name and its parent; the methods
  are tables indexed by classes.  The root's own destructor clears the class pointer.  The class
  \<^verbatim>\<open>chop_class_class\<close>, which is its own parent, is left out, and so is the tracking of objects for
  debugging.
\<close>

section \<open>Classes\<close>

datatype chop_class = Chop_Class (class_name: bytes) (class_parent: "chop_class option")

text \<open>From the parent of a class up to the root.\<close>

fun parents :: "chop_class \<Rightarrow> chop_class list" where
  "parents (Chop_Class name None) = []"
| "parents (Chop_Class name (Some parent)) = parent # parents parent"

fun chop_class_inherits :: "chop_class \<Rightarrow> chop_class \<Rightarrow> bool" where
  "chop_class_inherits class maybe_parent =
    (if class = maybe_parent then True
     else case class of Chop_Class name None \<Rightarrow> False | Chop_Class name (Some p) \<Rightarrow> chop_class_inherits p maybe_parent)"

declare chop_class_inherits.simps [simp del]

record 'o class_methods =
  constructor :: "chop_class \<Rightarrow> ('o \<Rightarrow> chop_class \<Rightarrow> chop_error \<times> 'o) option"
  destructor :: "chop_class \<Rightarrow> ('o \<Rightarrow> 'o) option"
  copy_method :: "chop_class \<Rightarrow> ('o \<Rightarrow> 'o \<Rightarrow> chop_error \<times> 'o) option"
  equal_method :: "chop_class \<Rightarrow> ('o \<Rightarrow> 'o \<Rightarrow> bool) option"

record 'o chop_object =
  klass :: "chop_class option"
  obj_fields :: 'o

section \<open>Initialising, destroying, copying\<close>

text \<open>The constructors of the classes of a list, in order, up to the first that fails.\<close>

fun run_constructors ::
  "'o class_methods \<Rightarrow> chop_class \<Rightarrow> chop_class list \<Rightarrow> 'o \<Rightarrow> chop_error \<times> 'o" where
  "run_constructors M class [] x = (CHOP_OK, x)"
| "run_constructors M class (p # ps) x =
    (case constructor M p of
       None \<Rightarrow> run_constructors M class ps x
     | Some ctor \<Rightarrow> (case ctor x class of (err, x') \<Rightarrow>
         if err \<noteq> CHOP_OK then (err, x') else run_constructors M class ps x'))"

text \<open>The error of the last constructor, that of the class itself, is dropped.\<close>

definition chop_object_initialize ::
  "'o class_methods \<Rightarrow> chop_class \<Rightarrow> 'o chop_object \<Rightarrow> chop_error \<times> 'o chop_object" where
  "chop_object_initialize M class obj =
    (case run_constructors M class (rev (parents class)) (obj_fields obj) of (err, x) \<Rightarrow>
      if err \<noteq> CHOP_OK then (err, obj\<lparr>obj_fields := x\<rparr>)
      else (CHOP_OK, \<lparr>klass = Some class,
              obj_fields = (case constructor M class of None \<Rightarrow> x | Some ctor \<Rightarrow> snd (ctor x class))\<rparr>))"

definition chop_object_destroy :: "'o class_methods \<Rightarrow> 'o chop_object \<Rightarrow> 'o chop_object" where
  "chop_object_destroy M obj =
    (case klass obj of
       None \<Rightarrow> obj
     | Some class \<Rightarrow>
         \<lparr>klass = None,
          obj_fields = fold (\<lambda>c x. case destructor M c of None \<Rightarrow> x | Some dtor \<Rightarrow> dtor x) (class # parents class) (obj_fields obj)\<rparr>)"

text \<open>Copying: the copy methods of the parents from the root, the last class copied by one, then the
  method of the class or a shallow copy of what lies beyond that class.\<close>

fun run_copies ::
  "'o class_methods \<Rightarrow> chop_class list \<Rightarrow> 'o \<Rightarrow> 'o \<Rightarrow> chop_class option \<Rightarrow> chop_error \<times> 'o \<times> chop_class option" where
  "run_copies M [] source dest copied = (CHOP_OK, dest, copied)"
| "run_copies M (p # ps) source dest copied =
    (case copy_method M p of
       None \<Rightarrow> run_copies M ps source dest copied
     | Some copy \<Rightarrow> (case copy source dest of (err, dest') \<Rightarrow>
         if err \<noteq> CHOP_OK then (err, dest', copied) else run_copies M ps source dest' (Some p)))"

definition chop_object_copy ::
  "'o class_methods \<Rightarrow> (chop_class option \<Rightarrow> chop_class \<Rightarrow> 'o \<Rightarrow> 'o \<Rightarrow> 'o) \<Rightarrow> chop_class \<Rightarrow> 'o \<Rightarrow> 'o \<Rightarrow> chop_error \<times> 'o" where
  "chop_object_copy M shallow class source dest =
    (case run_copies M (rev (parents class)) source dest None of (err, dest', copied) \<Rightarrow>
      if err \<noteq> CHOP_OK then (err, dest')
      else (CHOP_OK, case copy_method M class of
                       Some copy \<Rightarrow> snd (copy source dest')
                     | None \<Rightarrow> shallow copied class source dest'))"

definition chop_object_is_a :: "'o chop_object \<Rightarrow> chop_class \<Rightarrow> bool" where
  "chop_object_is_a obj class = (case klass obj of None \<Rightarrow> False | Some c \<Rightarrow> chop_class_inherits c class)"

text \<open>Equality of two objects at different addresses.\<close>

definition chop_object_equal :: "'o class_methods \<Rightarrow> 'o chop_object \<Rightarrow> 'o chop_object \<Rightarrow> bool" where
  "chop_object_equal M o1 o2 =
    (case (klass o1, klass o2) of
       (Some c1, Some c2) \<Rightarrow>
         c1 = c2 \<and> (case equal_method M c1 of None \<Rightarrow> False | Some eq \<Rightarrow> eq (obj_fields o1) (obj_fields o2))
     | _ \<Rightarrow> False)"

section \<open>Inheritance\<close>

lemma inherits_parents: "chop_class_inherits c p \<longleftrightarrow> p = c \<or> p \<in> set (parents c)"
proof (induction c rule: parents.induct)
  case (1 name)
  then show ?case by (auto simp: chop_class_inherits.simps [of "Chop_Class name None"])
next
  case (2 name parent)
  then show ?case by (auto simp: chop_class_inherits.simps [of "Chop_Class name (Some parent)"])
qed

lemma parents_trans: "p \<in> set (parents c) \<Longrightarrow> q \<in> set (parents p) \<Longrightarrow> q \<in> set (parents c)"
  by (induction c rule: parents.induct) auto

lemma parents_size: "p \<in> set (parents c) \<Longrightarrow> size p < size c"
  by (induction c rule: parents.induct) auto

section \<open>Main properties\<close>


lemma run_constructors_undo:
  assumes "\<forall>c \<in> set cs. case constructor M c of
      None \<Rightarrow> destructor M c = None
    | Some ctor \<Rightarrow> \<exists>dtor. destructor M c = Some dtor \<and> (\<forall>x. fst (ctor x class) = CHOP_OK \<and> dtor (snd (ctor x class)) = x)"
  shows "fst (run_constructors M class cs x) = CHOP_OK
    \<and> fold (\<lambda>c x. case destructor M c of None \<Rightarrow> x | Some dtor \<Rightarrow> dtor x) (rev cs) (snd (run_constructors M class cs x)) = x"
  using assms
proof (induction cs arbitrary: x)
  case (Cons c cs)
  show ?case
  proof (cases "constructor M c")
    case None
    with Cons.prems have "destructor M c = None" by simp
    with None Cons show ?thesis by simp
  next
    case (Some ctor)
    with Cons.prems obtain dtor where d: "destructor M c = Some dtor" "\<forall>x. fst (ctor x class) = CHOP_OK \<and> dtor (snd (ctor x class)) = x"
      by auto
    obtain x' where x': "ctor x class = (CHOP_OK, x')" using d(2) by (metis prod.collapse)
    then have "dtor x' = x" using d(2) by (metis snd_conv)
    with Cons.IH [of x'] Cons.prems Some d(1) x' show ?thesis by simp
  qed
qed simp

text \<open>C25: destroying an object undoes initialising it.  Constructors run from the root of the hierarchy
  to the class of the object and destructors in the opposite order, so that where every
  destructor undoes its own constructor the object has its old fields, and no class, after both.\<close>

theorem destroy_undoes_initialize:
  assumes "\<forall>c \<in> set (class # parents class). case constructor M c of
      None \<Rightarrow> destructor M c = None
    | Some ctor \<Rightarrow> \<exists>dtor. destructor M c = Some dtor \<and> (\<forall>x. fst (ctor x class) = CHOP_OK \<and> dtor (snd (ctor x class)) = x)"
  shows "\<exists>obj'. chop_object_initialize M class obj = (CHOP_OK, obj') \<and> klass obj' = Some class
    \<and> chop_object_destroy M obj' = obj\<lparr>klass := None\<rparr>"
proof -
  obtain err x where r: "run_constructors M class (rev (parents class)) (obj_fields obj) = (err, x)" by (metis prod.exhaust)
  from run_constructors_undo [of "rev (parents class)" M "class" "obj_fields obj"] assms r have
    u: "err = CHOP_OK"
    "fold (\<lambda>c x. case destructor M c of None \<Rightarrow> x | Some dtor \<Rightarrow> dtor x) (parents class) x = obj_fields obj" by simp_all
  have own: "(case destructor M class of None \<Rightarrow> y | Some dtor \<Rightarrow> dtor y) = x"
    if "y = (case constructor M class of None \<Rightarrow> x | Some ctor \<Rightarrow> snd (ctor x class))" for y
    using assms that by (auto split: option.splits)
  show ?thesis
    using r u own by (cases obj) (simp add: chop_object_initialize_def chop_object_destroy_def)
qed

text \<open>A class and its parent that count up and down.\<close>

definition sample_methods :: "nat class_methods" where
  "sample_methods = \<lparr>constructor = (\<lambda>c. Some (\<lambda>n k. (CHOP_OK, 2 * n + length (class_name c)))),
     destructor = (\<lambda>c. Some (\<lambda>n. (n - length (class_name c)) div 2)), copy_method = (\<lambda>_. None), equal_method = (\<lambda>_. None)\<rparr>"


theorem destroy_undoes_initialize_witness:
  "chop_object_destroy sample_methods (snd (chop_object_initialize sample_methods
      (Chop_Class [1, 2] (Some (Chop_Class [3] None))) \<lparr>klass = None, obj_fields = 5\<rparr>)) = \<lparr>klass = None, obj_fields = 5\<rparr>"
  using destroy_undoes_initialize [of "Chop_Class [1, 2] (Some (Chop_Class [3] None))" sample_methods "\<lparr>klass = None, obj_fields = 5\<rparr>"]
  by (simp add: sample_methods_def chop_object_initialize_def chop_object_destroy_def)

end
