(* ===== verification/Chop_Index_Tuple.thy ===== *)
theory Chop_Index_Tuple
  imports Chop_Objects Chop_Integer
begin

text \<open>
  The text that stands for an archived stream (\<^verbatim>\<open>src/src/indexers.c\<close>): the names of the classes of the
  indexer, of the block fetcher and of the index handle, then these objects, separated by colons.  It
  is what \<^verbatim>\<open>chop-archiver\<close> prints and reads.  The table of built-in classes is generated by gperf, and a
  parameter.
\<close>

section \<open>Classes and objects with a text form\<close>

definition chop_object_class :: chop_class where
  "chop_object_class = Chop_Class (ascii ''object'') None"

definition chop_indexer_class :: chop_class where
  "chop_indexer_class = Chop_Class (ascii ''indexer'') (Some chop_object_class)"

definition chop_block_fetcher_class :: chop_class where
  "chop_block_fetcher_class = Chop_Class (ascii ''block_fetcher'') (Some chop_object_class)"

definition chop_index_handle_class :: chop_class where
  "chop_index_handle_class = Chop_Class (ascii ''index_handle'') (Some chop_object_class)"

definition chop_tree_indexer_class :: chop_class where
  "chop_tree_indexer_class = Chop_Class (ascii ''tree_indexer'') (Some chop_indexer_class)"

definition chop_hash_block_fetcher_class :: chop_class where
  "chop_hash_block_fetcher_class = Chop_Class (ascii ''hash_block_fetcher'') (Some chop_block_fetcher_class)"

definition chop_hash_index_handle_class :: chop_class where
  "chop_hash_index_handle_class = Chop_Class (ascii ''hash_index_handle'') (Some chop_index_handle_class)"

lemmas builtin_classes = chop_object_class_def chop_indexer_class_def chop_block_fetcher_class_def
  chop_index_handle_class_def chop_tree_indexer_class_def chop_hash_block_fetcher_class_def
  chop_hash_index_handle_class_def

text \<open>A class with its text serializer, which takes the old contents of the buffer, and its deserializer,
  which takes the memory from the pointer on and the size.  None is a failed assertion.\<close>

record 'o text_class =
  tc_class :: chop_class
  tc_serialize :: "'o \<Rightarrow> bytes \<Rightarrow> (chop_error \<times> bytes) option"
  tc_deserialize :: "bytes \<Rightarrow> nat \<Rightarrow> ('o \<times> nat) result option"

text \<open>The tree indexer: its number of indexes per block.\<close>

definition iht_serialize :: "chop_serial_method \<Rightarrow> nat \<Rightarrow> bytes \<Rightarrow> chop_error \<times> bytes" where
  "iht_serialize meth indexes_per_block buffer =
    (case meth of
       CHOP_SERIAL_ASCII \<Rightarrow> (CHOP_OK, sprintf_zx indexes_per_block @ [0])
     | CHOP_SERIAL_BINARY \<Rightarrow> (CHOP_ERR_NOT_IMPL, buffer))"

definition iht_deserialize :: "chop_serial_method \<Rightarrow> bytes \<Rightarrow> (nat \<times> nat) result" where
  "iht_deserialize meth buffer =
    (case meth of
       CHOP_SERIAL_ASCII \<Rightarrow>
         (case strtoul16 buffer of (n, used) \<Rightarrow> if used = 0 then Inl CHOP_DESERIAL_CORRUPT_INPUT else Inr (n, used))
     | CHOP_SERIAL_BINARY \<Rightarrow> Inl CHOP_ERR_NOT_IMPL)"

definition tree_text :: "nat text_class" where
  "tree_text = \<lparr>tc_class = chop_tree_indexer_class, tc_serialize = (\<lambda>x buffer. Some (iht_serialize CHOP_SERIAL_ASCII x buffer)),
     tc_deserialize = (\<lambda>buffer sz. Some (iht_deserialize CHOP_SERIAL_ASCII buffer))\<rparr>"

definition hash_fetcher_text :: "hash_block_fetcher text_class" where
  "hash_fetcher_text = \<lparr>tc_class = chop_hash_block_fetcher_class, 
     tc_serialize = (\<lambda>x buffer. Some (hbf_serialize CHOP_SERIAL_ASCII x buffer)),
     tc_deserialize = (\<lambda>buffer sz. Some (hbf_deserialize CHOP_SERIAL_ASCII buffer))\<rparr>"

definition hash_handle_text :: "hash_index_handle text_class" where
  "hash_handle_text = \<lparr>tc_class = chop_hash_index_handle_class,
     tc_serialize = (\<lambda>h buffer. map_option (case_sum (\<lambda>err. (err, buffer)) (\<lambda>a. (CHOP_OK, a)))
        (hih_serialize CHOP_SERIAL_ASCII h)),
     tc_deserialize = (\<lambda>buffer sz. hih_deserialize CHOP_SERIAL_ASCII (take sz buffer))\<rparr>"

section \<open>Writing and reading tuples\<close>

abbreviation colon :: byte where "colon \<equiv> of_char CHR '':''"

text \<open>All but the trailing NUL.\<close>

definition strip :: "bytes \<Rightarrow> bytes" where
  "strip a = take (if a = [] then 0 else length a - 1) a"

definition chop_ascii_serialize_index_tuple ::
  "'i text_class \<Rightarrow> 'f text_class \<Rightarrow> 'h text_class \<Rightarrow> 'i \<Rightarrow> chop_error \<times> 'f \<Rightarrow> 'h \<Rightarrow> bytes
     \<Rightarrow> (chop_error \<times> bytes) option" where
  "chop_ascii_serialize_index_tuple CI CF CH indexer init_fetcher index buffer =
    (case init_fetcher of (err, fetcher) \<Rightarrow>
     if err \<noteq> CHOP_OK then Some (err, buffer)
     else if \<not> chop_class_inherits (tc_class CF) chop_block_fetcher_class then Some (CHOP_INVALID_ARG, buffer)
     else let names = class_name (tc_class CI) @ [colon] @ class_name (tc_class CF) @ [colon] @ class_name (tc_class CH) @ [colon]
     in Option.bind (tc_serialize CI indexer []) (\<lambda>(err, a).
       if err \<noteq> CHOP_OK then Some (err, names)
       else let b1 = names @ strip a @ [colon]
       in Option.bind (tc_serialize CF fetcher []) (\<lambda>(err, a).
         if err \<noteq> CHOP_OK then Some (err, b1)
         else let b2 = b1 @ strip a @ [colon]
         in Option.bind (tc_serialize CH index []) (\<lambda>(err, a).
           if err \<noteq> CHOP_OK then Some (err, b2) else Some (CHOP_OK, b2 @ a)))))"

text \<open>\<^verbatim>\<open>strchr\<close> for a colon: its offset in a string that ends with a NUL.\<close>

definition colon_offset :: "bytes \<Rightarrow> nat option" where
  "colon_offset buffer =
    (let n = length (takeWhile (\<lambda>c. c \<noteq> colon \<and> c \<noteq> 0) buffer)
     in if n < length buffer \<and> buffer ! n = colon then Some n else None)"

definition read_class :: "(bytes \<Rightarrow> chop_class option) \<Rightarrow> chop_class \<Rightarrow> bytes \<Rightarrow> (chop_class \<times> nat) result" where
  "read_class chop_class_lookup super buffer =
    (case colon_offset buffer of
       None \<Rightarrow> Inl CHOP_DESERIAL_CORRUPT_INPUT
     | Some n \<Rightarrow>
        (case chop_class_lookup (take n buffer) of
           None \<Rightarrow> Inl CHOP_DESERIAL_CORRUPT_INPUT
         | Some c \<Rightarrow> if chop_class_inherits c super then Inr (c, n) else Inl CHOP_INVALID_ARG))"

definition chop_ascii_deserialize_index_tuple_s1 ::
  "(bytes \<Rightarrow> chop_class option) \<Rightarrow> bytes \<Rightarrow> ((chop_class \<times> chop_class \<times> chop_class) \<times> nat) result" where
  "chop_ascii_deserialize_index_tuple_s1 chop_class_lookup buffer =
    (case read_class chop_class_lookup chop_indexer_class buffer of
       Inl err \<Rightarrow> Inl err
     | Inr (indexer_class, n1) \<Rightarrow>
        (case read_class chop_class_lookup chop_block_fetcher_class (drop (n1 + 1) buffer) of
           Inl err \<Rightarrow> Inl err
         | Inr (fetcher_class, n2) \<Rightarrow>
            (case read_class chop_class_lookup chop_index_handle_class (drop (n1 + 1 + (n2 + 1)) buffer) of
               Inl err \<Rightarrow> Inl err
             | Inr (handle_class, n3) \<Rightarrow>
                 Inr ((indexer_class, fetcher_class, handle_class), n1 + 1 + (n2 + 1) + (n3 + 1)))))"

definition chop_ascii_deserialize_index_tuple_s2 ::
  "'i text_class \<Rightarrow> 'f text_class \<Rightarrow> 'h text_class \<Rightarrow> bytes \<Rightarrow> nat \<Rightarrow> (('i \<times> 'f \<times> 'h) \<times> nat) result option" where
  "chop_ascii_deserialize_index_tuple_s2 CI CF CH buffer sz =
    (case colon_offset buffer of
       None \<Rightarrow> Some (Inl CHOP_DESERIAL_CORRUPT_INPUT)
     | Some n1 \<Rightarrow> Option.bind (tc_deserialize CI buffer n1) (\<lambda>r. case r of
         Inl err \<Rightarrow> Some (Inl err)
       | Inr (indexer, count) \<Rightarrow>
           if count \<noteq> n1 then Some (Inl CHOP_DESERIAL_CORRUPT_INPUT)
           else let buffer2 = drop (n1 + 1) buffer
           in (case colon_offset buffer2 of
             None \<Rightarrow> Some (Inl CHOP_DESERIAL_CORRUPT_INPUT)
           | Some n2 \<Rightarrow> Option.bind (tc_deserialize CF buffer2 n2) (\<lambda>r. case r of
               Inl err \<Rightarrow> Some (Inl err)
             | Inr (fetcher, count) \<Rightarrow>
                 if count \<noteq> n2 then Some (Inl CHOP_DESERIAL_CORRUPT_INPUT)
                 else let bytes_read = n1 + 1 + (n2 + 1)
                 in Option.bind (tc_deserialize CH (drop (n2 + 1) buffer2) (sz - bytes_read)) (\<lambda>r. case r of
                   Inl err \<Rightarrow> Some (Inl err)
                 | Inr (handle, count) \<Rightarrow> Some (Inr ((indexer, fetcher, handle), bytes_read + count)))))))"

section \<open>Reading back\<close>

text \<open>A text form that has no colon and can be read back before one.\<close>

locale text_codec =
  fixes C :: "'o text_class"
    and wf_obj :: "'o \<Rightarrow> bool"
    and form :: "'o \<Rightarrow> bytes"
  assumes write_law: "wf_obj x \<Longrightarrow> \<exists>a. tc_serialize C x [] = Some (CHOP_OK, a) \<and> strip a = form x"
    and no_colon: "wf_obj x \<Longrightarrow> colon \<notin> set (form x) \<and> 0 \<notin> set (form x)"
    and read_law: "wf_obj x \<Longrightarrow> tc_deserialize C (form x @ colon # rest) (length (form x)) = Some (Inr (x, length (form x)))"

text \<open>A text form that can be read back at the end, followed by a NUL.\<close>

locale last_text_codec =
  fixes C :: "'o text_class"
    and wf_obj :: "'o \<Rightarrow> bool"
    and form :: "'o \<Rightarrow> bytes"
  assumes write_last_law: "wf_obj x \<Longrightarrow> tc_serialize C x [] = Some (CHOP_OK, form x @ [0])"
    and read_last_law: "wf_obj x \<Longrightarrow> tc_deserialize C (form x @ [0]) (length (form x) + 1) = Some (Inr (x, length (form x)))"

lemma colon_offset_append:
  assumes "colon \<notin> set a" "0 \<notin> set a"
  shows "colon_offset (a @ colon # rest) = Some (length a)"
proof -
  have "takeWhile (\<lambda>c. c \<noteq> colon \<and> c \<noteq> 0) (a @ colon # rest) = a"
    using assms by (subst takeWhile_append2) auto
  then show ?thesis unfolding colon_offset_def Let_def by simp
qed

definition plain_name :: "chop_class \<Rightarrow> bool" where
  "plain_name c \<longleftrightarrow> colon \<notin> set (class_name c) \<and> 0 \<notin> set (class_name c)"

lemma read_class_append:
  assumes "plain_name c" "chop_class_lookup (class_name c) = Some c" "chop_class_inherits c super"
  shows "read_class chop_class_lookup super (class_name c @ colon # rest) = Inr (c, length (class_name c))"
  using assms colon_offset_append [of "class_name c" rest] by (simp add: read_class_def plain_name_def)

locale tuple_codec = ci: text_codec CI wf_i txt_i + cf: text_codec CF wf_f txt_f + ch: last_text_codec CH wf_h txt_h
  for CI :: "'i text_class" and wf_i txt_i and CF :: "'f text_class" and wf_f txt_f
    and CH :: "'h text_class" and wf_h txt_h
begin

definition tuple_text :: "'i \<Rightarrow> 'f \<Rightarrow> 'h \<Rightarrow> bytes" where
  "tuple_text i f h = txt_i i @ colon # txt_f f @ colon # txt_h h @ [0]"

lemma write_tuple:
  assumes "wf_i i" "wf_f f" "wf_h h" "chop_class_inherits (tc_class CF) chop_block_fetcher_class"
  shows "chop_ascii_serialize_index_tuple CI CF CH i (CHOP_OK, f) h buffer =
    Some (CHOP_OK, class_name (tc_class CI) @ colon # class_name (tc_class CF) @ colon # class_name (tc_class CH) @ colon # tuple_text i f h)"
proof -
  obtain a b where a: "tc_serialize CI i [] = Some (CHOP_OK, a)" "strip a = txt_i i"
    "tc_serialize CF f [] = Some (CHOP_OK, b)" "strip b = txt_f f"
    using ci.write_law [OF assms(1)] cf.write_law [OF assms(2)] by blast
  then show ?thesis
    unfolding chop_ascii_serialize_index_tuple_def Let_def
    by (simp add: ch.write_last_law [OF assms(3)] assms(4) tuple_text_def)
qed

lemma read_tuple_classes:
  assumes "plain_name (tc_class CI)" "plain_name (tc_class CF)" "plain_name (tc_class CH)"
    "chop_class_lookup (class_name (tc_class CI)) = Some (tc_class CI)"
    "chop_class_lookup (class_name (tc_class CF)) = Some (tc_class CF)"
    "chop_class_lookup (class_name (tc_class CH)) = Some (tc_class CH)"
    "chop_class_inherits (tc_class CI) chop_indexer_class" "chop_class_inherits (tc_class CF) chop_block_fetcher_class"
    "chop_class_inherits (tc_class CH) chop_index_handle_class"
  shows "chop_ascii_deserialize_index_tuple_s1 chop_class_lookup
      (class_name (tc_class CI) @ colon # class_name (tc_class CF) @ colon # class_name (tc_class CH) @ colon # rest)
    = Inr ((tc_class CI, tc_class CF, tc_class CH),
        length (class_name (tc_class CI)) + 1 + (length (class_name (tc_class CF)) + 1) + (length (class_name (tc_class CH)) + 1))"
proof -
  let ?a = "class_name (tc_class CI)" and ?b = "class_name (tc_class CF)" and ?c = "class_name (tc_class CH)"
  have d1: "drop (length ?a + 1) (?a @ colon # ?b @ colon # ?c @ colon # rest) = ?b @ colon # ?c @ colon # rest" by simp
  have d2: "drop (length ?a + 1 + (length ?b + 1)) (?a @ colon # ?b @ colon # ?c @ colon # rest) = ?c @ colon # rest"
  proof -
    have "drop (length ?a + 1 + (length ?b + 1)) (?a @ colon # ?b @ colon # ?c @ colon # rest)
        = drop (length ?b + 1) (drop (length ?a + 1) (?a @ colon # ?b @ colon # ?c @ colon # rest))"
      by (simp only: drop_drop add.commute)
    then show ?thesis unfolding d1 by simp
  qed
  show ?thesis
    unfolding chop_ascii_deserialize_index_tuple_s1_def
    by (simp only: assms read_class_append sum.case prod.case d1 d2)
qed

lemma read_tuple_objects:
  assumes "wf_i i" "wf_f f" "wf_h h"
  shows "chop_ascii_deserialize_index_tuple_s2 CI CF CH (tuple_text i f h) (length (tuple_text i f h))
    = Some (Inr ((i, f, h), length (tuple_text i f h) - 1))"
proof -
  let ?r = "txt_f f @ colon # txt_h h @ [0]"
  have c1: "colon_offset (txt_i i @ colon # ?r) = Some (length (txt_i i))"
    using ci.no_colon [OF assms(1)] by (intro colon_offset_append) auto
  have c2: "colon_offset ?r = Some (length (txt_f f))"
    using cf.no_colon [OF assms(2)] by (intro colon_offset_append) auto
  have d1: "drop (length (txt_i i) + 1) (txt_i i @ colon # ?r) = ?r" by simp
  have d2: "drop (length (txt_f f) + 1) ?r = txt_h h @ [0]" by simp
  have len: "length (txt_i i @ colon # ?r) - (length (txt_i i) + 1 + (length (txt_f f) + 1)) = length (txt_h h) + 1" by simp
  show ?thesis
    unfolding tuple_text_def chop_ascii_deserialize_index_tuple_s2_def c1 option.case ci.read_law [OF assms(1)]
      Option.bind.bind_lunit sum.case prod.case Let_def d1 c2 cf.read_law [OF assms(2)]
      len d2 ch.read_last_law [OF assms(3)]
    by (simp add: len d2 ch.read_last_law [OF assms(3)] del: One_nat_def)
qed

end

section \<open>The tuple of the tree indexer and the hash indexer\<close>

interpretation tree_codec: text_codec tree_text "\<lambda>n. n < 2 ^ 64" sprintf_zx
proof unfold_locales
  fix n :: nat and rest assume "n < 2 ^ 64"
  then show "\<exists>a. tc_serialize tree_text n [] = Some (CHOP_OK, a) \<and> strip a = sprintf_zx n"
    by (simp add: tree_text_def iht_serialize_def strip_def)
  show "colon \<notin> set (sprintf_zx n) \<and> 0 \<notin> set (sprintf_zx n)"
    using sprintf_zx_chars [of colon n] sprintf_zx_chars [of 0 n] by (auto simp: isxdigit_def)
  have "strtoul16 (sprintf_zx n @ colon # rest) = (n, length (sprintf_zx n))"
    using \<open>n < 2 ^ 64\<close> by (intro strtoul16_sprintf_zx_before) (simp_all add: isxdigit_def)
  then show "tc_deserialize tree_text (sprintf_zx n @ colon # rest) (length (sprintf_zx n)) = Some (Inr (n, length (sprintf_zx n)))"
    by (simp add: tree_text_def iht_deserialize_def)
qed

definition fetcher_form :: "hash_block_fetcher \<Rightarrow> bytes" where
  "fetcher_form f = (if hbf_hash_method f = CHOP_HASH_NONE then [] else map tolower (chop_hash_method_name (hbf_hash_method f)))"

interpretation hash_fetcher_codec: text_codec hash_fetcher_text "\<lambda>f. True" fetcher_form
proof unfold_locales
  fix f :: hash_block_fetcher and rest
  obtain m where f: "f = \<lparr>hbf_hash_method = m\<rparr>" by (cases f)
  show "\<exists>a. tc_serialize hash_fetcher_text f [] = Some (CHOP_OK, a) \<and> strip a = fetcher_form f"
    by (simp add: hash_fetcher_text_def hbf_serialize_def strip_def fetcher_form_def)
  show "colon \<notin> set (fetcher_form f) \<and> 0 \<notin> set (fetcher_form f)"
    unfolding f fetcher_form_def
    by (cases m) (simp_all add: chop_hash_method_name_def hash_methods_def ascii_def tolower_def)
  have "hbf_deserialize CHOP_SERIAL_ASCII (fetcher_form f @ colon # rest) = Inr (f, length (fetcher_form f))"
    unfolding f fetcher_form_def
    by (cases m) (simp_all add: hbf_deserialize_def chop_hash_method_lookup_def chop_hash_method_name_def
      hash_methods_def strcasecmp_eq_def ascii_def toupper_def tolower_def ispunct_def isalnum_def isspace_def)
  then show "tc_deserialize hash_fetcher_text (fetcher_form f @ colon # rest) (length (fetcher_form f))
      = Some (Inr (f, length (fetcher_form f)))"
    by (simp add: hash_fetcher_text_def)
qed

definition handle_form :: "hash_index_handle \<Rightarrow> bytes" where
  "handle_form h = chop_buffer_to_base32_string (hih_content h) @ of_char CHR ''/'' # sprintf_zx (hih_block_size h)"

interpretation hash_handle_codec: last_text_codec hash_handle_text
  "\<lambda>h. wf_hih h \<and> length (handle_form h) < 1023" handle_form
proof unfold_locales
  fix h assume h: "wf_hih h \<and> length (handle_form h) < 1023"
  then have ser: "hih_serialize CHOP_SERIAL_ASCII h = Some (Inr (handle_form h @ [0]))"
    by (simp add: hih_serialize_def handle_form_def wf_hih_def)
  then show "tc_serialize hash_handle_text h [] = Some (CHOP_OK, handle_form h @ [0])"
    by (simp add: hash_handle_text_def)
  show "tc_deserialize hash_handle_text (handle_form h @ [0]) (length (handle_form h) + 1) = Some (Inr (h, length (handle_form h)))"
    using hih_text_back [OF _ ser] h by (simp add: hash_handle_text_def)
qed

interpretation tree_hash_tuple: tuple_codec tree_text "\<lambda>n. n < 2 ^ 64" sprintf_zx
  hash_fetcher_text "\<lambda>f. True" fetcher_form
  hash_handle_text "\<lambda>h. wf_hih h \<and> length (handle_form h) < 1023" handle_form
  by unfold_locales

text \<open>The three classes have plain names and the right ancestors.\<close>

lemma tree_hash_classes:
  "plain_name chop_tree_indexer_class" "plain_name chop_hash_block_fetcher_class" "plain_name chop_hash_index_handle_class"
  "chop_class_inherits chop_tree_indexer_class chop_indexer_class"
  "chop_class_inherits chop_hash_block_fetcher_class chop_block_fetcher_class"
  "chop_class_inherits chop_hash_index_handle_class chop_index_handle_class"
  by (simp_all add: plain_name_def builtin_classes ascii_def chop_class_inherits.simps)

text \<open>The text of an archive.\<close>

definition archive_classes :: bytes where
  "archive_classes = class_name chop_tree_indexer_class @ colon # class_name chop_hash_block_fetcher_class @ colon
     # class_name chop_hash_index_handle_class @ [colon]"

definition archive_text :: "nat \<Rightarrow> hash_block_fetcher \<Rightarrow> hash_index_handle \<Rightarrow> bytes" where
  "archive_text ipb f h = archive_classes @ sprintf_zx ipb @ colon # fetcher_form f @ colon # handle_form h"

lemma archive_text_back:
  assumes "ipb < 2 ^ 64" "wf_hih h" "length (handle_form h) < 1023"
    and "\<And>c. c \<in> {chop_tree_indexer_class, chop_hash_block_fetcher_class, chop_hash_index_handle_class}
       \<Longrightarrow> chop_class_lookup (class_name c) = Some c"
  shows "chop_ascii_serialize_index_tuple tree_text hash_fetcher_text hash_handle_text ipb (CHOP_OK, f) h buffer
        = Some (CHOP_OK, archive_text ipb f h @ [0])"
    and "chop_ascii_deserialize_index_tuple_s1 chop_class_lookup (archive_text ipb f h @ [0])
        = Inr ((chop_tree_indexer_class, chop_hash_block_fetcher_class, chop_hash_index_handle_class), length archive_classes)"
    and "chop_ascii_deserialize_index_tuple_s2 tree_text hash_fetcher_text hash_handle_text
          (drop (length archive_classes) (archive_text ipb f h @ [0])) (length (archive_text ipb f h) + 1 - length archive_classes)
        = Some (Inr ((ipb, f, h), length (archive_text ipb f h) - length archive_classes))"
proof -
  let ?t = "tree_hash_tuple.tuple_text ipb f h"
  have cls: "tc_class tree_text = chop_tree_indexer_class" "tc_class hash_fetcher_text = chop_hash_block_fetcher_class"
    "tc_class hash_handle_text = chop_hash_index_handle_class"
    by (simp_all add: tree_text_def hash_fetcher_text_def hash_handle_text_def)
  have str: "archive_text ipb f h @ [0] = archive_classes @ ?t"
    by (simp add: archive_text_def tree_hash_tuple.tuple_text_def)
  have len: "length (archive_text ipb f h) + 1 - length archive_classes = length ?t"
    "length (archive_text ipb f h) - length archive_classes = length ?t - 1"
    by (simp_all add: archive_text_def tree_hash_tuple.tuple_text_def)
  show "chop_ascii_serialize_index_tuple tree_text hash_fetcher_text hash_handle_text ipb (CHOP_OK, f) h buffer
      = Some (CHOP_OK, archive_text ipb f h @ [0])"
    using tree_hash_tuple.write_tuple [where i = ipb and f = f and h = h and buffer = buffer] assms(1-3) tree_hash_classes
    unfolding str by (simp add: cls archive_classes_def)
  show "chop_ascii_deserialize_index_tuple_s1 chop_class_lookup (archive_text ipb f h @ [0])
      = Inr ((chop_tree_indexer_class, chop_hash_block_fetcher_class, chop_hash_index_handle_class), length archive_classes)"
    using tree_hash_tuple.read_tuple_classes [of chop_class_lookup ?t] assms(4) tree_hash_classes
    unfolding str by (simp add: cls archive_classes_def)
  have "drop (length archive_classes) (archive_text ipb f h @ [0]) = ?t" unfolding str by simp
  moreover have "chop_ascii_deserialize_index_tuple_s2 tree_text hash_fetcher_text hash_handle_text ?t (length ?t)
      = Some (Inr ((ipb, f, h), length ?t - 1))"
    using assms(1-3) by (intro tree_hash_tuple.read_tuple_objects) simp_all
  ultimately show "chop_ascii_deserialize_index_tuple_s2 tree_text hash_fetcher_text hash_handle_text
          (drop (length archive_classes) (archive_text ipb f h @ [0])) (length (archive_text ipb f h) + 1 - length archive_classes)
        = Some (Inr ((ipb, f, h), length (archive_text ipb f h) - length archive_classes))"
    unfolding len by simp
qed

lemma archive_text_no_nul: "0 \<notin> set (archive_text ipb f h)"
proof -
  have "0 \<notin> set (sprintf_zx n)" for n using sprintf_zx_chars [of 0 n] by (auto simp: isxdigit_def)
  moreover have "0 \<notin> set (handle_form h)"
    using calculation [of "hih_block_size h"] base32_string_no_slash [of 0] by (auto simp: handle_form_def)
  moreover have "0 \<notin> set (fetcher_form f)" using hash_fetcher_codec.no_colon by simp
  moreover have "0 \<notin> set archive_classes"
    using tree_hash_classes(1-3) by (auto simp: archive_classes_def plain_name_def)
  ultimately show ?thesis by (auto simp: archive_text_def)
qed


definition sample_lookup :: "bytes \<Rightarrow> chop_class option" where
  "sample_lookup name = List.find (\<lambda>c. class_name c = name)
     [chop_tree_indexer_class, chop_hash_block_fetcher_class, chop_hash_index_handle_class]"


end
