(* ===== verification/Chop_Archiver.thy ===== *)
theory Chop_Archiver
  imports Chop_Index_Tuple Chop_Anchor Chop_Tree_Stream
begin

text \<open>
  The program \<^verbatim>\<open>utils/chop-archiver.c\<close>, which archives a file in a block store and restores it: its
  options, the commands, and \<^verbatim>\<open>main\<close> for one database file (\<^verbatim>\<open>--db-file\<close>), without \<^verbatim>\<open>--verbose\<close>,
  \<^verbatim>\<open>--debug\<close>, \<^verbatim>\<open>--remote\<close>, \<^verbatim>\<open>--show-stats\<close> and the zip options, which put other stores and streams
  before the same commands.  \<^verbatim>\<open>zip-helper.c\<close> looks up the zip classes.  Messages to the standard error
  are left out; writing to the standard output and allocating memory succeed.
\<close>

section \<open>Numbers of the command line\<close>

text \<open>\<^verbatim>\<open>strtoul\<close> for a base of up to 16, or 0: the value and the number of characters used.\<close>

definition strtoul :: "nat \<Rightarrow> bytes \<Rightarrow> nat \<times> nat" where
  "strtoul base s =
    (let ws = length (takeWhile isspace s);
         s1 = drop ws s;
         sign = (s1 \<noteq> [] \<and> (hd s1 = of_char CHR ''-'' \<or> hd s1 = of_char CHR ''+''));
         neg = (s1 \<noteq> [] \<and> hd s1 = of_char CHR ''-'');
         s2 = (if sign then tl s1 else s1);
         hex = (2 < length s2 \<and> s2 ! 0 = of_char CHR ''0''
                \<and> (s2 ! 1 = of_char CHR ''x'' \<or> s2 ! 1 = of_char CHR ''X'') \<and> isxdigit (s2 ! 2));
         b = (if base \<noteq> 0 then base else if hex then 16
              else if s2 \<noteq> [] \<and> hd s2 = of_char CHR ''0'' then 8 else 10);
         skip = (if b = 16 \<and> hex then 2 else 0);
         ds = takeWhile (\<lambda>c. isxdigit c \<and> xdigit_value c < b) (drop skip s2);
         v = foldl (\<lambda>acc c. b * acc + xdigit_value c) 0 ds
     in if ds = [] then (0, 0)
        else (if 2 ^ 64 \<le> v then 2 ^ 64 - 1 else if neg then (2 ^ 64 - v) mod 2 ^ 64 else v,
              ws + (if sign then 1 else 0) + skip + length ds))"

text \<open>\<^verbatim>\<open>strtol\<close> in base 10, and whether it sets \<^verbatim>\<open>ERANGE\<close>.\<close>

definition strtol10 :: "bytes \<Rightarrow> int \<times> nat \<times> bool" where
  "strtol10 s =
    (let ws = length (takeWhile isspace s);
         s1 = drop ws s;
         sign = (s1 \<noteq> [] \<and> (hd s1 = of_char CHR ''-'' \<or> hd s1 = of_char CHR ''+''));
         neg = (s1 \<noteq> [] \<and> hd s1 = of_char CHR ''-'');
         ds = takeWhile (\<lambda>c. isxdigit c \<and> xdigit_value c < 10) (if sign then tl s1 else s1);
         m = int (foldl (\<lambda>acc c. 10 * acc + xdigit_value c) 0 ds);
         v = (if neg then - m else m)
     in if ds = [] then (0, 0, False)
        else (max (- (2 ^ 63)) (min (2 ^ 63 - 1) v), ws + (if sign then 1 else 0) + length ds,
              v < - (2 ^ 63) \<or> 2 ^ 63 - 1 < v))"

section \<open>Options\<close>

text \<open>A call that returns, or ends the program with a status.\<close>

datatype 'a outcome = Return 'a | Exit nat

definition chop_filter_class :: chop_class where
  "chop_filter_class = Chop_Class (ascii ''filter'') (Some chop_object_class)"

definition zip_filter_classes :: "chop_class list" where
  "zip_filter_classes = map (\<lambda>name. Chop_Class (ascii name) (Some chop_filter_class))
     [''zlib_zip_filter'', ''bzip2_zip_filter'', ''lzo_zip_filter'']"

definition unzip_filter_classes :: "chop_class list" where
  "unzip_filter_classes = map (\<lambda>name. Chop_Class (ascii name) (Some chop_filter_class))
     [''zlib_unzip_filter'', ''bzip2_unzip_filter'', ''lzo_unzip_filter'']"

definition get_zip_filter_classes ::
  "(bytes \<Rightarrow> chop_class option) \<Rightarrow> bytes option \<Rightarrow> (chop_class \<times> chop_class) outcome" where
  "get_zip_filter_classes chop_class_lookup short_name =
    (case short_name of
       None \<Rightarrow> Return (zip_filter_classes ! 0, unzip_filter_classes ! 0)
     | Some name \<Rightarrow>
        (case (chop_class_lookup (name @ ascii ''_zip_filter''), chop_class_lookup (name @ ascii ''_unzip_filter'')) of
           (Some z, Some u) \<Rightarrow>
             if z \<in> set zip_filter_classes \<and> u \<in> set unzip_filter_classes then Return (z, u) else Exit 1
         | _ \<Rightarrow> Exit 1))"

record archiver_options =
  archive_queried :: bool
  restore_queried :: bool
  source_is_fd :: bool
  typical_block_size :: nat
  option_argument :: "bytes option"
  db_file_name :: "bytes option"
  smart_storage :: bool
  debugging :: bool
  verbose :: bool
  zip_block_filter_classes :: "(chop_class \<times> chop_class) option"
  zip_stream_filter_classes :: "(chop_class \<times> chop_class) option"
  show_stats :: bool
  remote_hostname :: "bytes option"
  protocol_name :: bytes
  service_port :: nat
  tls_openpgp_pubkey_file :: "bytes option"
  tls_openpgp_privkey_file :: "bytes option"
  use_dbus :: bool
  file_based_store_class_name :: bytes
  chopper_class_name :: bytes
  indexer_class_name :: bytes
  indexer_ascii :: bytes
  block_indexer_class_name :: bytes
  block_indexer_ascii :: bytes

definition default_options :: archiver_options where
  "default_options =
    \<lparr>archive_queried = False, restore_queried = False, source_is_fd = False, typical_block_size = 0,
     option_argument = None, db_file_name = None, smart_storage = True, debugging = False, verbose = False,
     zip_block_filter_classes = None, zip_stream_filter_classes = None, show_stats = False,
     remote_hostname = None, protocol_name = ascii ''tcp'', service_port = 0,
     tls_openpgp_pubkey_file = None, tls_openpgp_privkey_file = None, use_dbus = False,
     file_based_store_class_name = ascii ''gdbm_block_store'', chopper_class_name = ascii ''fixed_size_chopper'',
     indexer_class_name = ascii ''tree_indexer'', indexer_ascii = ascii ''64'',
     block_indexer_class_name = ascii ''hash_block_indexer'', block_indexer_ascii = ascii ''SHA1''\<rparr>"

text \<open>One option with its argument; the flag tells whether the key is known.  The argument of an option
  that needs one is there, argp sees to it.\<close>

definition parse_opt ::
  "(bytes \<Rightarrow> chop_class option) \<Rightarrow> char \<Rightarrow> bytes option \<Rightarrow> archiver_options \<Rightarrow> (bool \<times> archiver_options) outcome" where
  "parse_opt chop_class_lookup key arg opts =
    (let a = (case arg of None \<Rightarrow> [] | Some a \<Rightarrow> a) in
     if key = CHR ''v'' then Return (True, opts\<lparr>verbose := True\<rparr>)
     else if key = CHR ''d'' then Return (True, opts\<lparr>debugging := True\<rparr>)
     else if key = CHR ''s'' then Return (True, opts\<lparr>show_stats := True\<rparr>)
     else if key = CHR ''N'' then Return (True, opts\<lparr>smart_storage := False\<rparr>)
     else if key = CHR ''f'' then Return (True, opts\<lparr>db_file_name := arg\<rparr>)
     else if key = CHR ''b'' then Return (True, opts\<lparr>typical_block_size := fst (strtoul 0 a)\<rparr>)
     else if key = CHR ''a'' then Return (True, opts\<lparr>archive_queried := True, option_argument := arg\<rparr>)
     else if key = CHR ''A'' then Return (True, opts\<lparr>archive_queried := True, source_is_fd := True, option_argument := arg\<rparr>)
     else if key = CHR ''r'' then Return (True, opts\<lparr>restore_queried := True, option_argument := arg\<rparr>)
     else if key = CHR ''Z'' then
       (case get_zip_filter_classes chop_class_lookup arg of
          Exit n \<Rightarrow> Exit n | Return zs \<Rightarrow> Return (True, opts\<lparr>zip_stream_filter_classes := Some zs\<rparr>))
     else if key = CHR ''z'' then
       (case get_zip_filter_classes chop_class_lookup arg of
          Exit n \<Rightarrow> Exit n | Return zs \<Rightarrow> Return (True, opts\<lparr>zip_block_filter_classes := Some zs\<rparr>))
     else if key = CHR ''R'' then
       (let host = takeWhile (\<lambda>c. c \<noteq> colon) a in
        if length host < length a
        then (case strtoul 10 (drop (length host + 1) a) of (port, used) \<Rightarrow>
                if used = 0 then Exit 1
                else Return (True, opts\<lparr>service_port := port, remote_hostname := Some host\<rparr>))
        else Return (True, opts\<lparr>remote_hostname := arg\<rparr>))
     else if key = CHR ''p'' then Return (True, opts\<lparr>protocol_name := a\<rparr>)
     else if key = CHR ''o'' then Return (True, opts\<lparr>tls_openpgp_pubkey_file := arg\<rparr>)
     else if key = CHR ''O'' then Return (True, opts\<lparr>tls_openpgp_privkey_file := arg\<rparr>)
     else if key = CHR ''S'' then Return (True, opts\<lparr>file_based_store_class_name := a\<rparr>)
     else if key = CHR ''C'' then Return (True, opts\<lparr>chopper_class_name := a\<rparr>)
     else if key = CHR ''k'' then Return (True, opts\<lparr>indexer_class_name := a\<rparr>)
     else if key = CHR ''K'' then Return (True, opts\<lparr>indexer_ascii := a\<rparr>)
     else if key = CHR ''i'' then Return (True, opts\<lparr>block_indexer_class_name := a\<rparr>)
     else if key = CHR ''I'' then Return (True, opts\<lparr>block_indexer_ascii := a\<rparr>)
     else if key = CHR ''D'' then Return (True, opts\<lparr>use_dbus := True\<rparr>)
     else Return (False, opts))"

text \<open>\<^verbatim>\<open>argp_parse\<close> calls it for one option after the other.\<close>

fun parse_options ::
  "(bytes \<Rightarrow> chop_class option) \<Rightarrow> (char \<times> bytes option) list \<Rightarrow> archiver_options \<Rightarrow> archiver_options outcome" where
  "parse_options chop_class_lookup [] opts = Return opts"
| "parse_options chop_class_lookup ((key, arg) # rest) opts =
    (case parse_opt chop_class_lookup key arg opts of
       Exit n \<Rightarrow> Exit n
     | Return (known, opts') \<Rightarrow> parse_options chop_class_lookup rest opts')"

section \<open>Choppers of any class\<close>

definition chop_chopper_class :: chop_class where
  "chop_chopper_class = Chop_Class (ascii ''chopper'') (Some chop_object_class)"

definition chop_fixed_size_chopper_class :: chop_class where
  "chop_fixed_size_chopper_class = Chop_Class (ascii ''fixed_size_chopper'') (Some chop_chopper_class)"

definition chop_whole_stream_chopper_class :: chop_class where
  "chop_whole_stream_chopper_class = Chop_Class (ascii ''whole_stream_chopper'') (Some chop_chopper_class)"

definition chop_anchor_based_chopper_class :: chop_class where
  "chop_anchor_based_chopper_class = Chop_Class (ascii ''anchor_based_chopper'') (Some chop_chopper_class)"

text \<open>The instances of the metaclass \<^verbatim>\<open>chop_chopper_class_class\<close>.\<close>

definition chopper_classes :: "chop_class list" where
  "chopper_classes = [chop_fixed_size_chopper_class, chop_whole_stream_chopper_class, chop_anchor_based_chopper_class]"

datatype 's any_chopper =
    Fixed_Chopper "'s fixed_size_chopper"
  | Whole_Chopper 's
  | Anchor_Chopper "'s anchor_based_chopper"

fun any_chopper_read_block :: "'s stream_read \<Rightarrow> 's any_chopper read_block" where
  "any_chopper_read_block rd (Fixed_Chopper c) buffer =
    map_option (map_prod id Fixed_Chopper) (chop_fixed_chopper_read_block rd c buffer)"
| "any_chopper_read_block rd (Whole_Chopper s) buffer =
    map_option (map_prod id Whole_Chopper) (read_whole_stream rd s buffer)"
| "any_chopper_read_block rd (Anchor_Chopper c) buffer =
    map_option (map_prod id Anchor_Chopper) (chop_anchor_chopper_read_block rd c buffer)"

fun chopper_stream :: "'s any_chopper \<Rightarrow> 's" where
  "chopper_stream (Fixed_Chopper c) = fc_stream c"
| "chopper_stream (Whole_Chopper s) = s"
| "chopper_stream (Anchor_Chopper c) = ac_stream c"

definition chop_chopper_generic_open ::
  "32 word \<times> byte \<Rightarrow> chop_class \<Rightarrow> 'o file_stream \<Rightarrow> nat \<Rightarrow> 'o file_stream any_chopper option" where
  "chop_chopper_generic_open junk c input block_size =
    (if c = chop_fixed_size_chopper_class
     then Some (Fixed_Chopper (chop_fs_generic_open input (fs_preferred_block_size input) block_size))
     else if c = chop_whole_stream_chopper_class then Some (Whole_Chopper input)
     else map_option Anchor_Chopper (ab_generic_open junk input (of_nat block_size)))"

section \<open>Archiving\<close>

definition chop_block_indexer_class :: chop_class where
  "chop_block_indexer_class = Chop_Class (ascii ''block_indexer'') (Some chop_object_class)"

definition chop_hash_block_indexer_class :: chop_class where
  "chop_hash_block_indexer_class = Chop_Class (ascii ''hash_block_indexer'') (Some chop_block_indexer_class)"

definition hash_indexer_text :: "hash_block_indexer text_class" where
  "hash_indexer_text = \<lparr>tc_class = chop_hash_block_indexer_class,
     tc_serialize = (\<lambda>x buffer. Some (case hbi_serialize CHOP_SERIAL_ASCII x of Inl err \<Rightarrow> (err, buffer) | Inr a \<Rightarrow> (CHOP_OK, a))),
     tc_deserialize = (\<lambda>buffer sz. Some (hbi_deserialize CHOP_SERIAL_ASCII buffer sz))\<rparr>"

text \<open>What a command gives: how it ended, what it printed, and the states of its objects.\<close>

type_synonym ('c, 'w) archive_run = "(chop_error outcome \<times> bytes \<times> 'c \<times> 'w) option"

text \<open>\<^verbatim>\<open>do_archive\<close> once the class of the block indexer is found: \<open>CB\<close>, \<open>CF\<close>, \<open>CH\<close> are the classes of the block
  indexer, its fetchers and its handles.  A handle that was not set is not looked at (None).\<close>

definition do_archive_with ::
  "'b text_class \<Rightarrow> 'f text_class \<Rightarrow> 'h text_class \<Rightarrow> ('b, 'w, 'h) block_indexer \<Rightarrow> ('b \<Rightarrow> chop_error \<times> 'f) \<Rightarrow> 'h handle_class
     \<Rightarrow> 'c read_block \<Rightarrow> 'w block_store \<Rightarrow> 'w block_store \<Rightarrow> bytes \<Rightarrow> nat \<Rightarrow> 'c \<Rightarrow> 'w \<Rightarrow> ('c, 'w) archive_run" where
  "do_archive_with CB CF CH bi init_fetcher hc rb data_store metadata_store block_indexer_text indexer chopper w =
    Option.bind (tc_deserialize CB (block_indexer_text @ [0]) (length block_indexer_text)) (\<lambda>r. case r of
      Inl err \<Rightarrow> Some (Return err, [], chopper, w)
    | Inr (block_indexer, bytes_read) \<Rightarrow>
        Option.bind (chop_tree_index_blocks indexer rb bi hc data_store metadata_store chopper (block_indexer, w))
          (\<lambda>(err, handle, chopper', block_indexer', w').
            if err \<noteq> CHOP_OK \<and> err \<noteq> CHOP_STREAM_END then Some (Return err, [], chopper', w')
            else case handle of
              None \<Rightarrow> None
            | Some h \<Rightarrow>
                Option.bind (chop_ascii_serialize_index_tuple tree_text CF CH indexer (init_fetcher block_indexer') h [])
                  (\<lambda>(err, buffer).
                    if err \<noteq> CHOP_OK then Some (Exit 8, [], chopper', w')
                    else Some (Return CHOP_OK, takeWhile (\<lambda>c. c \<noteq> 0) buffer @ [10], chopper', w'))))"

text \<open>\<open>methods\<close> gives what the code does for a class of block indexers.  An unknown class is reported with
  the error code 0, as a success.\<close>

definition do_archive ::
  "(bytes \<Rightarrow> chop_class option) \<Rightarrow> (chop_class \<Rightarrow> bytes \<Rightarrow> nat \<Rightarrow> 'c \<Rightarrow> 'w \<Rightarrow> ('c, 'w) archive_run)
     \<Rightarrow> bytes \<Rightarrow> bytes \<Rightarrow> nat \<Rightarrow> 'c \<Rightarrow> 'w \<Rightarrow> ('c, 'w) archive_run" where
  "do_archive chop_class_lookup methods class_nm block_indexer_text indexer chopper w =
    (case chop_class_lookup class_nm of
       None \<Rightarrow> Some (Return CHOP_OK, [], chopper, w)
     | Some c \<Rightarrow>
        if \<not> chop_class_inherits c chop_block_indexer_class then Some (Return CHOP_OK, [], chopper, w)
        else methods c block_indexer_text indexer chopper w)"

definition hash_archive ::
  "gcry_md \<Rightarrow> 'c read_block \<Rightarrow> 'w block_store \<Rightarrow> 'w block_store \<Rightarrow> bytes \<Rightarrow> nat \<Rightarrow> 'c \<Rightarrow> 'w \<Rightarrow> ('c, 'w) archive_run" where
  "hash_archive G = do_archive_with hash_indexer_text hash_fetcher_text hash_handle_text (hash_indexer G)
     (\<lambda>i. (CHOP_OK, hash_indexer_init_fetcher i)) hash_index_handle_class"

section \<open>Restoring\<close>

text \<open>Reading in pieces of 3577 bytes and writing each to the standard output.\<close>

partial_function (option) retrieve_loop :: "'s stream_read \<Rightarrow> bytes \<Rightarrow> 's \<Rightarrow> (chop_error \<times> bytes \<times> 's) option" where
  "retrieve_loop rd out s =
    Option.bind (chop_stream_read rd s 3577) (\<lambda>(err, bs, s').
      if err \<noteq> CHOP_OK then Some (err, out, s') else retrieve_loop rd (out @ bs) s')"

declare retrieve_loop.simps [code]

definition do_retrieve :: "'s stream_read \<Rightarrow> 's \<Rightarrow> (chop_error \<times> bytes \<times> 's) option" where
  "do_retrieve rd s =
    map_option (\<lambda>(err, out, s'). (if err \<noteq> CHOP_STREAM_END then err else CHOP_OK, out, s')) (retrieve_loop rd [] s)"

text \<open>The restoring command once the classes are found: stage 2, then the stream of the tree indexer.\<close>

definition restore_with ::
  "'f text_class \<Rightarrow> 'h text_class \<Rightarrow> ('f, 'w, 'h) block_fetcher \<Rightarrow> 'h handle_class \<Rightarrow> decoded_block
     \<Rightarrow> 'w block_store \<Rightarrow> 'w block_store \<Rightarrow> bytes \<Rightarrow> nat \<Rightarrow> 'w \<Rightarrow> (chop_error outcome \<times> bytes \<times> 'w) option" where
  "restore_with CF CH bf hc junk data_store metadata_store buffer sz w =
    Option.bind (chop_ascii_deserialize_index_tuple_s2 tree_text CF CH buffer sz) (\<lambda>r. case r of
      Inl err \<Rightarrow> Some (Return err, [], w)
    | Inr ((indexer, fetcher, handle), bytes_read) \<Rightarrow>
        map_option (\<lambda>(err, out, stream, fetcher', w'). (Return err, out, w'))
          (do_retrieve (tree_stream_read bf hc metadata_store data_store junk) (chop_tree_fetch_stream handle, fetcher, w)))"

definition hash_restore ::
  "gcry_md \<Rightarrow> decoded_block \<Rightarrow> 'w block_store \<Rightarrow> 'w block_store \<Rightarrow> bytes \<Rightarrow> nat \<Rightarrow> 'w
     \<Rightarrow> (chop_error outcome \<times> bytes \<times> 'w) option" where
  "hash_restore G = restore_with hash_fetcher_text hash_handle_text (hash_fetcher G) hash_index_handle_class"

section \<open>Commands\<close>

text \<open>What the program finds around it: the class table; the system; whether \<^verbatim>\<open>errno\<close> is \<^verbatim>\<open>ERANGE\<close> already
  before a number is parsed; fresh memory; the methods of each class of block indexers, of each triple of
  classes of an archive, and of each class of file-based stores: the store, its opening and its destruction.\<close>

record ('o, 'w) archiver_env =
  class_lookup :: "bytes \<Rightarrow> chop_class option"
  env_system :: "'o file_system"
  errno_is_erange :: bool
  chopper_junk :: "32 word \<times> byte"
  archive_methods ::
    "chop_class \<Rightarrow> 'o file_stream any_chopper read_block \<Rightarrow> 'w block_store \<Rightarrow> 'w block_store \<Rightarrow> bytes \<Rightarrow> nat
       \<Rightarrow> 'o file_stream any_chopper \<Rightarrow> 'w \<Rightarrow> ('o file_stream any_chopper, 'w) archive_run"
  restore_methods ::
    "chop_class \<times> chop_class \<times> chop_class \<Rightarrow> 'w block_store \<Rightarrow> 'w block_store \<Rightarrow> bytes \<Rightarrow> nat \<Rightarrow> 'w
       \<Rightarrow> (chop_error outcome \<times> bytes \<times> 'w) option"
  file_store :: "chop_class \<Rightarrow> 'w block_store"
  open_file_store :: "chop_class \<Rightarrow> bytes \<Rightarrow> 'w \<Rightarrow> chop_error \<times> 'w"
  destroy_file_store :: "chop_class \<Rightarrow> 'w \<Rightarrow> 'w"

text \<open>The stream to archive.  The number of a descriptor is cut to an \<^verbatim>\<open>int\<close>.  A missing argument of
  \<^verbatim>\<open>--archive\<close> would be an invalid address to the system.\<close>

definition open_source ::
  "('o, 'w) archiver_env \<Rightarrow> archiver_options \<Rightarrow> 'o \<Rightarrow> 'o file_stream outcome \<times> 'o" where
  "open_source env opts s =
    (let from_fd = (\<lambda>fd. case chop_file_stream_open_fd (env_system env) (signed_take_bit 31 fd) True s of
                      Inl err \<Rightarrow> (Exit 1, s) | Inr stream \<Rightarrow> (Return stream, s))
     in if source_is_fd opts then
          (case option_argument opts of
             None \<Rightarrow> from_fd 0
           | Some a \<Rightarrow>
              (case strtol10 a of (fd, used, erange) \<Rightarrow>
                 if used = 0 \<or> erange \<or> errno_is_erange env then (Exit 1, s) else from_fd fd))
        else
          (case option_argument opts of
             None \<Rightarrow> (Exit 1, s)
           | Some path \<Rightarrow>
              (case chop_file_stream_open (env_system env) path s of
                 (Inl err, s') \<Rightarrow> (Exit 1, s')
               | (Inr stream, s') \<Rightarrow> (Return stream, s'))))"

text \<open>The indexer: \<^verbatim>\<open>tree_indexer\<close> is the only indexer class with a deserializer.\<close>

definition read_indexer :: "('o, 'w) archiver_env \<Rightarrow> archiver_options \<Rightarrow> nat outcome" where
  "read_indexer env opts =
    (case class_lookup env (indexer_class_name opts) of
       None \<Rightarrow> Exit 1
     | Some c \<Rightarrow>
        if \<not> chop_class_inherits c chop_indexer_class then Exit 1
        else if c \<noteq> chop_tree_indexer_class then Exit 1
        else (case iht_deserialize CHOP_SERIAL_ASCII (indexer_ascii opts @ [0]) of
                Inl err \<Rightarrow> Exit 1 | Inr (indexer, bytes_read) \<Rightarrow> Return indexer))"

definition find_chopper_class :: "('o, 'w) archiver_env \<Rightarrow> archiver_options \<Rightarrow> chop_class outcome" where
  "find_chopper_class env opts =
    (case class_lookup env (chopper_class_name opts) of
       None \<Rightarrow> Exit 1
     | Some c \<Rightarrow> if c \<in> set chopper_classes then Return c else Exit 1)"

text \<open>The archiving command; the stream is closed at its end.\<close>

definition process_archive ::
  "('o, 'w) archiver_env \<Rightarrow> archiver_options \<Rightarrow> 'w block_store \<Rightarrow> 'w block_store \<Rightarrow> 'o \<Rightarrow> 'w
     \<Rightarrow> (chop_error outcome \<times> bytes \<times> 'o \<times> 'w) option" where
  "process_archive env opts data_store metadata_store s w =
    (let rb = any_chopper_read_block (chop_file_stream_read (env_system env)) in
     case open_source env opts s of
       (Exit n, s1) \<Rightarrow> Some (Exit n, [], s1, w)
     | (Return stream, s1) \<Rightarrow>
        (case (read_indexer env opts, find_chopper_class env opts) of
           (Exit n, _) \<Rightarrow> Some (Exit n, [], s1, w)
         | (Return indexer, Exit n) \<Rightarrow> Some (Exit n, [], s1, w)
         | (Return indexer, Return c) \<Rightarrow>
             Option.bind (chop_chopper_generic_open (chopper_junk env) c stream (typical_block_size opts)) (\<lambda>chopper.
               map_option (\<lambda>(r, out, chopper', w').
                   (r, out, fs_system (case r of
                      Return err \<Rightarrow> chop_file_stream_close (env_system env) (chopper_stream chopper')
                    | Exit n \<Rightarrow> chopper_stream chopper'), w'))
                 (do_archive (class_lookup env) (\<lambda>c. archive_methods env c rb data_store metadata_store)
                   (block_indexer_class_name opts) (block_indexer_ascii opts) indexer chopper w))))"

definition process_restore ::
  "('o, 'w) archiver_env \<Rightarrow> 'w block_store \<Rightarrow> 'w block_store \<Rightarrow> bytes \<Rightarrow> 'w \<Rightarrow> (chop_error outcome \<times> bytes \<times> 'w) option" where
  "process_restore env data_store metadata_store argument w =
    (case chop_ascii_deserialize_index_tuple_s1 (class_lookup env) (argument @ [0]) of
       Inl err \<Rightarrow> Some (Return err, [], w)
     | Inr (classes, bytes_read) \<Rightarrow>
         restore_methods env classes data_store metadata_store (drop bytes_read (argument @ [0]))
           (length argument + 1 - bytes_read) w)"

definition process_command ::
  "('o, 'w) archiver_env \<Rightarrow> archiver_options \<Rightarrow> 'w block_store \<Rightarrow> 'w block_store \<Rightarrow> 'o \<Rightarrow> 'w
     \<Rightarrow> (chop_error outcome \<times> bytes \<times> 'o \<times> 'w) option" where
  "process_command env opts data_store metadata_store s w =
    (if archive_queried opts then process_archive env opts data_store metadata_store s w
     else if restore_queried opts then
       (case option_argument opts of
          None \<Rightarrow> None
        | Some argument \<Rightarrow>
            map_option (\<lambda>(r, out, w'). (r, out, s, w')) (process_restore env data_store metadata_store argument w))
     else Some (Exit 1, [], s, w))"

section \<open>The program\<close>

text \<open>Destroying stores.  The destructor of a database store forgets the database before that of its parent
  class closes the store, which then has nothing to close.\<close>

definition gdbm_dtor :: "'d db_store \<Rightarrow> 'd db_store" where
  "gdbm_dtor s = s\<lparr>db_open := False\<rparr>"

definition store_dtor :: "'w block_store \<Rightarrow> 'w \<Rightarrow> 'w" where
  "store_dtor store w = snd (chop_store_close store w)"

definition db_store_destroy :: "'d db_ops \<Rightarrow> 'd db_store \<Rightarrow> 'd db_store" where
  "db_store_destroy ops s = store_dtor (generic_db_store ops) (gdbm_dtor s)"

text \<open>The destructor of a smart store; \<open>destroy\<close> destroys the backend.  It leaves no backend to close.\<close>

definition sbs_dtor :: "chop_proxy_semantics \<Rightarrow> 'w block_store \<Rightarrow> ('w \<Rightarrow> 'w) \<Rightarrow> 'w \<Rightarrow> 'w" where
  "sbs_dtor backend_ps backend destroy w =
    (case backend_ps of
       CHOP_PROXY_LEAVE_AS_IS \<Rightarrow> w
     | CHOP_PROXY_EVENTUALLY_CLOSE \<Rightarrow> snd (chop_store_close backend w)
     | CHOP_PROXY_EVENTUALLY_DESTROY \<Rightarrow> destroy w
     | CHOP_PROXY_EVENTUALLY_FREE \<Rightarrow> destroy w)"

text \<open>The instances of \<^verbatim>\<open>chop_file_based_store_class_class\<close>.\<close>

definition chop_block_store_class :: chop_class where
  "chop_block_store_class = Chop_Class (ascii ''block_store'') (Some chop_object_class)"

definition file_based_store_classes :: "chop_class list" where
  "file_based_store_classes = map (\<lambda>name. Chop_Class (ascii name) (Some chop_block_store_class))
     [''gdbm_block_store'', ''qdbm_block_store'', ''tdb_block_store'', ''bdb_block_store'', ''fs_block_store'']"

text \<open>\<^verbatim>\<open>main\<close> with a single store, in the file \<open>db_file\<close>.  First the store is opened.\<close>

definition open_archive_store ::
  "('o, 'w) archiver_env \<Rightarrow> archiver_options \<Rightarrow> bytes \<Rightarrow> 'w \<Rightarrow> chop_class outcome \<times> 'w" where
  "open_archive_store env opts db_file w =
    (case class_lookup env (file_based_store_class_name opts) of
       None \<Rightarrow> (Exit 1, w)
     | Some c \<Rightarrow>
        if c \<notin> set file_based_store_classes then (Exit 1, w)
        else (case open_file_store env c db_file w of (err, w') \<Rightarrow>
                if err \<noteq> CHOP_OK then (Exit 3, w') else (Return c, w')))"

text \<open>Then a smart store may be put before it: the store of the commands, and what destroying it does.\<close>

definition smart_archive_store ::
  "('o, 'w) archiver_env \<Rightarrow> archiver_options \<Rightarrow> chop_class \<Rightarrow> 'w block_store \<times> ('w \<Rightarrow> 'w)" where
  "smart_archive_store env opts c =
    (if smart_storage opts \<and> archive_queried opts
     then (smart_block_store CHOP_PROXY_EVENTUALLY_DESTROY (file_store env c),
           sbs_dtor CHOP_PROXY_EVENTUALLY_DESTROY (file_store env c) (destroy_file_store env c))
     else (file_store env c, destroy_file_store env c))"

text \<open>The exit status, what was printed, and the states of the system and of the store.\<close>

definition archiver_main ::
  "('o, 'w) archiver_env \<Rightarrow> archiver_options \<Rightarrow> bytes \<Rightarrow> 'o \<Rightarrow> 'w \<Rightarrow> (nat \<times> bytes \<times> 'o \<times> 'w) option" where
  "archiver_main env opts db_file s w =
    (case open_archive_store env opts db_file w of
       (Exit n, w1) \<Rightarrow> Some (n, [], s, w1)
     | (Return c, w1) \<Rightarrow>
        (case smart_archive_store env opts c of (store, destroy) \<Rightarrow>
           map_option (\<lambda>(r, out, s', w').
             case r of
               Exit n \<Rightarrow> (n, out, s', w')
             | Return err \<Rightarrow>
                 (case chop_store_close store w' of (close_err, w2) \<Rightarrow>
                    if close_err \<noteq> CHOP_OK then (7, out, s', w2)
                    else (if err \<noteq> CHOP_OK then 1 else 0, out, s', destroy w2)))
             (process_command env opts store store s w1)))"

end
