(* ===== verification/Chop_FS.thy ===== *)
theory Chop_FS
  imports Chop_Base32 Chop_Stores
begin

text \<open>
  The store that keeps every block in a file of its own (\<^verbatim>\<open>src/src/store-fs.c\<close>), named after the base32
  form of the key, the first two characters being the name of a subdirectory.  The file system is
  modelled as far as the code uses it: subdirectories of files, and a limit to the size of a file.  A
  file name \<open>DIR/FILE\<close> is the pair of its parts.  None is a failed assertion.
\<close>

section \<open>The file system\<close>

type_synonym fs_name = "bytes \<times> bytes"

record fs_store =
  fs_dir_open :: bool
  fs_dirs :: "bytes \<rightharpoonup> bytes \<rightharpoonup> bytes"
  fs_limit :: nat

text \<open>Error numbers.\<close>

definition ENOENT :: nat where "ENOENT = 2"
definition EBADF :: nat where "EBADF = 9"
definition EEXIST :: nat where "EEXIST = 17"
definition EFBIG :: nat where "EFBIG = 27"
definition ENOTEMPTY :: nat where "ENOTEMPTY = 39"

lemmas errnos = ENOENT_def EBADF_def EEXIST_def EFBIG_def ENOTEMPTY_def

definition fs_lookup :: "fs_store \<Rightarrow> fs_name \<Rightarrow> bytes option" where
  "fs_lookup s name = Option.bind (fs_dirs s (fst name)) (\<lambda>files. files (snd name))"

definition fs_update :: "fs_store \<Rightarrow> fs_name \<Rightarrow> bytes option \<Rightarrow> fs_store" where
  "fs_update s name c =
    (case fs_dirs s (fst name) of
       None \<Rightarrow> s
     | Some files \<Rightarrow> s\<lparr>fs_dirs := (fs_dirs s)(fst name \<mapsto> files(snd name := c))\<rparr>)"

text \<open>System calls give an error number or their result.\<close>

definition fstatat :: "fs_store \<Rightarrow> fs_name \<Rightarrow> nat + unit" where
  "fstatat s name = (if \<not> fs_dir_open s then Inl EBADF else if fs_lookup s name = None then Inl ENOENT else Inr ())"

definition openat_read :: "fs_store \<Rightarrow> fs_name \<Rightarrow> nat + bytes" where
  "openat_read s name =
    (if \<not> fs_dir_open s then Inl EBADF else case fs_lookup s name of None \<Rightarrow> Inl ENOENT | Some c \<Rightarrow> Inr c)"

definition openat_create :: "fs_store \<Rightarrow> fs_name \<Rightarrow> nat + fs_store" where
  "openat_create s name =
    (if \<not> fs_dir_open s then Inl EBADF
     else if fs_dirs s (fst name) = None then Inl ENOENT
     else if fs_lookup s name = None then Inr (fs_update s name (Some []))
     else Inr s)"

definition mkdirat :: "fs_store \<Rightarrow> bytes \<Rightarrow> nat + fs_store" where
  "mkdirat s d =
    (if \<not> fs_dir_open s then Inl EBADF
     else if fs_dirs s d \<noteq> None then Inl EEXIST
     else Inr (s\<lparr>fs_dirs := (fs_dirs s)(d \<mapsto> Map.empty)\<rparr>))"

definition unlinkat :: "fs_store \<Rightarrow> fs_name \<Rightarrow> nat + fs_store" where
  "unlinkat s name =
    (if \<not> fs_dir_open s then Inl EBADF
     else if fs_lookup s name = None then Inl ENOENT
     else Inr (fs_update s name None))"

definition unlinkat_dir :: "fs_store \<Rightarrow> bytes \<Rightarrow> nat + fs_store" where
  "unlinkat_dir s d =
    (if \<not> fs_dir_open s then Inl EBADF
     else case fs_dirs s d of
       None \<Rightarrow> Inl ENOENT
     | Some files \<Rightarrow> if files \<noteq> Map.empty then Inl ENOTEMPTY else Inr (s\<lparr>fs_dirs := (fs_dirs s)(d := None)\<rparr>))"

text \<open>Writing at the start of a file: the number of bytes written and the new contents.\<close>

definition full_write :: "nat \<Rightarrow> bytes \<Rightarrow> bytes \<Rightarrow> nat \<times> bytes" where
  "full_write limit old block =
    (let count = min limit (length block) in (count, take count block @ drop count old))"

section \<open>Operations\<close>

definition block_file_name :: "block_key \<Rightarrow> fs_name option" where
  "block_file_name key =
    (let buffer = chop_buffer_to_base32_string key
     in if length buffer > 2 \<and> length buffer < length key * 2 + 1 then Some (take 2 buffer, drop 2 buffer) else None)"

fun fs_blocks_exist ::
  "fs_store \<Rightarrow> block_key list \<Rightarrow> bool list \<Rightarrow> (chop_error \<times> bool list) option" where
  "fs_blocks_exist s [] exists = Some (CHOP_OK, exists)"
| "fs_blocks_exist s (key # keys) exists =
    Option.bind (block_file_name key) (\<lambda>name.
      (case fstatat s name of
         Inr _ \<Rightarrow> map_option (\<lambda>(err, es). (err, True # es)) (fs_blocks_exist s keys (tl exists))
       | Inl errno \<Rightarrow>
           if errno = ENOENT then map_option (\<lambda>(err, es). (err, False # es)) (fs_blocks_exist s keys (tl exists))
           else Some (ERRNO errno, False # tl exists)))"

text \<open>Reading 1024 bytes at a time from offset \<open>pos\<close>; the buffer is appended to.\<close>

function fs_read_loop :: "bytes \<Rightarrow> nat \<Rightarrow> bytes \<Rightarrow> nat \<Rightarrow> bytes \<times> nat" where
  "fs_read_loop file pos buffer tot =
    (let data = take 1024 (drop pos file); count = length data
     in if 0 < count then fs_read_loop file (pos + count) (buffer @ data) (tot + count) else (buffer, tot))"
  by auto
termination by (relation "measure (\<lambda>(file, pos, buffer, tot). length file - pos)") auto

declare fs_read_loop.simps [simp del]

definition fs_read_block :: "fs_store \<Rightarrow> block_key \<Rightarrow> bytes \<Rightarrow> (chop_error \<times> bytes \<times> nat) option" where
  "fs_read_block s key buffer =
    Option.bind (block_file_name key) (\<lambda>name.
      (case openat_read s name of
         Inl errno \<Rightarrow> Some (if errno = ENOENT then CHOP_STORE_BLOCK_UNAVAIL else ERRNO errno, buffer, 0)
       | Inr file \<Rightarrow> (case fs_read_loop file 0 buffer 0 of (buffer', tot) \<Rightarrow> Some (CHOP_OK, buffer', tot))))"

text \<open>The attempts of a write: the file, then the directory, then again.\<close>

partial_function (option) fs_write_try ::
  "fs_name \<Rightarrow> bytes \<Rightarrow> bool \<Rightarrow> fs_store \<Rightarrow> (chop_error \<times> fs_store) option" where
  "fs_write_try name block new_dir s =
    (case openat_create s name of
       Inr s1 \<Rightarrow>
         let old = (if new_dir then the (fs_lookup s1 name) else []) in
         (case full_write (fs_limit s1) old block of (count, c) \<Rightarrow>
            Some (if count < length block then ERRNO EFBIG else CHOP_OK, fs_update s1 name (Some c)))
     | Inl errno \<Rightarrow>
         if errno = ENOENT then
           (case mkdirat s (fst name) of
              Inr s1 \<Rightarrow> fs_write_try name block True s1
            | Inl errno' \<Rightarrow> if errno' = EEXIST then fs_write_try name block True s else Some (ERRNO errno', s))
         else Some (ERRNO errno, s))"

declare fs_write_try.simps [code]

definition fs_write_block :: "fs_store \<Rightarrow> block_key \<Rightarrow> bytes \<Rightarrow> (chop_error \<times> fs_store) option" where
  "fs_write_block s key block = Option.bind (block_file_name key) (\<lambda>name. fs_write_try name block False s)"

definition fs_delete_block :: "fs_store \<Rightarrow> block_key \<Rightarrow> (chop_error \<times> fs_store) option" where
  "fs_delete_block s key =
    Option.bind (block_file_name key) (\<lambda>name.
      (case unlinkat s name of
         Inl errno \<Rightarrow> Some (if errno = ENOENT then CHOP_STORE_BLOCK_UNAVAIL else ERRNO errno, s)
       | Inr s1 \<Rightarrow>
           (case unlinkat_dir s1 (fst name) of
              Inr s2 \<Rightarrow> Some (CHOP_OK, s2)
            | Inl errno \<Rightarrow> Some (if errno = ENOTEMPTY \<or> errno = EEXIST then CHOP_OK else ERRNO errno, s1))))"

definition fs_sync :: "fs_store \<Rightarrow> chop_error \<times> fs_store" where
  "fs_sync s = (CHOP_OK, s)"

definition fs_close :: "fs_store \<Rightarrow> chop_error \<times> fs_store" where
  "fs_close s = (CHOP_OK, s\<lparr>fs_dir_open := False\<rparr>)"

definition chop_fs_store_open :: "(bytes \<rightharpoonup> bytes \<rightharpoonup> bytes) \<Rightarrow> nat \<Rightarrow> fs_store" where
  "chop_fs_store_open dirs limit = \<lparr>fs_dir_open = True, fs_dirs = dirs, fs_limit = limit\<rparr>"

section \<open>File names\<close>

lemma length_base32: "length (chop_buffer_to_base32_string xs) = 8 * ((length xs + 4) div 5)"
proof -
  let ?q = "(length xs * 8 + 4) div 5"
  have "length (chop_buffer_to_base32_string xs) = ?q + (8 - ?q mod 8) mod 8"
    by (simp add: base32_encode_spec rfc4648_base32_def Let_def length_rfc4648_chars)
  moreover have "?q + (8 - ?q mod 8) mod 8 = 8 * ((length xs + 4) div 5)"
  proof -
    obtain k r where n: "length xs = 5 * k + r" "r < 5" by (metis mod_less_divisor mult_div_mod_eq zero_less_numeral)
    then consider "r = 0" | "r = 1" | "r = 2" | "r = 3" | "r = 4" by linarith
    then show ?thesis
    proof cases
      case 1
      then have "?q = 8 * k" "(length xs + 4) div 5 = k" using n by presburger+
      then show ?thesis by simp
    next
      case 2
      then have "?q = 8 * k + 2" "?q mod 8 = 2" "(length xs + 4) div 5 = k + 1" using n by presburger+
      then show ?thesis by simp
    next
      case 3
      then have "?q = 8 * k + 4" "?q mod 8 = 4" "(length xs + 4) div 5 = k + 1" using n by presburger+
      then show ?thesis by simp
    next
      case 4
      then have "?q = 8 * k + 5" "?q mod 8 = 5" "(length xs + 4) div 5 = k + 1" using n by presburger+
      then show ?thesis by simp
    next
      case 5
      then have "?q = 8 * k + 7" "?q mod 8 = 7" "(length xs + 4) div 5 = k + 1" using n by presburger+
      then show ?thesis by simp
    qed
  qed
  ultimately show ?thesis by simp
qed

lemma base32_inj: "chop_buffer_to_base32_string xs = chop_buffer_to_base32_string ys \<Longrightarrow> xs = ys"
  using base32_round_trip [of xs "[]"] base32_round_trip [of ys "[]"] by simp

lemma block_file_name_Some:
  "block_file_name key = Some name \<Longrightarrow> fst name @ snd name = chop_buffer_to_base32_string key"
  by (auto simp: block_file_name_def Let_def split: if_splits)

lemma block_file_name_inj:
  "block_file_name k = Some n \<Longrightarrow> block_file_name k' = Some n \<Longrightarrow> k = k'"
  using block_file_name_Some [of k n] block_file_name_Some [of k' n] base32_inj [of k k'] by simp

lemma named_iff: "block_file_name key \<noteq> None \<longleftrightarrow> length key \<notin> {0, 1, 2, 3, 6, 7, 11}"
proof -
  define n where "n = length key"
  have small: "\<forall>n \<in> set [0..<16]. 8 * ((n + 4) div 5) > 2 \<and> 8 * ((n + 4) div 5) < n * 2 + 1 \<longleftrightarrow> n \<notin> {0, 1, 2, 3, 6, 7, 11}"
    by (simp add: upt_rec)
  have "8 * ((n + 4) div 5) > 2 \<and> 8 * ((n + 4) div 5) < n * 2 + 1 \<longleftrightarrow> n \<notin> {0, 1, 2, 3, 6, 7, 11}"
  proof (cases "n < 16")
    case True
    then have "n \<in> set [0..<16]" by simp
    with small show ?thesis by blast
  next
    case False
    have "5 * ((n + 4) div 5) \<le> n + 4" "4 \<le> (n + 4) div 5" using False by simp_all
    with False show ?thesis by auto
  qed
  then show ?thesis by (simp add: block_file_name_def length_base32 Let_def n_def)
qed

section \<open>The effect of the operations\<close>

definition fs_contents :: "fs_store \<Rightarrow> block_key \<rightharpoonup> bytes" where
  "fs_contents s key = Option.bind (block_file_name key) (fs_lookup s)"

lemma fs_contents_named: "block_file_name key = Some name \<Longrightarrow> fs_contents s key = fs_lookup s name"
  by (simp add: fs_contents_def)

lemma fs_lookup_update:
  "fs_dirs s (fst name) \<noteq> None \<Longrightarrow> fs_lookup (fs_update s name c) n = (if n = name then c else fs_lookup s n)"
  by (cases n; cases name) (auto simp: fs_lookup_def fs_update_def)

lemma fs_update_same [simp]:
  "fs_dir_open (fs_update s name c) = fs_dir_open s" "fs_limit (fs_update s name c) = fs_limit s"
  by (auto simp: fs_update_def split: option.splits)

lemma fs_update_dirs: "fs_dirs s d \<noteq> None \<Longrightarrow> fs_dirs (fs_update s name c) d \<noteq> None"
  by (auto simp: fs_update_def split: option.splits)

lemma contents_of_lookup:
  assumes "block_file_name key = Some name" "\<And>n. fs_lookup s' n = (if n = name then c else fs_lookup s n)"
  shows "fs_contents s' = (fs_contents s)(key := c)"
proof
  fix k
  show "fs_contents s' k = ((fs_contents s)(key := c)) k"
  proof (cases "block_file_name k")
    case (Some n)
    then have "n = name \<longleftrightarrow> k = key" using block_file_name_inj [of k n key] assms(1) by auto
    with Some assms(2) show ?thesis by (auto simp: fs_contents_named)
  qed (use assms(1) in \<open>auto simp: fs_contents_def\<close>)
qed

lemma fs_read_loop_spec:
  "fs_read_loop data pos buffer tot = (buffer @ drop pos data, tot + length (drop pos data))"
proof (induction data pos buffer tot rule: fs_read_loop.induct)
  case (1 data pos buffer tot)
  show ?case
  proof (cases "drop pos data = []")
    case False
    let ?chunk = "take 1024 (drop pos data)"
    have "?chunk @ drop (pos + length ?chunk) data = drop pos data"
    proof -
      have "drop (pos + length ?chunk) data = drop (length ?chunk) (drop pos data)" by (simp add: add.commute)
      also have "\<dots> = drop 1024 (drop pos data)" by (cases "1024 \<le> length (drop pos data)") (simp_all add: min_def)
      finally show ?thesis by (simp only: append_take_drop_id)
    qed
    then have "buffer @ drop pos data = (buffer @ ?chunk) @ drop (pos + length ?chunk) data"
      "length (drop pos data) = length ?chunk + length (drop (pos + length ?chunk) data)"
      by (metis append.assoc, metis length_append)
    with 1 [OF refl refl] False show ?thesis by (subst fs_read_loop.simps) (simp add: Let_def)
  qed (simp add: fs_read_loop.simps [of data pos])
qed

lemma fs_read_ok:
  assumes "fs_dir_open s" "block_file_name key \<noteq> None"
  shows "fs_read_block s key buffer =
    Some (case fs_contents s key of Some b \<Rightarrow> (CHOP_OK, buffer @ b, length b) | None \<Rightarrow> (CHOP_STORE_BLOCK_UNAVAIL, buffer, 0))"
  using assms
  by (auto simp: fs_read_block_def fs_contents_def openat_read_def fs_read_loop_spec ENOENT_def split: option.splits)

lemma fs_create_write:
  assumes "fs_dir_open s" "fs_dirs s (fst name) \<noteq> None" "new_dir \<Longrightarrow> fs_lookup s name = None"
  shows "\<exists>s'. fs_write_try name block new_dir s
      = Some (if fs_limit s < length block then ERRNO EFBIG else CHOP_OK, s')
    \<and> fs_dir_open s' \<and> fs_limit s' = fs_limit s
    \<and> (\<forall>n. fs_lookup s' n = (if n = name then Some (take (fs_limit s) block) else fs_lookup s n))"
proof -
  obtain s1 where s1: "openat_create s name = Inr s1" "fs_dir_open s1" "fs_limit s1 = fs_limit s"
    "fs_dirs s1 (fst name) \<noteq> None"
    "\<forall>n. fs_lookup s1 n = (if n = name then Some (case fs_lookup s name of None \<Rightarrow> [] | Some c \<Rightarrow> c) else fs_lookup s n)"
  proof (cases "fs_lookup s name")
    case None
    with assms that [of "fs_update s name (Some [])"] show ?thesis
      by (simp add: openat_create_def fs_lookup_update fs_update_dirs del: not_None_eq)
  next
    case (Some c)
    with assms that [of s] show ?thesis by (simp add: openat_create_def)
  qed
  have old: "(if new_dir then the (fs_lookup s1 name) else []) = []" using assms(3) s1(5) [THEN spec, of name] by simp
  have take: "take (min (fs_limit s) (length block)) block = take (fs_limit s) block"
    by (simp add: min_def)
  have "min (fs_limit s) (length block) < length block \<longleftrightarrow> fs_limit s < length block" by auto
  then have "fs_write_try name block new_dir s
      = Some (if fs_limit s < length block then ERRNO EFBIG else CHOP_OK, fs_update s1 name (Some (take (fs_limit s) block)))"
    using old s1(1,3) take by (subst fs_write_try.simps) (simp add: full_write_def Let_def)
  with s1 show ?thesis by (auto simp: fs_lookup_update)
qed

lemma fs_write_ok:
  assumes "fs_dir_open s" "block_file_name key = Some name"
  shows "\<exists>s'. fs_write_block s key block = Some (if fs_limit s < length block then ERRNO EFBIG else CHOP_OK, s')
    \<and> fs_dir_open s' \<and> fs_limit s' = fs_limit s
    \<and> fs_contents s' = (fs_contents s)(key \<mapsto> take (fs_limit s) block)"
proof -
  have "\<exists>s'. fs_write_try name block False s = Some (if fs_limit s < length block then ERRNO EFBIG else CHOP_OK, s')
    \<and> fs_dir_open s' \<and> fs_limit s' = fs_limit s
    \<and> (\<forall>n. fs_lookup s' n = (if n = name then Some (take (fs_limit s) block) else fs_lookup s n))"
  proof (cases "fs_dirs s (fst name)")
    case (Some files)
    then show ?thesis using fs_create_write [OF assms(1), of name False block] by simp
  next
    case None
    let ?s1 = "s\<lparr>fs_dirs := (fs_dirs s)(fst name \<mapsto> Map.empty)\<rparr>"
    have look: "fs_lookup ?s1 n = fs_lookup s n" for n using None by (cases n) (auto simp: fs_lookup_def)
    have "fs_lookup ?s1 name = None" using None by (simp add: fs_lookup_def)
    from fs_create_write [of ?s1 name True block, OF _ _ this] assms(1) obtain s' where
      "fs_write_try name block True ?s1 = Some (if fs_limit s < length block then ERRNO EFBIG else CHOP_OK, s')"
      "fs_dir_open s'" "fs_limit s' = fs_limit s"
      "\<forall>n. fs_lookup s' n = (if n = name then Some (take (fs_limit s) block) else fs_lookup s n)"
      by (auto simp: look)
    moreover have "fs_write_try name block False s = fs_write_try name block True ?s1"
      using None assms(1) by (subst fs_write_try.simps) (simp add: openat_create_def mkdirat_def)
    ultimately show ?thesis by auto
  qed
  then show ?thesis using assms(2) contents_of_lookup [OF assms(2)] by (auto simp: fs_write_block_def)
qed

lemma fs_delete_ok:
  assumes "fs_dir_open s" "block_file_name key = Some name"
  shows "\<exists>s'. fs_delete_block s key =
      Some (if key \<in> dom (fs_contents s) then CHOP_OK else CHOP_STORE_BLOCK_UNAVAIL, s')
    \<and> fs_dir_open s' \<and> fs_limit s' = fs_limit s \<and> fs_contents s' = (fs_contents s)(key := None)"
proof (cases "fs_lookup s name")
  case None
  then have "(fs_contents s)(key := None) = fs_contents s"
    using fs_contents_named [OF assms(2)] by (simp add: fun_upd_idem)
  with None assms show ?thesis
    by (auto simp: fs_delete_block_def unlinkat_def fs_contents_named dom_def)
next
  case (Some c)
  let ?s1 = "fs_update s name None"
  obtain files where files: "fs_dirs s (fst name) = Some files" using Some by (auto simp: fs_lookup_def bind_eq_Some_conv)
  have look: "fs_lookup ?s1 n = (if n = name then None else fs_lookup s n)" for n
    using files by (simp add: fs_lookup_update)
  have dirs1: "fs_dirs ?s1 (fst name) = Some (files(snd name := None))" using files by (simp add: fs_update_def)
  let ?s2 = "?s1\<lparr>fs_dirs := (fs_dirs ?s1)(fst name := None)\<rparr>"
  have "fs_lookup ?s2 n = fs_lookup ?s1 n" if "files(snd name := None) = Map.empty" for n
    using dirs1 that by (cases n) (auto simp: fs_lookup_def)
  then have "fs_contents (if files(snd name := None) = Map.empty then ?s2 else ?s1) = (fs_contents s)(key := None)"
    using look by (intro contents_of_lookup [OF assms(2)]) auto
  moreover have "fs_delete_block s key = Some (CHOP_OK, if files(snd name := None) = Map.empty then ?s2 else ?s1)"
    using assms Some dirs1 by (simp add: fs_delete_block_def unlinkat_def unlinkat_dir_def errnos)
  moreover have "key \<in> dom (fs_contents s)" using Some fs_contents_named [OF assms(2)] by auto
  ultimately show ?thesis using assms(1) by auto
qed

section \<open>Main properties\<close>

text \<open>What a sequence of writes and deletions does to a map, and the codes it gives.\<close>

fun map_run :: "store_cmd list \<Rightarrow> (block_key \<rightharpoonup> bytes) \<Rightarrow> chop_error list \<times> (block_key \<rightharpoonup> bytes)" where
  "map_run [] m = ([], m)"
| "map_run (Write_Block key block # cs) m = map_prod ((#) CHOP_OK) (\<lambda>m. m) (map_run cs (m(key \<mapsto> block)))"
| "map_run (Delete_Block key # cs) m =
     map_prod ((#) (if key \<in> dom m then CHOP_OK else CHOP_STORE_BLOCK_UNAVAIL)) (\<lambda>m. m) (map_run cs (m(key := None)))"

primrec fs_cmd :: "store_cmd \<Rightarrow> fs_store \<Rightarrow> (chop_error \<times> fs_store) option" where
  "fs_cmd (Write_Block key block) s = fs_write_block s key block"
| "fs_cmd (Delete_Block key) s = fs_delete_block s key"

fun fs_cmds :: "store_cmd list \<Rightarrow> fs_store \<Rightarrow> (chop_error list \<times> fs_store) option" where
  "fs_cmds [] s = Some ([], s)"
| "fs_cmds (c # cs) s =
    Option.bind (fs_cmd c s) (\<lambda>(err, s'). map_option (\<lambda>(errs, s''). (err # errs, s'')) (fs_cmds cs s'))"

definition name_size :: "block_key \<Rightarrow> bool" where
  "name_size key \<longleftrightarrow> length key \<notin> {0, 1, 2, 3, 6, 7, 11}"

primrec fs_cmd_fits :: "nat \<Rightarrow> store_cmd \<Rightarrow> bool" where
  "fs_cmd_fits limit (Write_Block key block) \<longleftrightarrow> name_size key \<and> length block \<le> limit"
| "fs_cmd_fits limit (Delete_Block key) \<longleftrightarrow> name_size key"

lemma name_size_Some: "name_size key \<Longrightarrow> \<exists>name. block_file_name key = Some name"
  using named_iff [of key] by (auto simp: name_size_def)

lemma fs_cmds_refine:
  assumes "fs_dir_open s" "list_all (fs_cmd_fits (fs_limit s)) cs"
  shows "\<exists>s'. fs_cmds cs s = Some (fst (map_run cs (fs_contents s)), s') \<and> fs_dir_open s'
    \<and> fs_contents s' = snd (map_run cs (fs_contents s))"
  using assms
proof (induction cs arbitrary: s)
  case (Cons c cs)
  show ?case
  proof (cases c)
    case (Write_Block key block)
    then have "name_size key" and len: "length block \<le> fs_limit s" using Cons.prems(2) by auto
    then obtain name where n: "block_file_name key = Some name" using name_size_Some by blast
    from fs_write_ok [OF Cons.prems(1) n, of block] len obtain s' where
      s': "fs_write_block s key block = Some (CHOP_OK, s')" "fs_dir_open s'" "fs_limit s' = fs_limit s"
      "fs_contents s' = (fs_contents s)(key \<mapsto> block)" by auto
    have rest: "list_all (fs_cmd_fits (fs_limit s')) cs" using Cons.prems(2) s'(3) by simp
    from Cons.IH [OF s'(2) rest] obtain s'' where
      "fs_cmds cs s' = Some (fst (map_run cs ((fs_contents s)(key \<mapsto> block))), s'')" "fs_dir_open s''"
      "fs_contents s'' = snd (map_run cs ((fs_contents s)(key \<mapsto> block)))" unfolding s'(4) by blast
    with s'(1) show ?thesis by (simp add: Write_Block)
  next
    case (Delete_Block key)
    then have "name_size key" using Cons.prems(2) by auto
    then obtain name where n: "block_file_name key = Some name" using name_size_Some by blast
    from fs_delete_ok [OF Cons.prems(1) n] obtain s' where
      s': "fs_delete_block s key = Some (if key \<in> dom (fs_contents s) then CHOP_OK else CHOP_STORE_BLOCK_UNAVAIL, s')"
      "fs_dir_open s'" "fs_limit s' = fs_limit s" "fs_contents s' = (fs_contents s)(key := None)" by auto
    have rest: "list_all (fs_cmd_fits (fs_limit s')) cs" using Cons.prems(2) s'(3) by simp
    from Cons.IH [OF s'(2) rest] obtain s'' where
      "fs_cmds cs s' = Some (fst (map_run cs ((fs_contents s)(key := None))), s'')" "fs_dir_open s''"
      "fs_contents s'' = snd (map_run cs ((fs_contents s)(key := None)))" unfolding s'(4) by blast
    with s'(1) show ?thesis by (simp add: Delete_Block)
  qed
qed simp

text \<open>C22: the file names of blocks.  Different keys have different names; but only keys of some sizes have
  one: for keys of 1, 2, 3, 6, 7 or 11 bytes (and the empty key) an assertion fails, because the padded base32 form
  is longer than twice the key.\<close>

theorem fs_file_names:
  "(block_file_name key \<noteq> None \<longleftrightarrow> length key \<notin> {0, 1, 2, 3, 6, 7, 11})
    \<and> (block_file_name key = Some name \<and> block_file_name key' = Some name \<longrightarrow> key = key')"
  using named_iff [of key] block_file_name_inj [of key name key'] by blast

text \<open>C20: the file-system store refines a map.  For keys that have a file name and blocks below the size
  limit, any sequence of writes and deletions returns exactly the codes of the map operations,
  whether directories have to be made or can be removed on the way; and afterwards reading
  a key appends the block the map holds to the buffer, or says that there is none.\<close>

theorem fs_store_refines_map:
  assumes "fs_dir_open s" and "list_all (fs_cmd_fits (fs_limit s)) cs" and "name_size key"
  shows "\<exists>s'. fs_cmds cs s = Some (fst (map_run cs (fs_contents s)), s')
    \<and> fs_read_block s' key buffer =
        Some (case snd (map_run cs (fs_contents s)) key of
            Some b \<Rightarrow> (CHOP_OK, buffer @ b, length b)
          | None \<Rightarrow> (CHOP_STORE_BLOCK_UNAVAIL, buffer, 0))"
proof -
  from fs_cmds_refine [OF assms(1,2)] obtain s' where
    "fs_cmds cs s = Some (fst (map_run cs (fs_contents s)), s')" "fs_dir_open s'"
    "fs_contents s' = snd (map_run cs (fs_contents s))" by blast
  moreover have "block_file_name key \<noteq> None" using name_size_Some [OF assms(3)] by auto
  ultimately show ?thesis using fs_read_ok [of s' key buffer] by simp
qed

text \<open>C23: a write that fails destroys the block that was there.  When the file system cannot take the whole
  block, the error is reported, but the file has been cut already: the key then reads, with success,
  as the part that was written.\<close>

theorem fs_failed_write_truncates:
  assumes "fs_dir_open s" and "name_size key" and "fs_limit s < length block"
  shows "\<exists>s'. fs_write_block s key block = Some (ERRNO EFBIG, s')
    \<and> fs_read_block s' key [] = Some (CHOP_OK, take (fs_limit s) block, fs_limit s)"
proof -
  obtain name where name: "block_file_name key = Some name" using name_size_Some [OF assms(2)] by blast
  from fs_write_ok [OF assms(1) name, of block] assms(3) obtain s' where
    "fs_write_block s key block = Some (ERRNO EFBIG, s')" "fs_dir_open s'"
    "fs_contents s' key = Some (take (fs_limit s) block)" by auto
  with fs_read_ok [of s' key "[]"] name assms(3) show ?thesis by simp
qed

text \<open>An empty directory with room for four bytes in a file.\<close>

abbreviation sample_fs :: fs_store where
  "sample_fs \<equiv> chop_fs_store_open Map.empty 4"

theorem fs_file_names_witness: "block_file_name [1, 2, 3, 4] \<noteq> block_file_name [1, 2, 3, 5]"
proof -
  obtain name where "block_file_name [1, 2, 3, 4] = Some name" using named_iff [of "[1, 2, 3, 4]"] by auto
  with fs_file_names [of "[1, 2, 3, 4]" name "[1, 2, 3, 5]"] show ?thesis by auto
qed

theorem fs_store_refines_map_witness:
  "\<exists>s'. fs_cmds [Write_Block [1, 2, 3, 4] [7], Delete_Block [1, 2, 3, 5]] sample_fs
      = Some ([CHOP_OK, CHOP_STORE_BLOCK_UNAVAIL], s')
    \<and> fs_read_block s' [1, 2, 3, 4] [] = Some (CHOP_OK, [7], 1)"
proof -
  have "fs_contents sample_fs = Map.empty"
    by (auto simp: fs_contents_def fs_lookup_def chop_fs_store_open_def fun_eq_iff bind_eq_None_conv)
  with fs_store_refines_map [of sample_fs "[Write_Block [1, 2, 3, 4] [7], Delete_Block [1, 2, 3, 5]]" "[1, 2, 3, 4]" "[]"]
  show ?thesis by (auto simp: chop_fs_store_open_def name_size_def)
qed

theorem fs_failed_write_truncates_witness:
  "\<exists>s'. fs_write_block sample_fs [1, 2, 3, 4] [5, 6, 7, 8, 9] = Some (ERRNO EFBIG, s')
    \<and> fs_read_block s' [1, 2, 3, 4] [] = Some (CHOP_OK, [5, 6, 7, 8], 4)"
  using fs_failed_write_truncates [of sample_fs "[1, 2, 3, 4]" "[5, 6, 7, 8, 9]"]
  by (simp add: chop_fs_store_open_def name_size_def)

end
