(* ===== verification/Chop_FS_Iterator.thy ===== *)
theory Chop_FS_Iterator
  imports Chop_FS
begin

text \<open>
  Opening the directory store and iterating over its blocks (\<^verbatim>\<open>src/src/store-fs.c\<close>).  An open directory is the
  list of the names that \<^verbatim>\<open>readdir_r\<close> has yet to give, \<^verbatim>\<open>.\<close> and \<^verbatim>\<open>..\<close> included; \<open>listing\<close> is what a subdirectory gives
  when it is opened.  The iterator duplicates the descriptor of the store, which shares its offset: \<open>names\<close>, what
  the top-level directory gives, is everything in it only for the first iteration.
\<close>

section \<open>Opening\<close>

text \<open>The results of \<^verbatim>\<open>mkdir\<close> and \<^verbatim>\<open>open\<close> on the directory, an error number or not, and what it holds.\<close>

definition chop_fs_store_generic_open ::
  "bool \<Rightarrow> nat option \<Rightarrow> nat + (bytes \<rightharpoonup> bytes \<rightharpoonup> bytes) \<Rightarrow> nat \<Rightarrow> fs_store result" where
  "chop_fs_store_generic_open class_ok mkdir_errno opened limit =
    (if \<not> class_ok then Inl CHOP_INVALID_ARG
     else if mkdir_errno = None \<or> mkdir_errno = Some EEXIST
     then (case opened of Inl e \<Rightarrow> Inl (ERRNO e) | Inr dirs \<Rightarrow> Inr (chop_fs_store_open dirs limit))
     else Inl (ERRNO (the mkdir_errno)))"

definition fss_dtor :: "fs_store \<Rightarrow> fs_store" where
  "fss_dtor s = (if fs_dir_open s then snd (fs_close s) else s)"

section \<open>Iterators\<close>

record fs_iterator =
  fi_top :: "bytes list"
  fi_sub :: "bytes list option"
  fi_subdir_name :: bytes
  fi_key :: block_key
  fi_nil :: bool

definition dot_or_dot_dot :: "bytes \<Rightarrow> bool" where
  "dot_or_dot_dot name \<longleftrightarrow> name = ascii ''.'' \<or> name = ascii ''..''"

text \<open>The loop that reads a directory up to an entry other than \<^verbatim>\<open>.\<close> and \<^verbatim>\<open>..\<close>.\<close>

fun read_entry :: "bytes list \<Rightarrow> (bytes \<times> bytes list) option" where
  "read_entry [] = None"
| "read_entry (name # names) = (if dot_or_dot_dot name then read_entry names else Some (name, names))"

lemma read_entry_shorter: "read_entry names = Some (name, rest) \<Longrightarrow> length rest < length names"
  by (induction names) (auto split: if_splits)

text \<open>The key of an entry.  As many bytes as the record of the entry has are taken from its name on: \<open>slack name\<close> is
  what comes after the NUL.\<close>

definition entry_key :: "(bytes \<Rightarrow> bytes) \<Rightarrow> bytes \<Rightarrow> bytes \<Rightarrow> block_key" where
  "entry_key slack subdir name =
    (let base32 = subdir @ name @ 0 # slack name
     in fst (chop_base32_string_to_buffer (base32 @ [0]) (length base32)))"

definition openat_dir :: "fs_store \<Rightarrow> bytes \<Rightarrow> nat + unit" where
  "openat_dir s d = (if fs_dirs s d = None then Inl ENOENT else Inr ())"

definition fs_first_block ::
  "(bytes \<Rightarrow> bytes list) \<Rightarrow> (bytes \<Rightarrow> bytes) \<Rightarrow> fs_store \<Rightarrow> bytes list \<Rightarrow> fs_iterator result" where
  "fs_first_block listing slack s names =
    (if \<not> fs_dir_open s then Inl (ERRNO EBADF)
     else case read_entry names of
       None \<Rightarrow> Inl CHOP_STORE_END
     | Some (d, tops) \<Rightarrow>
        (case openat_dir s d of
           Inl e \<Rightarrow> Inl (ERRNO e)
         | Inr _ \<Rightarrow>
            (case read_entry (listing d) of
               None \<Rightarrow> Inl CHOP_STORE_END
             | Some (name, subs) \<Rightarrow>
                 Inr \<lparr>fi_top = tops, fi_sub = Some subs, fi_subdir_name = take 2 (d @ [0]),
                      fi_key = entry_key slack (take 2 (d @ [0])) name, fi_nil = False\<rparr>)))"

text \<open>Without an open subdirectory the call reads a null pointer (None).\<close>

function fs_next_block ::
  "(bytes \<Rightarrow> bytes list) \<Rightarrow> (bytes \<Rightarrow> bytes) \<Rightarrow> fs_store \<Rightarrow> fs_iterator \<Rightarrow> (chop_error \<times> fs_iterator) option" where
  "fs_next_block listing slack s it =
    (case fi_sub it of
       None \<Rightarrow> None
     | Some subs \<Rightarrow>
        (case read_entry subs of
           Some (name, subs') \<Rightarrow>
             Some (CHOP_OK, it\<lparr>fi_sub := Some subs', fi_key := entry_key slack (fi_subdir_name it) name\<rparr>)
         | None \<Rightarrow>
            (case read_entry (fi_top it) of
               None \<Rightarrow> Some (CHOP_STORE_END, it\<lparr>fi_sub := None, fi_top := [], fi_nil := True\<rparr>)
             | Some (d, tops) \<Rightarrow>
                (case openat_dir s d of
                   Inl e \<Rightarrow> Some (ERRNO e, it\<lparr>fi_sub := None, fi_top := tops, fi_subdir_name := take 2 (d @ [0])\<rparr>)
                 | Inr _ \<Rightarrow>
                     fs_next_block listing slack s
                       (it\<lparr>fi_sub := Some (listing d), fi_top := tops, fi_subdir_name := take 2 (d @ [0])\<rparr>)))))"
  by auto
termination
  by (relation "measure (\<lambda>(listing, slack, s, it). length (fi_top it))") (auto dest: read_entry_shorter)

declare fs_next_block.simps [simp del]

text \<open>Iterating to the end, with the keys seen.\<close>

partial_function (option) fs_iterate ::
  "(bytes \<Rightarrow> bytes list) \<Rightarrow> (bytes \<Rightarrow> bytes) \<Rightarrow> fs_store \<Rightarrow> fs_iterator \<Rightarrow> block_key list \<Rightarrow> (chop_error \<times> block_key list) option" where
  "fs_iterate listing slack s it keys =
    Option.bind (fs_next_block listing slack s it) (\<lambda>(err, it').
      if err \<noteq> CHOP_OK then Some (err, keys) else fs_iterate listing slack s it' (keys @ [fi_key it']))"

declare fs_iterate.simps [code]

section \<open>Reading names\<close>

lemma base32_before_nul:
  assumes "length (chop_buffer_to_base32_string xs) \<le> sz"
  shows "fst (chop_base32_string_to_buffer (chop_buffer_to_base32_string xs @ 0 # rest) sz) = xs"
proof -
  obtain k ys zs where xs: "xs = ys @ zs" "length ys = 5 * k" "length zs < 5"
    by (rule split_multiple [of 5 xs]) simp
  let ?r = "rfc4648_base32 zs" and ?arr = "rfc4648_base32 xs @ 0 # rest"
  have arr: "?arr = rfc4648_chars ys @ ?r @ 0 # rest" using xs by (simp add: rfc4648_base32_append)
  have len: "length (rfc4648_base32 xs) = 8 * k + length ?r"
    using xs by (simp add: rfc4648_base32_append length_rfc4648_chars_5)
  then obtain l where l: "sz = 8 * k + l" "length ?r \<le> l"
    using assms by (auto simp: base32_encode_spec intro: that [of "sz - 8 * k"])
  have groups: "b32_groups ?arr sz 0 sz [] = b32_groups ?arr sz (8 * k) l ys"
    using b32_groups_full [OF xs(2), of "[]" "?r @ 0 # rest" l "[]"]
    by (simp only: arr [symmetric] append_Nil list.size(3) add_0 l(1))
  have "fst (b32_groups ?arr sz (8 * k) l ys) \<in> {Break (8 * k) xs, Skip_Padding (8 * k + length (rfc4648_chars zs)) xs}"
  proof (cases "zs = []")
    case True
    then have "?arr ! (8 * k) = 0"
      unfolding arr using xs(2) by (simp add: nth_append length_rfc4648_chars_5 rfc4648_base32_def)
    then have "b32_group ?arr (8 * k) ys = Inl (Break (8 * k) ys)"
      by (simp add: b32_group_def CONSUME_QUINTET_def is_base32_def toupper_def)
    with True xs(1) show ?thesis by (subst b32_groups.simps) simp
  next
    case False
    let ?q = "length (rfc4648_chars zs)"
    have q: "0 < ?q" "?q < 8"
      using False xs(3) by (auto simp: length_rfc4648_chars length_greater_0_conv [symmetric]
          simp del: length_greater_0_conv)
    then have r8: "length ?r = 8" by (simp add: rfc4648_base32_def Let_def)
    have nth: "?arr ! (8 * k + n) = ?r ! n" if "n < 8" for n
      unfolding arr using xs(2) r8 that by (simp add: nth_append length_rfc4648_chars_5)
    have "b32_group ?arr (8 * k) ys = Inl (Skip_Padding (8 * k + ?q) (ys @ zs))"
      using False xs(3) nth by (intro b32_group_partial) blast+
    with l r8 xs(1) show ?thesis by (subst b32_groups.simps) simp
  qed
  then show ?thesis
    unfolding chop_base32_string_to_buffer_def base32_encode_spec groups
    by (cases "b32_groups ?arr sz (8 * k) l ys") auto
qed

lemma entry_key_named:
  assumes "block_file_name key = Some (d, name)"
  shows "entry_key slack (take 2 (d @ [0])) name = key"
proof -
  have d: "take 2 (d @ [0]) = d" using assms by (auto simp: block_file_name_def Let_def split: if_splits)
  then have "take 2 (d @ [0]) @ name = chop_buffer_to_base32_string key" using block_file_name_Some [OF assms] by simp
  then have "entry_key slack (take 2 (d @ [0])) name = fst (chop_base32_string_to_buffer
      ((chop_buffer_to_base32_string key @ 0 # slack name) @ [0]) (length (chop_buffer_to_base32_string key @ 0 # slack name)))"
    by (simp only: entry_key_def Let_def append_assoc [symmetric])
  then show ?thesis
    using base32_before_nul [of key "length (chop_buffer_to_base32_string key @ 0 # slack name)" "slack name @ [0]"] by simp
qed

section \<open>What an iteration has yet to give\<close>

abbreviation entries :: "bytes list \<Rightarrow> bytes list" where
  "entries names \<equiv> filter (\<lambda>n. \<not> dot_or_dot_dot n) names"

definition pairs_of :: "(bytes \<Rightarrow> bytes list) \<Rightarrow> bytes list \<Rightarrow> (bytes \<times> bytes) list" where
  "pairs_of listing names = concat (map (\<lambda>d. map (Pair d) (entries (listing d))) (entries names))"

definition keys_of :: "(bytes \<Rightarrow> bytes) \<Rightarrow> (bytes \<times> bytes) list \<Rightarrow> block_key list" where
  "keys_of slack pairs = map (\<lambda>(d, name). entry_key slack (take 2 (d @ [0])) name) pairs"

definition keys_left :: "(bytes \<Rightarrow> bytes list) \<Rightarrow> (bytes \<Rightarrow> bytes) \<Rightarrow> fs_iterator \<Rightarrow> block_key list" where
  "keys_left listing slack it =
    map (entry_key slack (fi_subdir_name it)) (entries (the (fi_sub it))) @ keys_of slack (pairs_of listing (fi_top it))"

lemma read_entry_None: "read_entry names = None \<longleftrightarrow> entries names = []"
  by (induction names) auto

lemma read_entry_Some: "read_entry names = Some (n, rest) \<Longrightarrow> entries names = n # entries rest \<and> \<not> dot_or_dot_dot n"
  by (induction names) (auto split: if_splits)

lemma pairs_of_Cons:
  "entries names = d # entries rest \<Longrightarrow> pairs_of listing names = map (Pair d) (entries (listing d)) @ pairs_of listing rest"
  by (simp add: pairs_of_def)

lemma keys_left_next:
  assumes "entries (fi_top it) = d # entries tops" "entries (the (fi_sub it)) = []"
  shows "keys_left listing slack (it\<lparr>fi_sub := Some (listing d), fi_top := tops, fi_subdir_name := take 2 (d @ [0])\<rparr>)
    = keys_left listing slack it"
  using assms pairs_of_Cons [OF assms(1), of listing] by (simp add: keys_left_def keys_of_def)

text \<open>One step gives the next key, or the end.\<close>

lemma next_block_ok:
  assumes "fi_sub it \<noteq> None" "set (entries (fi_top it)) \<subseteq> dom (fs_dirs s)"
  shows "\<exists>it'. (case keys_left listing slack it of
      [] \<Rightarrow> fs_next_block listing slack s it = Some (CHOP_STORE_END, it')
    | k # ks \<Rightarrow> fs_next_block listing slack s it = Some (CHOP_OK, it') \<and> fi_key it' = k
        \<and> keys_left listing slack it' = ks \<and> fi_sub it' \<noteq> None \<and> set (entries (fi_top it')) \<subseteq> dom (fs_dirs s))"
  using assms
proof (induction listing slack s it rule: fs_next_block.induct)
  case (1 listing slack s it)
  then obtain subs where subs: "fi_sub it = Some subs" by blast
  show ?case
  proof (cases "read_entry subs")
    case (Some e)
    then obtain name subs' where e: "read_entry subs = Some (name, subs')" by (cases e) auto
    with read_entry_Some [OF e] subs 1(3) show ?thesis
      by (subst fs_next_block.simps) (simp add: keys_left_def)
  next
    case None
    then have sub: "entries subs = []" by (simp add: read_entry_None)
    show ?thesis
    proof (cases "read_entry (fi_top it)")
      case None2: None
      then have "keys_left listing slack it = []"
        using sub subs by (simp add: keys_left_def read_entry_None pairs_of_def keys_of_def)
      with None None2 subs show ?thesis by (subst fs_next_block.simps) simp
    next
      case (Some e)
      then obtain d tops where d: "read_entry (fi_top it) = Some (d, tops)" by (cases e) auto
      note top = conjunct1 [OF read_entry_Some [OF d]]
      then have dir: "fs_dirs s d \<noteq> None" "set (entries tops) \<subseteq> dom (fs_dirs s)" using 1(3) by auto
      let ?it = "it\<lparr>fi_sub := Some (listing d), fi_top := tops, fi_subdir_name := take 2 (d @ [0])\<rparr>"
      have o: "openat_dir s d = Inr ()" using dir(1) by (simp add: openat_dir_def)
      then have step: "fs_next_block listing slack s it = fs_next_block listing slack s ?it"
        using None d subs by (subst fs_next_block.simps) simp
      from 1(1) [OF subs None d refl o] dir(2) keys_left_next [OF top, of listing slack] sub subs
      show ?thesis unfolding step by simp
    qed
  qed
qed

lemma iterate_ok:
  assumes "fi_sub it \<noteq> None" "set (entries (fi_top it)) \<subseteq> dom (fs_dirs s)"
  shows "fs_iterate listing slack s it keys = Some (CHOP_STORE_END, keys @ keys_left listing slack it)"
  using assms
proof (induction "keys_left listing slack it" arbitrary: it keys)
  case Nil
  from next_block_ok [OF Nil.prems, of listing slack] Nil.hyps [symmetric] obtain it' where
    "fs_next_block listing slack s it = Some (CHOP_STORE_END, it')" by auto
  then show ?case using Nil.hyps by (subst fs_iterate.simps) simp
next
  case (Cons k ks)
  from next_block_ok [OF Cons.prems, of listing slack] Cons.hyps(2) [symmetric] obtain it' where
    "fs_next_block listing slack s it = Some (CHOP_OK, it')" "fi_key it' = k" "ks = keys_left listing slack it'"
    "fi_sub it' \<noteq> None" "set (entries (fi_top it')) \<subseteq> dom (fs_dirs s)" by auto
  with Cons.hyps(1) [of it' "keys @ [k]"] Cons.hyps(2) [symmetric] show ?case by (subst fs_iterate.simps) simp
qed

section \<open>Stores that writes and deletions lead to\<close>

text \<open>No subdirectory is empty, and every file is that of a key.\<close>

definition fs_tidy :: "fs_store \<Rightarrow> bool" where
  "fs_tidy s \<longleftrightarrow> (\<forall>d. fs_dirs s d \<noteq> Some Map.empty) \<and> (\<forall>n. fs_lookup s n \<noteq> None \<longrightarrow> (\<exists>key. block_file_name key = Some n))"

lemma fs_tidy_update:
  assumes "\<forall>d. d \<noteq> fst name \<longrightarrow> fs_dirs s d \<noteq> Some Map.empty" "fs_dirs s (fst name) \<noteq> None"
    "\<forall>n. fs_lookup s n \<noteq> None \<longrightarrow> (\<exists>key. block_file_name key = Some n)" "block_file_name key = Some name"
  shows "fs_tidy (fs_update s name (Some c))"
proof -
  obtain files where "fs_dirs s (fst name) = Some files" using assms(2) by blast
  then have "fs_dirs (fs_update s name (Some c)) = (fs_dirs s)(fst name \<mapsto> files(snd name \<mapsto> c))" by (simp add: fs_update_def)
  then have "fs_dirs (fs_update s name (Some c)) d \<noteq> Some Map.empty" for d using assms(1) by auto
  moreover have "\<exists>key. block_file_name key = Some n" if "fs_lookup (fs_update s name (Some c)) n \<noteq> None" for n
  proof (cases "n = name")
    case False
    then have "fs_lookup s n \<noteq> None" using that fs_lookup_update [OF assms(2), of "Some c" n] by simp
    then show ?thesis by (rule assms(3) [rule_format])
  qed (use assms(4) in blast)
  ultimately show ?thesis unfolding fs_tidy_def by blast
qed

lemma fs_create_tidy:
  assumes "fs_dir_open s" "\<forall>d. d \<noteq> fst name \<longrightarrow> fs_dirs s d \<noteq> Some Map.empty" "fs_dirs s (fst name) \<noteq> None"
    "\<forall>n. fs_lookup s n \<noteq> None \<longrightarrow> (\<exists>key. block_file_name key = Some n)" "block_file_name key = Some name"
    "fs_write_try name block new_dir s = Some (err, s')"
  shows "fs_tidy s'"
proof -
  obtain s1 where s1: "openat_create s name = Inr s1" "s1 = s \<or> s1 = fs_update s name (Some [])"
    using assms(1,3) by (cases "fs_lookup s name") (auto simp: openat_create_def)
  then obtain c where s': "s' = fs_update s1 name (Some c)"
    using assms(6) by (subst (asm) fs_write_try.simps) (auto simp: full_write_def Let_def)
  show ?thesis
  proof (cases "s1 = s")
    case True
    with fs_tidy_update [OF assms(2-5)] s' show ?thesis by simp
  next
    case False
    then have "fs_tidy s1" using s1(2) fs_tidy_update [OF assms(2-5)] by simp
    moreover have "fs_dirs s1 (fst name) \<noteq> None" using s1(2) assms(3) fs_update_dirs by metis
    ultimately show ?thesis unfolding s' using assms(5) by (intro fs_tidy_update) (auto simp: fs_tidy_def)
  qed
qed

lemma fs_write_tidy:
  assumes "fs_dir_open s" "fs_tidy s" "fs_write_block s key block = Some (err, s')"
  shows "fs_tidy s'"
proof -
  obtain name where name: "block_file_name key = Some name" "fs_write_try name block False s = Some (err, s')"
    using assms(3) by (auto simp: fs_write_block_def bind_eq_Some_conv)
  have tidy: "\<forall>d. fs_dirs s d \<noteq> Some Map.empty" "\<forall>n. fs_lookup s n \<noteq> None \<longrightarrow> (\<exists>key. block_file_name key = Some n)"
    using assms(2) by (auto simp: fs_tidy_def)
  show ?thesis
  proof (cases "fs_dirs s (fst name)")
    case (Some files)
    with fs_create_tidy [OF assms(1) _ _ _ name] tidy show ?thesis by blast
  next
    case None
    let ?s1 = "s\<lparr>fs_dirs := (fs_dirs s)(fst name \<mapsto> Map.empty)\<rparr>"
    have look: "fs_lookup ?s1 n = fs_lookup s n" for n using None by (cases n) (auto simp: fs_lookup_def)
    have "fs_write_try name block False s = fs_write_try name block True ?s1"
      using None assms(1) by (subst fs_write_try.simps) (simp add: openat_create_def mkdirat_def)
    with name(2) have "fs_write_try name block True ?s1 = Some (err, s')" by simp
    from fs_create_tidy [of ?s1 name, OF _ _ _ _ name(1) this] assms(1) tidy look show ?thesis by simp
  qed
qed

lemma fs_delete_tidy:
  assumes "fs_dir_open s" "fs_tidy s" "fs_delete_block s key = Some (err, s')"
  shows "fs_tidy s'"
proof -
  obtain name where name: "block_file_name key = Some name"
    using assms(3) by (auto simp: fs_delete_block_def bind_eq_Some_conv)
  show ?thesis
  proof (cases "fs_lookup s name")
    case None
    with assms name show ?thesis by (auto simp: fs_delete_block_def unlinkat_def)
  next
    case (Some c)
    let ?s1 = "fs_update s name None"
    obtain files where files: "fs_dirs s (fst name) = Some files" using Some by (auto simp: fs_lookup_def bind_eq_Some_conv)
    have dirs1: "fs_dirs ?s1 d = (if d = fst name then Some (files(snd name := None)) else fs_dirs s d)" for d
      using files by (simp add: fs_update_def)
    have look: "fs_lookup ?s1 n \<noteq> None \<Longrightarrow> fs_lookup s n \<noteq> None" for n
      using files by (auto simp: fs_lookup_update split: if_splits)
    let ?s2 = "?s1\<lparr>fs_dirs := (fs_dirs ?s1)(fst name := None)\<rparr>"
    have look2: "fs_lookup ?s2 n \<noteq> None \<Longrightarrow> fs_lookup ?s1 n \<noteq> None" for n
      by (cases n) (auto simp: fs_lookup_def split: if_splits)
    have "s' = (if files(snd name := None) = Map.empty then ?s2 else ?s1)"
      using assms name Some dirs1 by (simp add: fs_delete_block_def unlinkat_def unlinkat_dir_def errnos split: if_splits)
    with assms(2) look look2 dirs1 show ?thesis unfolding fs_tidy_def by (auto split: if_splits)
  qed
qed

lemma fs_cmds_tidy:
  assumes "fs_dir_open s" "list_all (fs_cmd_fits (fs_limit s)) cs" "fs_tidy s" "fs_cmds cs s = Some (errs, s')"
  shows "fs_tidy s' \<and> fs_dir_open s'"
  using assms
proof (induction cs arbitrary: s errs)
  case (Cons c cs)
  from Cons.prems(4) obtain err s1 errs' where s1: "fs_cmd c s = Some (err, s1)" "fs_cmds cs s1 = Some (errs', s')"
    by (auto simp: bind_eq_Some_conv)
  have "fs_dir_open s1 \<and> fs_limit s1 = fs_limit s"
  proof (cases c)
    case (Write_Block key block)
    then obtain name where "block_file_name key = Some name" using Cons.prems(2) name_size_Some [of key] by auto
    from fs_write_ok [OF Cons.prems(1) this, of block] s1(1) Write_Block show ?thesis by auto
  next
    case (Delete_Block key)
    then obtain name where "block_file_name key = Some name" using Cons.prems(2) name_size_Some [of key] by auto
    from fs_delete_ok [OF Cons.prems(1) this] s1(1) Delete_Block show ?thesis by auto
  qed
  moreover have "fs_tidy s1"
  proof (cases c)
    case (Write_Block key block)
    with fs_write_tidy [OF Cons.prems(1,3), of key block] s1(1) show ?thesis by simp
  next
    case (Delete_Block key)
    with fs_delete_tidy [OF Cons.prems(1,3), of key] s1(1) show ?thesis by simp
  qed
  ultimately show ?case using Cons.IH [of s1 errs'] s1(2) Cons.prems(2) by simp
qed simp

section \<open>Iterating over all blocks\<close>

text \<open>The system lists directories completely and without repetition.\<close>

definition lists_dir :: "bytes list \<Rightarrow> bytes set \<Rightarrow> bool" where
  "lists_dir names es \<longleftrightarrow> distinct names \<and> set names - {ascii ''.'', ascii ''..''} = es"

lemma dir_entries: "lists_dir names es \<Longrightarrow> distinct (entries names) \<and> set (entries names) = es"
  by (auto simp: lists_dir_def dot_or_dot_dot_def)

lemma distinct_pairs:
  "distinct names \<Longrightarrow> \<forall>d \<in> set names. distinct (f d) \<Longrightarrow> distinct (concat (map (\<lambda>d. map (Pair d) (f d)) names))"
  by (induction names) (auto simp: distinct_map inj_on_def)

definition lists_store :: "bytes list \<Rightarrow> (bytes \<Rightarrow> bytes list) \<Rightarrow> fs_store \<Rightarrow> bool" where
  "lists_store names listing s \<longleftrightarrow> lists_dir names (dom (fs_dirs s)) \<and> (\<forall>d files. fs_dirs s d = Some files \<longrightarrow> lists_dir (listing d) (dom files))"

lemma pairs_of_store:
  assumes "lists_store names listing s"
  shows "distinct (pairs_of listing names)" "set (pairs_of listing names) = {n. fs_lookup s n \<noteq> None}"
proof -
  have l: "lists_dir names (dom (fs_dirs s))" "\<And>d files. fs_dirs s d = Some files \<Longrightarrow> lists_dir (listing d) (dom files)"
    using assms by (auto simp: lists_store_def)
  note n = dir_entries [OF l(1)] and e = dir_entries [OF l(2)]
  have "\<forall>d \<in> set (entries names). distinct (entries (listing d))" using n e by auto
  then show "distinct (pairs_of listing names)" unfolding pairs_of_def using n by (intro distinct_pairs) auto
  show "set (pairs_of listing names) = {n. fs_lookup s n \<noteq> None}"
  proof (intro set_eqI)
    fix x :: "bytes \<times> bytes"
    obtain d f where x: "x = (d, f)" by (cases x)
    have "x \<in> set (pairs_of listing names) \<longleftrightarrow> d \<in> set (entries names) \<and> f \<in> set (entries (listing d))"
      by (auto simp: pairs_of_def x)
    also have "\<dots> \<longleftrightarrow> (\<exists>files. fs_dirs s d = Some files \<and> f \<in> dom files)" using n e by blast
    also have "\<dots> \<longleftrightarrow> fs_lookup s x \<noteq> None" by (auto simp: fs_lookup_def x bind_eq_Some_conv)
    finally show "x \<in> set (pairs_of listing names) \<longleftrightarrow> x \<in> {n. fs_lookup s n \<noteq> None}" by simp
  qed
qed

text \<open>The keys of the entries are the keys of the store.\<close>

lemma keys_of_store:
  assumes "fs_tidy s" "lists_store names listing s"
  shows "distinct (keys_of slack (pairs_of listing names))" "set (keys_of slack (pairs_of listing names)) = dom (fs_contents s)"
proof -
  note p = pairs_of_store [OF assms(2)]
  let ?k = "\<lambda>(d, name). entry_key slack (take 2 (d @ [0])) name"
  have named: "block_file_name (?k n) = Some n" if "fs_lookup s n \<noteq> None" for n
  proof -
    obtain key where key: "block_file_name key = Some n" using conjunct2 [OF assms(1) [unfolded fs_tidy_def]] \<open>fs_lookup s n \<noteq> None\<close> by blast
    then have "?k n = key" using entry_key_named by (cases n) auto
    with key show ?thesis by simp
  qed
  have "inj_on ?k {n. fs_lookup s n \<noteq> None}"
    by (rule inj_onI) (metis (mono_tags, lifting) mem_Collect_eq named option.inject)
  then show "distinct (keys_of slack (pairs_of listing names))" using p by (simp add: keys_of_def distinct_map)
  have "key \<in> ?k ` {n. fs_lookup s n \<noteq> None} \<longleftrightarrow> key \<in> dom (fs_contents s)" for key
  proof
    assume "key \<in> ?k ` {n. fs_lookup s n \<noteq> None}"
    then obtain n where "key = ?k n" "fs_lookup s n \<noteq> None" by blast
    with named show "key \<in> dom (fs_contents s)" using fs_contents_named [OF named, of n s] by (simp add: dom_def)
  next
    assume "key \<in> dom (fs_contents s)"
    then obtain n where n: "block_file_name key = Some n" "fs_lookup s n \<noteq> None"
      by (auto simp: fs_contents_def bind_eq_Some_conv)
    then have "key = ?k n" using entry_key_named by (cases n) auto
    with n show "key \<in> ?k ` {n. fs_lookup s n \<noteq> None}" by blast
  qed
  then show "set (keys_of slack (pairs_of listing names)) = dom (fs_contents s)"
    unfolding keys_of_def set_map p(2) by (rule set_eqI)
qed

text \<open>The first block of a store that is listed completely, and the keys left then.\<close>

lemma first_block_ok:
  assumes "fs_dir_open s" "fs_tidy s" "lists_store names listing s"
  shows "if fs_contents s = Map.empty then fs_first_block listing slack s names = Inl CHOP_STORE_END
    else \<exists>it. fs_first_block listing slack s names = Inr it \<and> fi_sub it \<noteq> None \<and> \<not> fi_nil it
      \<and> set (entries (fi_top it)) \<subseteq> dom (fs_dirs s) \<and> distinct (fi_key it # keys_left listing slack it)
      \<and> set (fi_key it # keys_left listing slack it) = dom (fs_contents s)"
proof -
  note keys = keys_of_store [OF assms(2,3), where slack = slack]
  have names: "set (entries names) = dom (fs_dirs s)" using assms(3) dir_entries by (auto simp: lists_store_def)
  show ?thesis
  proof (cases "read_entry names")
    case None
    then have "dom (fs_contents s) = {}" using keys(2) by (simp add: read_entry_None pairs_of_def keys_of_def)
    then have "fs_contents s = Map.empty" unfolding dom_eq_empty_conv .
    with None assms(1) show ?thesis by (simp add: fs_first_block_def)
  next
    case (Some e)
    then obtain d tops where d: "read_entry names = Some (d, tops)" by (cases e) auto
    note top = conjunct1 [OF read_entry_Some [OF d]]
    then have dir: "d \<in> dom (fs_dirs s)" "set (entries tops) \<subseteq> dom (fs_dirs s)" using names by auto
    then obtain files where files: "fs_dirs s d = Some files" by blast
    with assms(2) have "files \<noteq> Map.empty" by (auto simp: fs_tidy_def)
    moreover have "set (entries (listing d)) = dom files"
      using assms(3) files dir_entries by (auto simp: lists_store_def)
    ultimately have "read_entry (listing d) \<noteq> None"
      unfolding read_entry_None by (metis dom_eq_empty_conv empty_set)
    then obtain name subs where sub: "read_entry (listing d) = Some (name, subs)" by auto
    note sub_entries = conjunct1 [OF read_entry_Some [OF sub]]
    let ?it = "\<lparr>fi_top = tops, fi_sub = Some subs, fi_subdir_name = take 2 (d @ [0]), fi_key = entry_key slack (take 2 (d @ [0])) name, fi_nil = False\<rparr>"
    have first: "fs_first_block listing slack s names = Inr ?it"
      using assms(1) d files sub by (simp add: fs_first_block_def openat_dir_def)
    have all: "keys_of slack (pairs_of listing names) = fi_key ?it # keys_left listing slack ?it"
      using pairs_of_Cons [OF top, of listing] sub_entries by (simp add: keys_of_def keys_left_def)
    then have "fs_contents s \<noteq> Map.empty" using keys(2) by auto
    with first keys dir(2) all show ?thesis by auto
  qed
qed

lemma new_store:
  "fs_dir_open (chop_fs_store_open Map.empty limit)" "fs_limit (chop_fs_store_open Map.empty limit) = limit"
  "fs_tidy (chop_fs_store_open Map.empty limit)" "fs_contents (chop_fs_store_open Map.empty limit) = Map.empty"
  by (auto simp: chop_fs_store_open_def fs_tidy_def fs_lookup_def fs_contents_def fun_eq_iff bind_eq_None_conv)

lemma next_block_nil: "fs_next_block listing slack s it = Some (CHOP_OK, it') \<Longrightarrow> fi_nil it' = fi_nil it"
proof (induction listing slack s it rule: fs_next_block.induct)
  case (1 listing slack s it)
  then show ?case
    by (subst (asm) (2) fs_next_block.simps) (auto split: option.splits prod.splits sum.splits)
qed

text \<open>C21: Iterating over a directory store visits every block once.  In a store that any sequence of writes and
  deletions of fitting blocks has made out of an empty directory, and that the system lists completely, the first
  iteration gives exactly the keys that the resulting map holds, each of them once, and then
  \<^verbatim>\<open>CHOP_STORE_END\<close>; when the store is empty it ends at once.\<close>

theorem fs_iteration_visits_all_blocks:
  assumes "list_all (fs_cmd_fits limit) cs" "fs_cmds cs (chop_fs_store_open Map.empty limit) = Some (errs, s)"
    and "lists_store names listing s"
  shows "if snd (map_run cs Map.empty) = Map.empty then fs_first_block listing slack s names = Inl CHOP_STORE_END
    else \<exists>it keys. fs_first_block listing slack s names = Inr it
      \<and> fs_iterate listing slack s it [fi_key it] = Some (CHOP_STORE_END, keys)
      \<and> distinct keys \<and> set keys = dom (snd (map_run cs Map.empty))"
proof -
  let ?s0 = "chop_fs_store_open Map.empty limit"
  have s0: "fs_dir_open ?s0" "fs_limit ?s0 = limit" "fs_tidy ?s0" "fs_contents ?s0 = Map.empty"
    by (rule new_store)+
  have s: "fs_tidy s" "fs_dir_open s" using fs_cmds_tidy [OF s0(1) _ s0(3) assms(2)] assms(1) s0(2) by auto
  have "fs_contents s = snd (map_run cs Map.empty)"
    using fs_cmds_refine [OF s0(1), of cs] assms(1,2) s0(2,4) by auto
  note first = first_block_ok [OF s(2,1) assms(3), of slack, unfolded this]
  show ?thesis
  proof (cases "snd (map_run cs Map.empty) = Map.empty")
    case True
    with first show ?thesis by simp
  next
    case False
    with first obtain it where
      it: "fs_first_block listing slack s names = Inr it" "fi_sub it \<noteq> None" "set (entries (fi_top it)) \<subseteq> dom (fs_dirs s)"
      "distinct (fi_key it # keys_left listing slack it)"
      "set (fi_key it # keys_left listing slack it) = dom (snd (map_run cs Map.empty))" by auto
    from iterate_ok [OF it(2,3), of listing slack "[fi_key it]"] it(1,4,5) False show ?thesis by auto
  qed
qed

theorem fs_iteration_visits_all_blocks_witness:
  "let d = ascii ''ae''; name = ascii ''bagba='';
       s = \<lparr>fs_dir_open = True, fs_dirs = [d \<mapsto> [name \<mapsto> [9]]], fs_limit = 4\<rparr>;
       listing = (\<lambda>d. [ascii ''..'', name]); slack = (\<lambda>name. [7])
   in fs_cmds [Write_Block [1, 2, 3, 4] [9]] (chop_fs_store_open Map.empty 4) = Some ([CHOP_OK], s)
    \<and> (\<exists>it keys. fs_first_block listing slack s [ascii ''.'', d, ascii ''..''] = Inr it
      \<and> fs_iterate listing slack s it [fi_key it] = Some (CHOP_STORE_END, keys) \<and> distinct keys \<and> set keys = {[1, 2, 3, 4]})"
proof -
  let ?d = "ascii ''ae''" and ?name = "ascii ''bagba=''" and ?cs = "[Write_Block [1, 2, 3, 4] [9]]"
  let ?s = "\<lparr>fs_dir_open = True, fs_dirs = [?d \<mapsto> [?name \<mapsto> [9]]], fs_limit = 4\<rparr> :: fs_store"
  let ?listing = "\<lambda>d. [ascii ''..'', ?name]" and ?names = "[ascii ''.'', ?d, ascii ''..'']"
  have fits: "list_all (fs_cmd_fits 4) ?cs" by code_simp
  have name: "block_file_name [1, 2, 3, 4] = Some (?d, ?name)" by code_simp
  have run: "fs_cmds ?cs (chop_fs_store_open Map.empty 4) = Some ([CHOP_OK], ?s)"
    by (simp add: fs_write_block_def name chop_fs_store_open_def fs_write_try.simps openat_create_def mkdirat_def
        fs_update_def fs_lookup_def full_write_def)
  have "distinct ?names" "distinct (?listing ?d)" "ascii ''.'' \<noteq> ?d" "ascii ''..'' \<noteq> ?d" "ascii ''.'' \<noteq> ?name"
    "ascii ''..'' \<noteq> ?name" by code_simp+
  then have "lists_store ?names ?listing ?s" by (auto simp: lists_store_def lists_dir_def split: if_splits)
  from fs_iteration_visits_all_blocks [OF fits run this, of "\<lambda>name. [7]"] run show ?thesis
    by (simp add: Let_def split: if_splits)
qed

end
