(* ===== verification/Chop_Store_Tools.thy ===== *)
theory Chop_Store_Tools
  imports Chop_Archiver Chop_FS_Iterator
begin

text \<open>
  The programs that go through a store: \<^verbatim>\<open>utils/chop-store-convert.c\<close> copies one store to another of a different
  class, \<^verbatim>\<open>utils/chop-store-list.c\<close> prints what a store holds.  They are written over the methods of a store with its
  iterators, and shown correct over a contract that databases and directories meet.  The two stores of a conversion
  are different files.  The progress animation is left out, and no count of blocks reaches \<^verbatim>\<open>2^64\<close>.
\<close>

section \<open>Stores with iterators\<close>

text \<open>The methods of a store that a class gives, and those of its iterators.  None is an assertion that fails, or a
  null pointer read.\<close>

record ('w, 'i) keyed_store =
  ks_first :: "'w \<Rightarrow> ((chop_error \<times> 'i option) \<times> 'w) option"
  ks_next :: "'w \<Rightarrow> 'i \<Rightarrow> (chop_error \<times> 'i) option"
  ks_nil :: "'i \<Rightarrow> bool"
  ks_key :: "'i \<Rightarrow> block_key"
  ks_read :: "'w \<Rightarrow> block_key \<Rightarrow> bytes \<Rightarrow> ((chop_error \<times> bytes \<times> nat) \<times> 'w) option"
  ks_write :: "'w \<Rightarrow> block_key \<Rightarrow> bytes \<Rightarrow> (chop_error \<times> 'w) option"
  ks_close :: "'w \<Rightarrow> chop_error \<times> 'w"
  ks_destroy :: "'w \<Rightarrow> 'w"

definition db_keyed_store :: "'d db_ops \<Rightarrow> ('d db_store, block_iterator) keyed_store" where
  "db_keyed_store ops =
    (let store = generic_db_store ops
     in \<lparr>ks_first = (\<lambda>s. Some (chop_store_first_block store s)), ks_next = (\<lambda>s it. Some (db_next_block ops s it)),
         ks_nil = it_nil, ks_key = it_key, ks_read = (\<lambda>s key buffer. Some (chop_store_read_block store s key buffer)),
         ks_write = (\<lambda>s key block. Some (chop_store_write_block store s key block)), ks_close = chop_store_close store,
         ks_destroy = db_store_destroy ops\<rparr>)"

text \<open>Destroying a directory store closes it, and its parent class closes it once more.\<close>

definition dir_keyed_store ::
  "bytes list \<Rightarrow> (bytes \<Rightarrow> bytes list) \<Rightarrow> (bytes \<Rightarrow> bytes) \<Rightarrow> (fs_store, fs_iterator) keyed_store" where
  "dir_keyed_store names listing slack =
    \<lparr>ks_first = (\<lambda>s. Some (case fs_first_block listing slack s names of
                       Inl err \<Rightarrow> ((err, None), s) | Inr it \<Rightarrow> ((CHOP_OK, Some it), s))),
     ks_next = fs_next_block listing slack, ks_nil = fi_nil, ks_key = fi_key,
     ks_read = (\<lambda>s key buffer. map_option (\<lambda>r. (r, s)) (fs_read_block s key buffer)),
     ks_write = fs_write_block, ks_close = fs_close, ks_destroy = (\<lambda>s. snd (fs_close (fss_dtor s)))\<rparr>"

section \<open>Options\<close>

text \<open>What argp tells: an option with its argument, an argument, and the end; with the number of arguments so far.\<close>

datatype argp_key = Option_Key char bytes | Arg_Key bytes | End_Key

record convert_options =
  source_store_class_name :: "bytes option"
  dest_store_class_name :: "bytes option"
  source_file_name :: "bytes option"
  dest_file_name :: "bytes option"

text \<open>\<^verbatim>\<open>argp_usage\<close> ends the program with status 64.  The flag tells whether the key is known.\<close>

definition convert_parse_opt :: "argp_key \<Rightarrow> nat \<Rightarrow> convert_options \<Rightarrow> (bool \<times> convert_options) outcome" where
  "convert_parse_opt key arg_num opts =
    (case key of
       Option_Key c arg \<Rightarrow>
         if c = CHR ''S'' then Return (True, opts\<lparr>source_store_class_name := Some arg\<rparr>)
         else if c = CHR ''D'' then Return (True, opts\<lparr>dest_store_class_name := Some arg\<rparr>)
         else Return (False, opts)
     | Arg_Key arg \<Rightarrow>
         if 2 \<le> arg_num then Exit 64
         else if source_file_name opts = None then Return (True, opts\<lparr>source_file_name := Some arg\<rparr>)
         else Return (True, opts\<lparr>dest_file_name := Some arg\<rparr>)
     | End_Key \<Rightarrow>
         if arg_num < 2 then Exit 64
         else if source_store_class_name opts = None \<or> dest_store_class_name opts = None then Exit 1
         else Return (True, opts))"

record list_options =
  list_store_class_name :: bytes
  list_store_name :: "bytes option"

definition list_parse_opt :: "argp_key \<Rightarrow> nat \<Rightarrow> list_options \<Rightarrow> (bool \<times> list_options) outcome" where
  "list_parse_opt key arg_num opts =
    (case key of
       Option_Key c arg \<Rightarrow>
         if c = CHR ''S'' then Return (True, opts\<lparr>list_store_class_name := arg\<rparr>) else Return (False, opts)
     | Arg_Key arg \<Rightarrow> if 1 \<le> arg_num then Exit 64 else Return (True, opts\<lparr>list_store_name := Some arg\<rparr>)
     | End_Key \<Rightarrow> if arg_num < 1 then Exit 64 else Return (True, opts))"

text \<open>\<^verbatim>\<open>argp_parse\<close>: the keys one after the other; an option that is not known ends the program.\<close>

fun argp_keys :: "(argp_key \<Rightarrow> nat \<Rightarrow> 'o \<Rightarrow> (bool \<times> 'o) outcome) \<Rightarrow> argp_key list \<Rightarrow> nat \<Rightarrow> 'o \<Rightarrow> 'o outcome" where
  "argp_keys parse [] arg_num opts = Return opts"
| "argp_keys parse (key # keys) arg_num opts =
    (case parse key arg_num opts of
       Exit n \<Rightarrow> Exit n
     | Return (known, opts') \<Rightarrow>
        if \<not> known then Exit 64
        else argp_keys parse keys (case key of Arg_Key _ \<Rightarrow> arg_num + 1 | _ \<Rightarrow> arg_num) opts')"

definition argp_parse ::
  "(argp_key \<Rightarrow> nat \<Rightarrow> 'o \<Rightarrow> (bool \<times> 'o) outcome) \<Rightarrow> (char \<times> bytes) list \<Rightarrow> bytes list \<Rightarrow> 'o \<Rightarrow> 'o outcome" where
  "argp_parse parse options args opts =
    argp_keys parse (map (\<lambda>(c, arg). Option_Key c arg) options @ map Arg_Key args @ [End_Key]) 0 opts"

section \<open>Converting\<close>

definition get_store_class :: "(bytes \<Rightarrow> chop_class option) \<Rightarrow> bytes \<Rightarrow> chop_class outcome" where
  "get_store_class chop_class_lookup name =
    (case chop_class_lookup name of
       None \<Rightarrow> Exit 1
     | Some c \<Rightarrow> if c \<in> set file_based_store_classes then Return c else Exit 1)"

text \<open>The loop, from an iterator that has just been set with success: the error at the end of the program, the
  number of blocks and the states of the stores.\<close>

definition traversed :: "chop_error \<Rightarrow> chop_error" where
  "traversed err = (if err = CHOP_STORE_END then CHOP_OK else err)"

partial_function (option) convert_loop ::
  "('w, 'i) keyed_store \<Rightarrow> ('v, 'j) keyed_store \<Rightarrow> nat \<Rightarrow> 'i \<Rightarrow> 'w \<Rightarrow> 'v \<Rightarrow> (chop_error \<times> nat \<times> 'w \<times> 'v) option" where
  "convert_loop src dst count it w v =
    (if ks_nil src it then Some (CHOP_OK, count, w, v)
     else Option.bind (ks_read src w (ks_key src it) []) (\<lambda>((err, buffer, block_len), w1).
       if err \<noteq> CHOP_OK then Some (err, count, w1, v)
       else if block_len \<noteq> length buffer then None
       else Option.bind (ks_write dst v (ks_key src it) buffer) (\<lambda>(err, v1).
         if err \<noteq> CHOP_OK then Some (err, count, w1, v1)
         else Option.bind (ks_next src w1 it) (\<lambda>(err, it').
           if err \<noteq> CHOP_OK then Some (traversed err, count + 1, w1, v1)
           else convert_loop src dst (count + 1) it' w1 v1))))"

definition convert_store ::
  "('w, 'i) keyed_store \<Rightarrow> ('v, 'j) keyed_store \<Rightarrow> 'w \<Rightarrow> 'v \<Rightarrow> (chop_error \<times> nat \<times> 'w \<times> 'v) option" where
  "convert_store src dst w v =
    Option.bind (ks_first src w) (\<lambda>((err, it), w1).
      if err \<noteq> CHOP_OK then Some (traversed err, 0, w1, v)
      else Option.bind it (\<lambda>it. convert_loop src dst 0 it w1 v))"

text \<open>What the program finds: the class table, and for each class of file-based stores its methods and its opening.\<close>

record ('w, 'i, 'v, 'j) convert_env =
  cv_lookup :: "bytes \<Rightarrow> chop_class option"
  cv_source :: "chop_class \<Rightarrow> ('w, 'i) keyed_store"
  cv_dest :: "chop_class \<Rightarrow> ('v, 'j) keyed_store"
  cv_open_source :: "chop_class \<Rightarrow> bytes \<Rightarrow> 'w \<Rightarrow> chop_error \<times> 'w"
  cv_open_dest :: "chop_class \<Rightarrow> bytes \<Rightarrow> 'v \<Rightarrow> chop_error \<times> 'v"

text \<open>\<^verbatim>\<open>main\<close>: the status, the number of pairs it prints if it comes so far, and the states of the stores.\<close>

definition convert_main ::
  "('w, 'i, 'v, 'j) convert_env \<Rightarrow> (char \<times> bytes) list \<Rightarrow> bytes list \<Rightarrow> 'w \<Rightarrow> 'v \<Rightarrow> (nat \<times> nat option \<times> 'w \<times> 'v) option" where
  "convert_main env options args w v =
    (case argp_parse convert_parse_opt options args \<lparr>source_store_class_name = None, dest_store_class_name = None,
            source_file_name = None, dest_file_name = None\<rparr> of
       Exit n \<Rightarrow> Some (n, None, w, v)
     | Return opts \<Rightarrow>
        (case (get_store_class (cv_lookup env) (the (source_store_class_name opts)),
               get_store_class (cv_lookup env) (the (dest_store_class_name opts))) of
           (Exit n, _) \<Rightarrow> Some (n, None, w, v)
         | (_, Exit n) \<Rightarrow> Some (n, None, w, v)
         | (Return source_class, Return dest_class) \<Rightarrow>
            (case cv_open_source env source_class (the (source_file_name opts)) w of (err, w1) \<Rightarrow>
               if err \<noteq> CHOP_OK then Some (2, None, w1, v)
               else case cv_open_dest env dest_class (the (dest_file_name opts)) v of (err, v1) \<Rightarrow>
                 if err \<noteq> CHOP_OK then Some (2, None, w1, v1)
                 else map_option (\<lambda>(err, count, w2, v2).
                     (if err \<noteq> CHOP_OK then 1 else 0, Some count, snd (ks_close (cv_source env source_class) w2),
                      snd (ks_close (cv_dest env dest_class) v2)))
                   (convert_store (cv_source env source_class) (cv_dest env dest_class) w1 v1))))"

section \<open>Listing\<close>

text \<open>Content in hexadecimal, in an array of \<open>room\<close> characters: the number of bytes that go there, and the string
  without its NUL.\<close>

definition hex_len :: "nat \<Rightarrow> bytes \<Rightarrow> nat" where
  "hex_len room content = (if length content * 2 \<ge> room then room div 2 - 1 else length content)"

definition hex_field :: "nat \<Rightarrow> bytes \<Rightarrow> bytes" where
  "hex_field room content = chop_buffer_to_hex_string (take (hex_len room content) content)"

definition list_line :: "nat \<Rightarrow> block_key \<Rightarrow> bytes \<Rightarrow> bytes" where
  "list_line count key block =
    ascii ''key #'' @ decimal count @ ascii '': 0x'' @ hex_field 1024 key @ ascii '' '' @ decimal (length block)
      @ ascii '' bytes (0x'' @ hex_field 15 block @ (if hex_len 15 block < length block then ascii ''...'' else [])
      @ [of_char CHR '')'', 10]"

partial_function (option) list_loop ::
  "('w, 'i) keyed_store \<Rightarrow> nat \<Rightarrow> bytes \<Rightarrow> 'i \<Rightarrow> 'w \<Rightarrow> (chop_error \<times> bytes \<times> 'w) option" where
  "list_loop store count out it w =
    (if ks_nil store it then Some (CHOP_OK, out, w)
     else Option.bind (ks_read store w (ks_key store it) []) (\<lambda>((err, buffer, block_len), w1).
       if err \<noteq> CHOP_OK \<or> block_len \<noteq> length buffer then None
       else let out' = out @ list_line count (ks_key store it) buffer in
         Option.bind (ks_next store w1 it) (\<lambda>(err, it').
           if err \<noteq> CHOP_OK then Some (err, out', w1) else list_loop store (count + 1) out' it' w1)))"

declare convert_loop.simps [code] list_loop.simps [code]

definition list_store ::
  "('w, 'i) keyed_store \<Rightarrow> 'w \<Rightarrow> (chop_error \<times> bytes \<times> 'w) option" where
  "list_store store w =
    Option.bind (ks_first store w) (\<lambda>((err, it), w1).
      if err \<noteq> CHOP_OK then Some (err, [], w1) else Option.bind it (\<lambda>it. list_loop store 0 [] it w1))"

text \<open>\<^verbatim>\<open>main\<close>, for classes whose stores have iterators, as all file-based ones do; the default class is
  \<^verbatim>\<open>gdbm_block_store\<close>.\<close>

definition list_main ::
  "(bytes \<Rightarrow> chop_class option) \<Rightarrow> (chop_class \<Rightarrow> ('w, 'i) keyed_store) \<Rightarrow> (chop_class \<Rightarrow> bytes \<Rightarrow> 'w \<Rightarrow> chop_error \<times> 'w)
     \<Rightarrow> (char \<times> bytes) list \<Rightarrow> bytes list \<Rightarrow> 'w \<Rightarrow> (nat \<times> bytes \<times> 'w) option" where
  "list_main chop_class_lookup methods open_store options args w =
    (case argp_parse list_parse_opt options args
            \<lparr>list_store_class_name = ascii ''gdbm_block_store'', list_store_name = None\<rparr> of
       Exit n \<Rightarrow> Some (n, [], w)
     | Return opts \<Rightarrow>
        (case chop_class_lookup (list_store_class_name opts) of
           None \<Rightarrow> Some (1, [], w)
         | Some c \<Rightarrow>
            if c \<notin> set file_based_store_classes then Some (1, [], w)
            else case open_store c (the (list_store_name opts)) w of (err, w1) \<Rightarrow>
              if err \<noteq> CHOP_OK then Some (2, [], w1)
              else map_option (\<lambda>(err, out, w2).
                  if err \<noteq> CHOP_OK \<and> err \<noteq> CHOP_STORE_END then (3, out, w2)
                  else (0, out, ks_destroy (methods c) w2))
                (list_store (methods c) w1)))"

section \<open>The contracts\<close>

text \<open>The lines that a listing prints for given keys.\<close>

primrec lines_of :: "(block_key \<rightharpoonup> bytes) \<Rightarrow> nat \<Rightarrow> block_key list \<Rightarrow> bytes" where
  "lines_of m n [] = []"
| "lines_of m n (k # ks) = list_line n k (the (m k)) @ lines_of m (n + 1) ks"

text \<open>A store that can be gone through: \<open>left w it\<close> lists the keys that an iterator has yet to give.\<close>

locale traversed_store =
  fixes src :: "('w, 'i) keyed_store"
    and src_inv :: "'w \<Rightarrow> bool"
    and src_contents :: "'w \<Rightarrow> block_key \<rightharpoonup> bytes"
    and placed :: "'w \<Rightarrow> 'i \<Rightarrow> bool"
    and left :: "'w \<Rightarrow> 'i \<Rightarrow> block_key list"
  assumes first_law: "src_inv w \<Longrightarrow>
      if src_contents w = Map.empty then ks_first src w = Some ((CHOP_STORE_END, None), w)
      else \<exists>it. ks_first src w = Some ((CHOP_OK, Some it), w) \<and> placed w it
        \<and> distinct (ks_key src it # left w it) \<and> set (ks_key src it # left w it) = dom (src_contents w)"
    and next_law: "\<lbrakk>src_inv w; placed w it\<rbrakk> \<Longrightarrow>
      \<exists>it'. (case left w it of
          [] \<Rightarrow> ks_next src w it = Some (CHOP_STORE_END, it')
        | k # ks \<Rightarrow> ks_next src w it = Some (CHOP_OK, it') \<and> placed w it' \<and> ks_key src it' = k \<and> left w it' = ks)"
    and not_nil_law: "placed w it \<Longrightarrow> \<not> ks_nil src it"
    and source_read_law: "\<lbrakk>src_inv w; src_contents w key = Some b\<rbrakk> \<Longrightarrow>
      ks_read src w key [] = Some ((CHOP_OK, b, length b), w)"
begin

lemma list_loop_lines:
  assumes "src_inv w" "placed w it" "set (ks_key src it # left w it) \<subseteq> dom (src_contents w)"
  shows "list_loop src n out it w = Some (CHOP_STORE_END, out @ lines_of (src_contents w) n (ks_key src it # left w it), w)"
  using assms
proof (induction "left w it" arbitrary: it n out)
  case Nil
  from Nil.prems(3) obtain b where b: "src_contents w (ks_key src it) = Some b" by auto
  from next_law [OF Nil.prems(1,2)] Nil.hyps [symmetric] obtain it' where
    "ks_next src w it = Some (CHOP_STORE_END, it')" by auto
  with source_read_law [OF Nil.prems(1) b] not_nil_law [OF Nil.prems(2)] b Nil.hyps [symmetric]
  show ?case by (subst list_loop.simps) simp
next
  case (Cons k ks)
  from Cons.prems(3) obtain b where b: "src_contents w (ks_key src it) = Some b" by auto
  from next_law [OF Cons.prems(1,2)] Cons.hyps(2) [symmetric] obtain it' where
    it': "ks_next src w it = Some (CHOP_OK, it')" "placed w it'" "ks_key src it' = k" "left w it' = ks" by auto
  with Cons.hyps(1) [of it' "n + 1"] Cons.prems Cons.hyps(2) [symmetric]
    source_read_law [OF Cons.prems(1) b] not_nil_law [OF Cons.prems(2)] b
  show ?case by (subst list_loop.simps) simp
qed

lemma list_store_lines:
  assumes "src_inv w"
  shows "\<exists>keys. distinct keys \<and> set keys = dom (src_contents w)
    \<and> list_store src w = Some (CHOP_STORE_END, lines_of (src_contents w) 0 keys, w)"
proof (cases "src_contents w = Map.empty")
  case True
  with first_law [OF assms] show ?thesis by (intro exI [of _ "[]"]) (simp add: list_store_def)
next
  case False
  with first_law [OF assms] obtain it where
    it: "ks_first src w = Some ((CHOP_OK, Some it), w)" "placed w it" "distinct (ks_key src it # left w it)"
    "set (ks_key src it # left w it) = dom (src_contents w)" by auto
  then have "set (ks_key src it # left w it) \<subseteq> dom (src_contents w)" by simp
  from list_loop_lines [OF assms it(2) this, of 0 "[]"] it show ?thesis
    by (intro exI [of _ "ks_key src it # left w it"]) (simp add: list_store_def)
qed

end

text \<open>A store that takes blocks: keys it \<open>accepts\<close> do not stop the program, and what \<open>fits\<close> is written.\<close>

locale written_store =
  fixes dst :: "('v, 'j) keyed_store"
    and dst_inv :: "'v \<Rightarrow> bool"
    and dst_contents :: "'v \<Rightarrow> block_key \<rightharpoonup> bytes"
    and accepts :: "block_key \<Rightarrow> bool"
    and fits :: "block_key \<Rightarrow> bytes \<Rightarrow> bool"
  assumes dest_write_law: "\<lbrakk>dst_inv v; accepts key\<rbrakk> \<Longrightarrow>
      \<exists>err v'. ks_write dst v key b = Some (err, v') \<and> dst_inv v'
        \<and> (err = CHOP_OK \<longrightarrow> dst_contents v' = (dst_contents v)(key \<mapsto> b)) \<and> (fits key b \<longrightarrow> err = CHOP_OK)"

locale conversion = traversed_store + written_store
begin

text \<open>The conversion always ends.  When it succeeds, the blocks of the source that were to come are in the
  destination; and it succeeds when they fit.\<close>

lemma convert_loop_copies:
  assumes "src_inv w" "placed w it" "dst_inv v" "\<forall>k \<in> dom (src_contents w). accepts k"
    "set (ks_key src it # left w it) \<subseteq> dom (src_contents w)"
  shows "\<exists>err count v'. convert_loop src dst n it w v = Some (err, count, w, v') \<and> dst_inv v'
    \<and> (err = CHOP_OK \<longrightarrow> count = n + length (ks_key src it # left w it)
        \<and> dst_contents v' = dst_contents v ++ (src_contents w |` set (ks_key src it # left w it)))
    \<and> ((\<forall>k b. src_contents w k = Some b \<longrightarrow> fits k b) \<longrightarrow> err = CHOP_OK)"
  using assms
proof (induction "left w it" arbitrary: it n v)
  case Nil
  from Nil.prems(5) obtain b where b: "src_contents w (ks_key src it) = Some b" by auto
  then have "accepts (ks_key src it)" using Nil.prems(4) by auto
  from dest_write_law [OF Nil.prems(3) this, of b] obtain err v1 where
    v1: "ks_write dst v (ks_key src it) b = Some (err, v1)" "dst_inv v1"
    "err = CHOP_OK \<longrightarrow> dst_contents v1 = (dst_contents v)(ks_key src it \<mapsto> b)"
    "fits (ks_key src it) b \<longrightarrow> err = CHOP_OK" by blast
  from next_law [OF Nil.prems(1,2)] Nil.hyps [symmetric] obtain it' where
    next_it: "ks_next src w it = Some (CHOP_STORE_END, it')" by auto
  have "convert_loop src dst n it w v = Some (if err = CHOP_OK then (CHOP_OK, n + 1, w, v1) else (err, n, w, v1))"
    using v1(1) next_it source_read_law [OF Nil.prems(1) b] not_nil_law [OF Nil.prems(2)]
    by (subst convert_loop.simps) (simp add: traversed_def)
  moreover have "dst_contents v ++ (src_contents w |` {ks_key src it}) = (dst_contents v)(ks_key src it \<mapsto> b)"
    using b by (auto simp: fun_eq_iff map_add_def restrict_map_def)
  ultimately show ?case using v1 b Nil.hyps [symmetric] by (cases "err = CHOP_OK") auto
next
  case (Cons k ks)
  from Cons.prems(5) obtain b where b: "src_contents w (ks_key src it) = Some b" by auto
  then have "accepts (ks_key src it)" using Cons.prems(4) by auto
  from dest_write_law [OF Cons.prems(3) this, of b] obtain err v1 where
    v1: "ks_write dst v (ks_key src it) b = Some (err, v1)" "dst_inv v1"
    "err = CHOP_OK \<longrightarrow> dst_contents v1 = (dst_contents v)(ks_key src it \<mapsto> b)"
    "fits (ks_key src it) b \<longrightarrow> err = CHOP_OK" by blast
  from next_law [OF Cons.prems(1,2)] Cons.hyps(2) [symmetric] obtain it' where
    it': "ks_next src w it = Some (CHOP_OK, it')" "placed w it'" "ks_key src it' = k" "left w it' = ks" by auto
  have step: "convert_loop src dst n it w v =
      (if err = CHOP_OK then convert_loop src dst (n + 1) it' w v1 else Some (err, n, w, v1))"
    using v1(1) it'(1) source_read_law [OF Cons.prems(1) b] not_nil_law [OF Cons.prems(2)]
    by (subst convert_loop.simps) simp
  show ?case
  proof (cases "err = CHOP_OK")
    case False
    with step v1 b show ?thesis by auto
  next
    case True
    have "set (ks_key src it' # left w it') \<subseteq> dom (src_contents w)"
      using Cons.prems(5) Cons.hyps(2) [symmetric] it' by simp
    from Cons.hyps(1) [OF it'(4) [symmetric] Cons.prems(1) it'(2) v1(2) Cons.prems(4) this, of "n + 1", unfolded it'(3,4)]
    obtain err' count v' where
      v': "convert_loop src dst (n + 1) it' w v1 = Some (err', count, w, v')" "dst_inv v'"
      "err' = CHOP_OK \<longrightarrow> count = n + 1 + length (k # ks) \<and> dst_contents v' = dst_contents v1 ++ (src_contents w |` set (k # ks))"
      "(\<forall>k b. src_contents w k = Some b \<longrightarrow> fits k b) \<longrightarrow> err' = CHOP_OK" by blast
    have "(dst_contents v)(ks_key src it \<mapsto> b) ++ (src_contents w |` set (k # ks))
        = dst_contents v ++ (src_contents w |` set (ks_key src it # k # ks))"
      using b by (auto simp: fun_eq_iff map_add_def restrict_map_def split: option.splits)
    with step True v' v1(3) Cons.hyps(2) [symmetric] show ?thesis by simp
  qed
qed

lemma convert_store_copies:
  assumes "src_inv w" "dst_inv v" "\<forall>k \<in> dom (src_contents w). accepts k"
  shows "\<exists>err count v'. convert_store src dst w v = Some (err, count, w, v') \<and> dst_inv v'
    \<and> (err = CHOP_OK \<longrightarrow> count = card (dom (src_contents w)) \<and> dst_contents v' = dst_contents v ++ src_contents w)
    \<and> ((\<forall>k b. src_contents w k = Some b \<longrightarrow> fits k b) \<longrightarrow> err = CHOP_OK)"
proof (cases "src_contents w = Map.empty")
  case True
  with first_law [OF assms(1)] assms(2) show ?thesis by (simp add: convert_store_def traversed_def)
next
  case False
  with first_law [OF assms(1)] obtain it where
    it: "ks_first src w = Some ((CHOP_OK, Some it), w)" "placed w it" "distinct (ks_key src it # left w it)"
    "set (ks_key src it # left w it) = dom (src_contents w)" by auto
  have "card (dom (src_contents w)) = length (ks_key src it # left w it)"
    unfolding it(4) [symmetric] using it(3) by (rule distinct_card)
  moreover have "src_contents w |` dom (src_contents w) = src_contents w"
    by (rule ext) (auto simp: restrict_map_def domIff)
  ultimately show ?thesis
    using convert_loop_copies [OF assms(1) it(2) assms(2,3), of 0] it(1) unfolding it(4)
    by (simp add: convert_store_def)
qed

end

section \<open>Databases and directories meet the contracts\<close>

lemma tl_dropWhile_nth: "distinct ks \<Longrightarrow> i < length ks \<Longrightarrow> tl (dropWhile (\<lambda>k. k \<noteq> ks ! i) ks) = drop (Suc i) ks"
  by (induction ks arbitrary: i) (auto simp: nth_Cons split: nat.splits)

definition db_listed :: "'d db_ops \<Rightarrow> ('d \<Rightarrow> bytes \<rightharpoonup> bytes) \<Rightarrow> bytes list \<Rightarrow> 'd db_store \<Rightarrow> bool" where
  "db_listed ops m ks s \<longleftrightarrow> db_laws ops m \<and> db_enumerates ops (db s) ks \<and> set ks = dom (m (db s))"

interpretation db_source: traversed_store "db_keyed_store ops" "db_listed ops m ks" "\<lambda>s. m (db s)"
  "\<lambda>s it. db_listed ops m ks s \<and> \<not> it_nil it \<and> it_key it \<in> set ks"
  "\<lambda>s it. tl (dropWhile (\<lambda>k. k \<noteq> it_key it) ks)" for ops :: "'d db_ops" and m ks
proof (unfold_locales, goal_cases)
  case (1 s)
  then have s: "db_enumerates ops (db s) ks" "set ks = dom (m (db s))" by (auto simp: db_listed_def)
  show ?case
  proof (cases ks)
    case Nil
    then have "m (db s) = Map.empty" using s(2) by (metis dom_eq_empty_conv empty_set)
    with s Nil show ?thesis by (simp add: db_keyed_store_def Let_def db_first_block_def db_enumerates_def)
  next
    case (Cons k ks')
    then have "m (db s) \<noteq> Map.empty" using s(2) by auto
    with s Cons 1 show ?thesis
      by (auto simp: db_keyed_store_def Let_def db_first_block_def db_enumerates_def)
  qed
next
  case (2 s it)
  then have s: "db_enumerates ops (db s) ks" and "it_key it \<in> set ks" "\<not> it_nil it" by (auto simp: db_listed_def)
  then obtain i where i: "it_key it = ks ! i" "i < length ks" by (metis in_set_conv_nth)
  then have nxt: "DB_NEXT_KEY ops (db s) (it_key it) = (if Suc i < length ks then Some (ks ! Suc i) else None)"
    using s by (simp add: db_enumerates_def)
  have dist: "distinct ks" using s by (simp add: db_enumerates_def)
  note rest = tl_dropWhile_nth [OF dist i(2), folded i(1)]
  show ?case
  proof (cases "Suc i < length ks")
    case False
    with nxt rest \<open>\<not> it_nil it\<close> show ?thesis by (simp add: db_keyed_store_def Let_def db_next_block_def)
  next
    case True
    with tl_dropWhile_nth [OF dist True] nxt rest \<open>\<not> it_nil it\<close> 2 show ?thesis
      by (simp add: db_keyed_store_def Let_def db_next_block_def Cons_nth_drop_Suc [symmetric])
  qed
qed (auto simp: db_keyed_store_def Let_def db_read_block_def db_listed_def db_lawsD)

interpretation dir_source: traversed_store "dir_keyed_store names listing slack"
  "\<lambda>s. fs_dir_open s \<and> fs_tidy s \<and> lists_store names listing s" fs_contents
  "\<lambda>s it. fi_sub it \<noteq> None \<and> \<not> fi_nil it \<and> set (entries (fi_top it)) \<subseteq> dom (fs_dirs s)"
  "\<lambda>s. keys_left listing slack" for names listing slack
proof (unfold_locales, goal_cases)
  case (1 s)
  then show ?case
    using first_block_ok [of s names listing slack] by (auto simp: dir_keyed_store_def)
next
  case (2 s it)
  then obtain it' where it': "case keys_left listing slack it of
      [] \<Rightarrow> fs_next_block listing slack s it = Some (CHOP_STORE_END, it')
    | k # ks \<Rightarrow> fs_next_block listing slack s it = Some (CHOP_OK, it') \<and> fi_key it' = k
        \<and> keys_left listing slack it' = ks \<and> fi_sub it' \<noteq> None \<and> set (entries (fi_top it')) \<subseteq> dom (fs_dirs s)"
    using next_block_ok [of it s listing slack] by blast
  show ?case
  proof (cases "keys_left listing slack it")
    case Nil
    with it' show ?thesis by (intro exI [of _ it']) (simp add: dir_keyed_store_def)
  next
    case (Cons k ks)
    with it' 2 next_block_nil [of listing slack s it it'] show ?thesis
      by (intro exI [of _ it']) (simp add: dir_keyed_store_def)
  qed
next
  case (4 s key b)
  then have "block_file_name key \<noteq> None" by (auto simp: fs_contents_def bind_eq_Some_conv)
  with 4 fs_read_ok [of s key "[]"] show ?case by (simp add: dir_keyed_store_def)
qed (simp add: dir_keyed_store_def)

interpretation db_dest: written_store "db_keyed_store ops" "\<lambda>s. db_laws ops m" "\<lambda>s. m (db s)"
  "\<lambda>key. True" "\<lambda>key b. db_writable ops" for ops :: "'d db_ops" and m
proof (unfold_locales, goal_cases)
  case (1 s key b)
  then have "m (snd (DB_WRITE ops (db s) key b)) = (if fst (DB_WRITE ops (db s) key b) then m (db s) else (m (db s))(key \<mapsto> b))"
    using db_lawsD(3) [of ops m "db s" key b] by (cases "DB_WRITE ops (db s) key b") auto
  moreover have "db_writable ops \<Longrightarrow> \<not> fst (DB_WRITE ops (db s) key b)" by (simp add: db_writable_def)
  ultimately show ?case
    using 1 by (cases "DB_WRITE ops (db s) key b") (auto simp: db_keyed_store_def Let_def db_write_block_def)
qed

interpretation dir_dest: written_store "dir_keyed_store names listing slack"
  "\<lambda>s. fs_dir_open s \<and> fs_tidy s \<and> fs_limit s = limit" fs_contents name_size "\<lambda>key b. length b \<le> limit"
  for names listing slack limit
proof (unfold_locales, goal_cases)
  case (1 s key b)
  then obtain name where "block_file_name key = Some name" using name_size_Some by blast
  from fs_write_ok [OF _ this, of s b] 1 obtain s' where
    s': "fs_write_block s key b = Some (if fs_limit s < length b then ERRNO EFBIG else CHOP_OK, s')" "fs_dir_open s'"
    "fs_limit s' = fs_limit s" "fs_contents s' = (fs_contents s)(key \<mapsto> take (fs_limit s) b)" by blast
  moreover have "fs_tidy s'" using fs_write_tidy [OF _ _ s'(1)] 1 by simp
  ultimately show ?case using 1 by (auto simp: dir_keyed_store_def)
qed

interpretation dir_to_db: conversion "dir_keyed_store names listing slack"
  "\<lambda>s. fs_dir_open s \<and> fs_tidy s \<and> lists_store names listing s" fs_contents
  "\<lambda>s it. fi_sub it \<noteq> None \<and> \<not> fi_nil it \<and> set (entries (fi_top it)) \<subseteq> dom (fs_dirs s)"
  "\<lambda>s. keys_left listing slack" "db_keyed_store ops" "\<lambda>s. db_laws ops m" "\<lambda>s. m (db s)"
  "\<lambda>key. True" "\<lambda>key b. db_writable ops" for names listing slack and ops :: "'d db_ops" and m
  by unfold_locales

interpretation db_to_dir: conversion "db_keyed_store ops" "db_listed ops m ks" "\<lambda>s. m (db s)"
  "\<lambda>s it. db_listed ops m ks s \<and> \<not> it_nil it \<and> it_key it \<in> set ks"
  "\<lambda>s it. tl (dropWhile (\<lambda>k. k \<noteq> it_key it) ks)" "dir_keyed_store names listing slack"
  "\<lambda>s. fs_dir_open s \<and> fs_tidy s \<and> fs_limit s = limit" fs_contents name_size "\<lambda>key b. length b \<le> limit"
  for ops :: "'d db_ops" and m ks names listing slack limit
  by unfold_locales

section \<open>The programs\<close>

text \<open>The command line \<^verbatim>\<open>-S source_class -D dest_class source dest\<close>.\<close>

lemma convert_main_run:
  assumes "cv_lookup env source_name = Some source_class" "source_class \<in> set file_based_store_classes"
    "cv_lookup env dest_name = Some dest_class" "dest_class \<in> set file_based_store_classes"
    "cv_open_source env source_class source_file w = (CHOP_OK, w1)" "cv_open_dest env dest_class dest_file v = (CHOP_OK, v1)"
  shows "convert_main env [(CHR ''S'', source_name), (CHR ''D'', dest_name)] [source_file, dest_file] w v =
    map_option (\<lambda>(err, count, w2, v2). (if err \<noteq> CHOP_OK then 1 else 0, Some count,
        snd (ks_close (cv_source env source_class) w2), snd (ks_close (cv_dest env dest_class) v2)))
      (convert_store (cv_source env source_class) (cv_dest env dest_class) w1 v1)"
  using assms by (simp add: convert_main_def argp_parse_def convert_parse_opt_def get_store_class_def)


text \<open>C12: Converting a directory store to a database and the database to a new directory gives the same blocks
  under the same keys, when the database accepts writes and lists its keys, and the new directory has room for the blocks.\<close>

theorem convert_round_trip:
  assumes "fs_dir_open s" "fs_tidy s" "lists_store names listing s"
    and "db_laws ops m" "db_writable ops" "m (db d) = Map.empty"
    and "\<forall>d. \<exists>ks. db_enumerates ops d ks \<and> set ks = dom (m d)"
    and "\<forall>k b. fs_contents s k = Some b \<longrightarrow> length b \<le> limit"
  shows "\<exists>count d' s'.
      convert_store (dir_keyed_store names listing slack) (db_keyed_store ops) s d = Some (CHOP_OK, count, s, d')
    \<and> convert_store (db_keyed_store ops) (dir_keyed_store names' listing' slack') d' (chop_fs_store_open Map.empty limit)
        = Some (CHOP_OK, count, d', s')
    \<and> fs_contents s' = fs_contents s"
proof -
  from dir_to_db.convert_store_copies [where w = s and v = d and names = names and listing = listing and slack = slack and ops = ops and m = m] assms obtain d' where
    d': "convert_store (dir_keyed_store names listing slack) (db_keyed_store ops) s d
        = Some (CHOP_OK, card (dom (fs_contents s)), s, d')" "m (db d') = fs_contents s" by auto
  from assms(7) obtain ks where "db_enumerates ops (db d') ks" "set ks = dom (m (db d'))" by blast
  then have listed: "db_listed ops m ks d'" using assms(4) by (simp add: db_listed_def)
  have sizes: "\<forall>k \<in> dom (m (db d')). name_size k"
  proof
    fix k
    assume "k \<in> dom (m (db d'))"
    then have "block_file_name k \<noteq> None" unfolding d'(2) by (auto simp: fs_contents_def bind_eq_Some_conv)
    then show "name_size k" unfolding named_iff name_size_def .
  qed
  from db_to_dir.convert_store_copies [OF listed _ sizes, where v = "chop_fs_store_open Map.empty limit" and limit = limit and names = names' and listing = listing' and slack = slack']
    new_store [of limit] assms(8) d' show ?thesis by auto
qed


section \<open>On small stores\<close>

text \<open>A database in memory that lists each key once, and a directory with one block.\<close>

definition listing_db :: "(bytes \<times> bytes) list db_ops" where
  "listing_db = alist_db
    \<lparr>DB_FIRST_KEY := (\<lambda>d. case remdups (map fst d) of [] \<Rightarrow> None | k # _ \<Rightarrow> Some k),
     DB_NEXT_KEY := (\<lambda>d. alist_next (map (\<lambda>k. (k, [])) (remdups (map fst d))))\<rparr>"

lemma alist_next_nth:
  "distinct ks \<Longrightarrow> i < length ks \<Longrightarrow>
    alist_next (map (\<lambda>k. (k, v)) ks) (ks ! i) = (if Suc i < length ks then Some (ks ! Suc i) else None)"
  by (induction ks arbitrary: i) (auto simp: nth_Cons split: nat.splits list.splits)

lemma listing_db_laws: "db_laws listing_db map_of"
  using alist_db_laws by (simp add: db_laws_def listing_db_def)

lemma listing_db_enumerates: "db_enumerates listing_db d (remdups (map fst d)) \<and> set (remdups (map fst d)) = dom (map_of d)"
  by (auto simp: db_enumerates_def listing_db_def alist_next_nth dom_map_of_conv_image_fst hd_conv_nth split: list.splits)

lemma listing_db_writable: "db_writable listing_db"
  by (simp add: db_writable_def listing_db_def alist_db_def)

definition sample_dir :: fs_store where
  "sample_dir = \<lparr>fs_dir_open = True, fs_dirs = [ascii ''ae'' \<mapsto> [ascii ''bagba='' \<mapsto> [9]]], fs_limit = 4\<rparr>"

definition sample_names :: "bytes list" where
  "sample_names = [ascii ''.'', ascii ''ae'', ascii ''..'']"

definition sample_listing :: "bytes \<Rightarrow> bytes list" where
  "sample_listing d = [ascii ''bagba='', ascii ''..'']"

lemma sample_dir_listed:
  "fs_dir_open sample_dir" "fs_tidy sample_dir" "lists_store sample_names sample_listing sample_dir"
  "fs_contents sample_dir = [[1, 2, 3, 4] \<mapsto> [9]]"
proof -
  have name: "block_file_name [1, 2, 3, 4] = Some (ascii ''ae'', ascii ''bagba='')" by code_simp
  have look: "fs_lookup sample_dir n = (if n = (ascii ''ae'', ascii ''bagba='') then Some [9] else None)" for n
    by (cases n) (auto simp: fs_lookup_def sample_dir_def)
  show "fs_dir_open sample_dir" by (simp add: sample_dir_def)
  have dirs: "fs_dirs sample_dir d \<noteq> Some Map.empty" for d
    by (simp add: sample_dir_def)
  show "fs_tidy sample_dir" unfolding fs_tidy_def using dirs name look by auto
  have "distinct sample_names" "distinct (sample_listing (ascii ''ae''))" "ascii ''.'' \<noteq> ascii ''ae''" "ascii ''..'' \<noteq> ascii ''ae''"
    "ascii ''.'' \<noteq> ascii ''bagba=''" "ascii ''..'' \<noteq> ascii ''bagba=''" by code_simp+
  then show "lists_store sample_names sample_listing sample_dir"
    by (auto simp: lists_store_def lists_dir_def sample_dir_def sample_names_def sample_listing_def split: if_splits)
  have "fs_contents sample_dir k = (if k = [1, 2, 3, 4] then Some [9] else None)" for k
  proof (cases "k = [1, 2, 3, 4]")
    case True
    then show ?thesis using fs_contents_named [OF name, of sample_dir] look by simp
  next
    case False
    then have "block_file_name k \<noteq> Some (ascii ''ae'', ascii ''bagba='')" using block_file_name_inj [OF name] by metis
    with False look show ?thesis by (cases "block_file_name k") (auto simp: fs_contents_def)
  qed
  then show "fs_contents sample_dir = [[1, 2, 3, 4] \<mapsto> [9]]" by (auto simp: fun_eq_iff)
qed

definition sample_env :: "(fs_store, fs_iterator, (bytes \<times> bytes) list db_store, block_iterator) convert_env" where
  "sample_env = \<lparr>cv_lookup = (\<lambda>name. find (\<lambda>c. class_name c = name) file_based_store_classes),
    cv_source = (\<lambda>c. dir_keyed_store sample_names sample_listing (\<lambda>name. [])), cv_dest = (\<lambda>c. db_keyed_store listing_db),
    cv_open_source = (\<lambda>c file s. (CHOP_OK, s)), cv_open_dest = (\<lambda>c file d. (CHOP_OK, d))\<rparr>"

lemma sample_lookup:
  "find (\<lambda>c. class_name c = ascii ''fs_block_store'') file_based_store_classes
    = Some (Chop_Class (ascii ''fs_block_store'') (Some chop_block_store_class))"
  "find (\<lambda>c. class_name c = ascii ''gdbm_block_store'') file_based_store_classes
    = Some (Chop_Class (ascii ''gdbm_block_store'') (Some chop_block_store_class))"
  by code_simp+

lemma sample_classes:
  "Chop_Class (ascii ''fs_block_store'') (Some chop_block_store_class) \<in> set file_based_store_classes"
  "Chop_Class (ascii ''gdbm_block_store'') (Some chop_block_store_class) \<in> set file_based_store_classes"
  by (simp_all add: file_based_store_classes_def)


theorem convert_round_trip_witness:
  "\<exists>count d' s'. convert_store (dir_keyed_store sample_names sample_listing (\<lambda>name. [])) (db_keyed_store listing_db)
        sample_dir \<lparr>db = [], db_open = True\<rparr> = Some (CHOP_OK, count, sample_dir, d')
    \<and> convert_store (db_keyed_store listing_db) (dir_keyed_store [] (\<lambda>d. []) (\<lambda>name. [])) d'
        (chop_fs_store_open Map.empty 3) = Some (CHOP_OK, count, d', s')
    \<and> fs_contents s' = [[1, 2, 3, 4] \<mapsto> [9]]"
proof -
  have en: "\<forall>d. \<exists>ks. db_enumerates listing_db d ks \<and> set ks = dom (map_of d)" using listing_db_enumerates by blast
  have room: "\<forall>k b. fs_contents sample_dir k = Some b \<longrightarrow> length b \<le> 3" unfolding sample_dir_listed(4) by simp
  have empty: "map_of (db \<lparr>db = [], db_open = True\<rparr>) = Map.empty" by simp
  show ?thesis
    using convert_round_trip [OF sample_dir_listed(1-3) listing_db_laws listing_db_writable empty en room]
    unfolding sample_dir_listed(4) .
qed


end
