(* ===== verification/Chop_RPC.thy ===== *)
theory Chop_RPC
  imports Chop_Hash
begin

text \<open>
  The remote block store: the client (\<^verbatim>\<open>src/src/store-sunrpc.c\<close>), the handlers of the server
  (\<^verbatim>\<open>src/utils/chop-block-server.c\<close>) and the calls between them (\<^verbatim>\<open>block_rstore.x\<close>).  The RPC library is
  modelled by what it documents: arguments and results arrive as they were sent, a request or a reply
  may be lost, a request may be sent again.  The server keeps its results in static variables, which
  are part of its state.  A server that crashes answers no more.  Messages, TLS and the publication
  of the service are left out.
\<close>

section \<open>The server\<close>

record server_options =
  content_hash_enforced :: chop_hash_method
  no_collision_check :: bool

text \<open>The state of the store behind the server, and the static variables of the handlers: the array
  and the length of the reply on existence, and the reply to a read, a status, a length and a pointer.\<close>

record 'w block_server =
  sv_world :: 'w
  sv_exists :: "bool list"
  sv_exists_len :: nat
  sv_read_status :: chop_error
  sv_read_len :: nat
  sv_read_val :: "bytes option"

definition block_server_start :: "'w \<Rightarrow> 'w block_server" where
  "block_server_start w = \<lparr>sv_world = w, sv_exists = replicate 32678 False, sv_exists_len = 0,
     sv_read_status = CHOP_OK, sv_read_len = 0, sv_read_val = None\<rparr>"

definition is_valid_hash_key :: "gcry_md \<Rightarrow> block_key \<Rightarrow> bytes \<Rightarrow> chop_hash_method \<Rightarrow> bool" where
  "is_valid_hash_key G key buffer meth =
    (if meth = CHOP_HASH_NONE then True
     else let hash_size = chop_hash_size meth
          in if hash_size \<noteq> length key then False else take hash_size (G meth buffer) = key)"

definition handle_say_hello :: "'w block_server \<Rightarrow> int \<times> 'w block_server" where
  "handle_say_hello sv = (1, sv)"

text \<open>After an error the array is cleared, but the length is still that of the last success.\<close>

definition handle_blocks_exist ::
  "'w block_store \<Rightarrow> block_key list \<Rightarrow> 'w block_server \<Rightarrow> bool list \<times> 'w block_server" where
  "handle_blocks_exist store keys sv =
    (let n = length keys;
         (err, sv1) =
           (if n \<le> length (sv_exists sv)
            then (case chop_store_blocks_exist store (sv_world sv) keys (take n (sv_exists sv)) of
                    ((err, es), w) \<Rightarrow> (err, sv\<lparr>sv_world := w, sv_exists := es @ drop n (sv_exists sv)\<rparr>))
            else (CHOP_STORE_ERROR, sv));
         sv2 = (if err \<noteq> CHOP_OK then sv1\<lparr>sv_exists := replicate (length (sv_exists sv1)) False\<rparr>
                else sv1\<lparr>sv_exists_len := n\<rparr>)
     in (take (sv_exists_len sv2) (sv_exists sv2), sv2))"

definition handle_write_block ::
  "gcry_md \<Rightarrow> server_options \<Rightarrow> 'w block_store \<Rightarrow> block_key \<Rightarrow> bytes \<Rightarrow> 'w block_server \<Rightarrow> int \<times> 'w block_server" where
  "handle_write_block G opts store key block sv =
    (if \<not> is_valid_hash_key G key block (content_hash_enforced opts) then (-1, sv)
     else let (leave, sv1) =
         (if no_collision_check opts then (None, sv)
          else case chop_store_read_block store (sv_world sv) key [] of ((err, buffer, sz), w) \<Rightarrow>
            (case err of
               CHOP_STORE_BLOCK_UNAVAIL \<Rightarrow> None
             | CHOP_OK \<Rightarrow>
                 if length block \<noteq> length buffer \<or> buffer \<noteq> take (length buffer) block then Some (-3) else Some 0
             | _ \<Rightarrow> None,
             sv\<lparr>sv_world := w\<rparr>))
     in (case leave of
           Some r \<Rightarrow> (r, sv1)
         | None \<Rightarrow>
             (case chop_store_write_block store (sv_world sv1) key block of (err, w) \<Rightarrow>
                (if err \<noteq> CHOP_OK then -1 else 0, sv1\<lparr>sv_world := w\<rparr>))))"

text \<open>For an empty block the pointer is NULL, and the length is that of the last block.\<close>

definition handle_read_block :: "'w block_store \<Rightarrow> block_key \<Rightarrow> 'w block_server \<Rightarrow> 'w block_server" where
  "handle_read_block store key sv =
    (case chop_store_read_block store (sv_world sv) key [] of ((err, buffer, sz), w) \<Rightarrow>
      let sv1 = sv\<lparr>sv_world := w\<rparr>
      in if err \<noteq> CHOP_OK then sv1\<lparr>sv_read_status := err, sv_read_len := 0, sv_read_val := None\<rparr>
         else if sz > 0 then sv1\<lparr>sv_read_status := CHOP_OK, sv_read_len := sz, sv_read_val := Some (take sz buffer)\<rparr>
         else sv1\<lparr>sv_read_status := CHOP_OK, sv_read_val := None\<rparr>)"

definition handle_sync :: "'w block_store \<Rightarrow> 'w block_server \<Rightarrow> int \<times> 'w block_server" where
  "handle_sync store sv =
    (case chop_store_sync store (sv_world sv) of (err, w) \<Rightarrow> (if err \<noteq> CHOP_OK then -1 else 0, sv\<lparr>sv_world := w\<rparr>))"

text \<open>The store is not closed.\<close>

definition handle_close :: "'w block_store \<Rightarrow> 'w block_server \<Rightarrow> int \<times> 'w block_server" where
  "handle_close store sv = handle_sync store sv"

section \<open>Calls\<close>

datatype rpc_request =
    SAY_HELLO
  | BLOCKS_EXIST "block_key list"
  | WRITE_BLOCK block_key bytes
  | READ_BLOCK block_key
  | SYNC
  | CLOSE

datatype rpc_reply = Int_Reply int | Booleans_Reply "bool list" | Read_Reply chop_error bytes

text \<open>The reply to a read is encoded from the static variable; to encode bytes at NULL is a crash.\<close>

definition encode_read_reply :: "'w block_server \<Rightarrow> rpc_reply option" where
  "encode_read_reply sv =
    (case sv_read_val sv of
       None \<Rightarrow> if sv_read_len sv = 0 then Some (Read_Reply (sv_read_status sv) []) else None
     | Some v \<Rightarrow> Some (Read_Reply (sv_read_status sv) (take (sv_read_len sv) v)))"

primrec process_request ::
  "gcry_md \<Rightarrow> server_options \<Rightarrow> 'w block_store \<Rightarrow> rpc_request \<Rightarrow> 'w block_server \<Rightarrow> rpc_reply option \<times> 'w block_server" where
  "process_request G opts store SAY_HELLO sv = map_prod (Some o Int_Reply) (\<lambda>s. s) (handle_say_hello sv)"
| "process_request G opts store (BLOCKS_EXIST keys) sv =
     map_prod (Some o Booleans_Reply) (\<lambda>s. s) (handle_blocks_exist store keys sv)"
| "process_request G opts store (WRITE_BLOCK key block) sv =
     map_prod (Some o Int_Reply) (\<lambda>s. s) (handle_write_block G opts store key block sv)"
| "process_request G opts store (READ_BLOCK key) sv =
     (let sv' = handle_read_block store key sv in (encode_read_reply sv', sv'))"
| "process_request G opts store SYNC sv = map_prod (Some o Int_Reply) (\<lambda>s. s) (handle_sync store sv)"
| "process_request G opts store CLOSE sv = map_prod (Some o Int_Reply) (\<lambda>s. s) (handle_close store sv)"

text \<open>What becomes of a call.  A request that is sent again is handled twice, and the first reply counts.\<close>

datatype call_fate = Answered | Request_Lost | Reply_Lost | Sent_Again

record 'w rpc_world =
  rw_client :: bool
  rw_server :: "'w block_server option"
  rw_fates :: "call_fate list"

definition serve ::
  "gcry_md \<Rightarrow> server_options \<Rightarrow> 'w block_store \<Rightarrow> rpc_request \<Rightarrow> 'w block_server option
     \<Rightarrow> rpc_reply option \<times> 'w block_server option" where
  "serve G opts store req server =
    (case server of
       None \<Rightarrow> (None, None)
     | Some sv \<Rightarrow>
        (case process_request G opts store req sv of
           (None, sv') \<Rightarrow> (None, None)
         | (Some r, sv') \<Rightarrow> (Some r, Some sv')))"

text \<open>A call of the client: no reply is a NULL pointer.  Calls that have no fate left are answered.\<close>

definition rpc_call ::
  "gcry_md \<Rightarrow> server_options \<Rightarrow> 'w block_store \<Rightarrow> rpc_request \<Rightarrow> 'w rpc_world \<Rightarrow> rpc_reply option \<times> 'w rpc_world" where
  "rpc_call G opts store req w =
    (let fate = (case rw_fates w of [] \<Rightarrow> Answered | f # fs \<Rightarrow> f);
         w1 = w\<lparr>rw_fates := tl (rw_fates w)\<rparr>;
         (reply, server) = serve G opts store req (rw_server w)
     in (case fate of
           Answered \<Rightarrow> (reply, w1\<lparr>rw_server := server\<rparr>)
         | Request_Lost \<Rightarrow> (None, w1)
         | Reply_Lost \<Rightarrow> (None, w1\<lparr>rw_server := server\<rparr>)
         | Sent_Again \<Rightarrow> (reply, w1\<lparr>rw_server := snd (serve G opts store req server)\<rparr>)))"

section \<open>The client\<close>

definition sunrpc_blocks_exist ::
  "gcry_md \<Rightarrow> server_options \<Rightarrow> 'w block_store \<Rightarrow> 'w rpc_world \<Rightarrow> block_key list \<Rightarrow> bool list
     \<Rightarrow> (chop_error \<times> bool list) \<times> 'w rpc_world" where
  "sunrpc_blocks_exist G opts store w keys exists =
    (case rpc_call G opts store (BLOCKS_EXIST keys) w of
       (Some (Booleans_Reply ret), w') \<Rightarrow>
         ((if length ret \<noteq> length keys then (CHOP_STORE_ERROR, exists) else (CHOP_OK, ret)), w')
     | (_, w') \<Rightarrow> ((CHOP_STORE_ERROR, exists), w'))"

text \<open>On failure \<^verbatim>\<open>*read\<close> is left at \<open>read0\<close>.\<close>

definition sunrpc_read_block ::
  "gcry_md \<Rightarrow> server_options \<Rightarrow> 'w block_store \<Rightarrow> nat \<Rightarrow> 'w rpc_world \<Rightarrow> block_key \<Rightarrow> bytes
     \<Rightarrow> (chop_error \<times> bytes \<times> nat) \<times> 'w rpc_world" where
  "sunrpc_read_block G opts store read0 w key buffer =
    (case rpc_call G opts store (READ_BLOCK key) w of
       (Some (Read_Reply status block), w') \<Rightarrow>
         ((if status \<noteq> CHOP_OK then (CHOP_STORE_ERROR, buffer, read0) else (CHOP_OK, block, length block)), w')
     | (_, w') \<Rightarrow> ((CHOP_STORE_ERROR, buffer, read0), w'))"

text \<open>Calls that return an integer: zero is success.\<close>

definition int_call ::
  "gcry_md \<Rightarrow> server_options \<Rightarrow> 'w block_store \<Rightarrow> rpc_request \<Rightarrow> 'w rpc_world \<Rightarrow> chop_error \<times> 'w rpc_world" where
  "int_call G opts store req w =
    (case rpc_call G opts store req w of
       (Some (Int_Reply ret), w') \<Rightarrow> (if ret \<noteq> 0 then CHOP_STORE_ERROR else CHOP_OK, w')
     | (_, w') \<Rightarrow> (CHOP_STORE_ERROR, w'))"

definition sunrpc_write_block ::
  "gcry_md \<Rightarrow> server_options \<Rightarrow> 'w block_store \<Rightarrow> 'w rpc_world \<Rightarrow> block_key \<Rightarrow> bytes \<Rightarrow> chop_error \<times> 'w rpc_world" where
  "sunrpc_write_block G opts store w key buffer = int_call G opts store (WRITE_BLOCK key buffer) w"

definition sunrpc_delete_block :: "'w rpc_world \<Rightarrow> block_key \<Rightarrow> chop_error \<times> 'w rpc_world" where
  "sunrpc_delete_block w key = (CHOP_ERR_NOT_IMPL, w)"

definition sunrpc_first_block :: "'w rpc_world \<Rightarrow> (chop_error \<times> block_iterator option) \<times> 'w rpc_world" where
  "sunrpc_first_block w = ((CHOP_ERR_NOT_IMPL, None), w)"

definition sunrpc_close ::
  "gcry_md \<Rightarrow> server_options \<Rightarrow> 'w block_store \<Rightarrow> 'w rpc_world \<Rightarrow> chop_error \<times> 'w rpc_world" where
  "sunrpc_close G opts store w =
    (if \<not> rw_client w then (CHOP_OK, w)
     else case int_call G opts store CLOSE w of (err, w') \<Rightarrow>
       if err \<noteq> CHOP_OK then (CHOP_STORE_ERROR, w') else (CHOP_OK, w'\<lparr>rw_client := False\<rparr>))"

definition sunrpc_sync ::
  "gcry_md \<Rightarrow> server_options \<Rightarrow> 'w block_store \<Rightarrow> 'w rpc_world \<Rightarrow> chop_error \<times> 'w rpc_world" where
  "sunrpc_sync G opts store w = int_call G opts store SYNC w"

definition sunrpc_store ::
  "gcry_md \<Rightarrow> server_options \<Rightarrow> 'w block_store \<Rightarrow> nat \<Rightarrow> 'w rpc_world block_store" where
  "sunrpc_store G opts store read0 =
    \<lparr>m_blocks_exist = Some (sunrpc_blocks_exist G opts store), m_read_block = sunrpc_read_block G opts store read0,
     m_write_block = sunrpc_write_block G opts store, m_delete_block = Some sunrpc_delete_block,
     m_iterator_class = False, m_first_block = Some sunrpc_first_block,
     m_close = sunrpc_close G opts store, m_sync = sunrpc_sync G opts store\<rparr>"

section \<open>Opening\<close>

text \<open>What the system and the libraries answer while a connection is set up.\<close>

record rpc_setup =
  have_gnutls :: bool
  host_found :: bool
  connect_errno :: "nat option"
  gnutls_init_ok :: bool
  init_session_result :: chop_error
  handshake_ok :: bool
  client_created :: bool

datatype rpc_transport = Unix_Socket | Tcp | Udp | Tls_Tcp

definition choose_transport :: "rpc_setup \<Rightarrow> bytes \<Rightarrow> bytes \<Rightarrow> rpc_transport result" where
  "choose_transport su host protocol =
    (if strcasecmp_eq protocol (ascii ''unix'') then
       if length host + 1 > 108 then Inl CHOP_INVALID_ARG else Inr Unix_Socket
     else
       (case (if strcasecmp_eq protocol (ascii ''tcp'') then Inr Tcp
              else if strcasecmp_eq protocol (ascii ''udp'') then Inr Udp
              else if strcasecmp_eq protocol (ascii ''tls/tcp'') then
                if have_gnutls su then Inr Tls_Tcp else Inl CHOP_ERR_NOT_IMPL
              else Inl CHOP_INVALID_ARG) of
          Inl err \<Rightarrow> Inl err
        | Inr t \<Rightarrow> if host_found su then Inr t else Inl CHOP_INVALID_ARG))"

definition tls_connect :: "rpc_setup \<Rightarrow> chop_error" where
  "tls_connect su =
    (case connect_errno su of
       Some errno \<Rightarrow> ERRNO errno
     | None \<Rightarrow>
         if \<not> gnutls_init_ok su then CHOP_INVALID_ARG
         else if init_session_result su \<noteq> CHOP_OK then init_session_result su
         else if \<not> handshake_ok su then CHOP_INVALID_ARG else CHOP_OK)"

definition sunrpc_block_store_open ::
  "gcry_md \<Rightarrow> server_options \<Rightarrow> 'w block_store \<Rightarrow> rpc_setup \<Rightarrow> bytes \<Rightarrow> bytes \<Rightarrow> 'w rpc_world \<Rightarrow> chop_error \<times> 'w rpc_world" where
  "sunrpc_block_store_open G opts store su host protocol w =
    (case choose_transport su host protocol of
       Inl err \<Rightarrow> (err, w)
     | Inr t \<Rightarrow>
        (let err = (if t = Tls_Tcp then tls_connect su else CHOP_OK)
         in if err \<noteq> CHOP_OK then (err, w)
            else if \<not> client_created su then (CHOP_STORE_ERROR, w)
            else (case rpc_call G opts store SAY_HELLO w of
                    (Some (Int_Reply granted), w') \<Rightarrow>
                      if granted = 0 then (CHOP_STORE_ERROR, w'\<lparr>rw_client := False\<rparr>) else (CHOP_OK, w'\<lparr>rw_client := True\<rparr>)
                  | (_, w') \<Rightarrow> (CHOP_STORE_ERROR, w'\<lparr>rw_client := False\<rparr>))))"

section \<open>What a server does to its store\<close>

text \<open>The states a server reaches when it serves any requests; None is a server that has crashed.\<close>

inductive server_reach ::
  "gcry_md \<Rightarrow> server_options \<Rightarrow> 'w block_store \<Rightarrow> 'w block_server \<Rightarrow> 'w block_server option \<Rightarrow> bool"
  for G opts store sv0 where
  starts: "server_reach G opts store sv0 (Some sv0)"
| serves: "server_reach G opts store sv0 (Some sv) \<Longrightarrow> server_reach G opts store sv0 (snd (serve G opts store req (Some sv)))"

text \<open>A server in front of a store that keeps the contract.\<close>

locale served_store = map_store store inv contents
  for store :: "'w block_store" and inv contents +
  fixes G :: gcry_md and opts :: server_options
  assumes sync_law: "inv w \<Longrightarrow> chop_store_sync store w = (err, w') \<Longrightarrow> inv w' \<and> contents w' = contents w"
begin

definition srv_ok :: "'w block_server \<Rightarrow> bool" where
  "srv_ok sv \<longleftrightarrow> inv (sv_world sv) \<and> length (sv_exists sv) = 32678 \<and> sv_exists_len sv \<le> 32678"

abbreviation held :: "'w block_server \<Rightarrow> block_key \<rightharpoonup> bytes" where
  "held sv \<equiv> contents (sv_world sv)"

lemma start_ok: "inv w \<Longrightarrow> srv_ok (block_server_start w)"
  by (simp add: srv_ok_def block_server_start_def)

lemma blocks_exist_handled:
  assumes "srv_ok sv" "handle_blocks_exist store keys sv = (ret, sv')"
  shows "srv_ok sv'" "held sv' = held sv"
    "length keys \<le> 32678 \<Longrightarrow> ret = map (\<lambda>k. k \<in> dom (held sv)) keys"
proof -
  let ?n = "length keys"
  obtain re w where r: "chop_store_blocks_exist store (sv_world sv) keys (take ?n (sv_exists sv)) = (re, w)" by fastforce
  have law: "re = (CHOP_OK, map (\<lambda>k. k \<in> dom (held sv)) keys) \<and> inv w \<and> contents w = held sv" if "?n \<le> 32678"
    using blocks_exist_law [OF _ _ r] assms(1) that by (simp add: srv_ok_def)
  show "srv_ok sv'" "held sv' = held sv" "length keys \<le> 32678 \<Longrightarrow> ret = map (\<lambda>k. k \<in> dom (held sv)) keys"
    using assms law r by (auto simp: handle_blocks_exist_def srv_ok_def Let_def split: if_splits)
qed

lemma read_handled:
  assumes "srv_ok sv"
  shows "\<exists>w. inv w \<and> contents w = held sv \<and> handle_read_block store key sv = (case held sv key of
      None \<Rightarrow> sv\<lparr>sv_world := w, sv_read_status := CHOP_STORE_BLOCK_UNAVAIL, sv_read_len := 0, sv_read_val := None\<rparr>
    | Some b \<Rightarrow> if b = [] then sv\<lparr>sv_world := w, sv_read_status := CHOP_OK, sv_read_val := None\<rparr>
        else sv\<lparr>sv_world := w, sv_read_status := CHOP_OK, sv_read_len := length b, sv_read_val := Some b\<rparr>)"
proof -
  obtain r w where r: "chop_store_read_block store (sv_world sv) key [] = (r, w)" by fastforce
  from read_block_law [OF _ r] assms show ?thesis
    by (intro exI [of _ w]) (simp add: handle_read_block_def r srv_ok_def Let_def split: option.splits)
qed

lemma read_ok:
  assumes "srv_ok sv"
  shows "srv_ok (handle_read_block store key sv)" "held (handle_read_block store key sv) = held sv"
  using read_handled [OF assms, of key] assms by (auto simp: srv_ok_def split: option.splits)

text \<open>The three outcomes of a write: refused, the key is taken, written.\<close>

lemma write_cases:
  assumes "srv_ok sv"
  shows "\<exists>w w1 e w2. inv w \<and> contents w = held sv \<and> inv w1 \<and> contents w1 = held sv
    \<and> chop_store_write_block store w1 key block = (e, w2)
    \<and> handle_write_block G opts store key block sv =
      (if \<not> is_valid_hash_key G key block (content_hash_enforced opts) then (-1, sv)
       else if \<not> no_collision_check opts \<and> held sv key \<noteq> None
         then (if held sv key = Some block then 0 else -3, sv\<lparr>sv_world := w\<rparr>)
       else (if e \<noteq> CHOP_OK then -1 else 0, sv\<lparr>sv_world := w2\<rparr>))"
proof -
  obtain r w where r: "chop_store_read_block store (sv_world sv) key [] = (r, w)" by fastforce
  have inv0: "inv (sv_world sv)" using assms by (simp add: srv_ok_def)
  have rd: "r = (case held sv key of Some b \<Rightarrow> (CHOP_OK, b, length b) | None \<Rightarrow> (CHOP_STORE_BLOCK_UNAVAIL, [], 0))"
    "inv w" "contents w = held sv" using read_block_law [OF inv0 r] by simp_all
  define w1 where "w1 = (if no_collision_check opts then sv_world sv else w)"
  have w1: "inv w1" "contents w1 = held sv" using rd inv0 by (simp_all add: w1_def)
  obtain e w2 where e: "chop_store_write_block store w1 key block = (e, w2)" by fastforce
  have same: "length block \<noteq> length b \<or> b \<noteq> take (length b) block \<longleftrightarrow> b \<noteq> block" for b :: bytes by auto
  have "handle_write_block G opts store key block sv =
      (if \<not> is_valid_hash_key G key block (content_hash_enforced opts) then (-1, sv)
       else if \<not> no_collision_check opts \<and> held sv key \<noteq> None
         then (if held sv key = Some block then 0 else -3, sv\<lparr>sv_world := w\<rparr>)
       else (if e \<noteq> CHOP_OK then -1 else 0, sv\<lparr>sv_world := w2\<rparr>))"
    using e unfolding handle_write_block_def r rd(1) w1_def Let_def same
    by (cases "no_collision_check opts"; cases "held sv key") simp_all
  then show ?thesis using rd(2,3) w1 e by blast
qed

lemma write_handled:
  assumes "srv_ok sv" "handle_write_block G opts store key block sv = (ret, sv')"
  shows "srv_ok sv'"
    "held sv' \<noteq> held sv \<Longrightarrow> is_valid_hash_key G key block (content_hash_enforced opts)
       \<and> (no_collision_check opts \<or> held sv key = None) \<and> held sv' = (held sv)(key \<mapsto> block)"
proof -
  obtain w w1 e w2 where c: "inv w" "contents w = held sv" "inv w1" "contents w1 = held sv"
    "chop_store_write_block store w1 key block = (e, w2)"
    "handle_write_block G opts store key block sv =
      (if \<not> is_valid_hash_key G key block (content_hash_enforced opts) then (-1, sv)
       else if \<not> no_collision_check opts \<and> held sv key \<noteq> None
         then (if held sv key = Some block then 0 else -3, sv\<lparr>sv_world := w\<rparr>)
       else (if e \<noteq> CHOP_OK then -1 else 0, sv\<lparr>sv_world := w2\<rparr>))"
    using write_cases [OF assms(1), of key block] by blast
  have wr: "inv w2" "contents w2 = contents w1 \<or> contents w2 = (contents w1)(key \<mapsto> block)"
    using write_block_law [OF c(3,5)] by (simp_all split: if_splits) blast
  have world: "sv' = sv\<lparr>sv_world := sv_world sv'\<rparr>" "sv_world sv' \<in> {sv_world sv, w, w2}"
    using c(6) assms(2) by (auto split: if_splits)
  then show "srv_ok sv'" using assms(1) c(1) wr(1) by (cases sv; cases sv') (auto simp: srv_ok_def)
  show "held sv' \<noteq> held sv \<Longrightarrow> is_valid_hash_key G key block (content_hash_enforced opts)
       \<and> (no_collision_check opts \<or> held sv key = None) \<and> held sv' = (held sv)(key \<mapsto> block)"
    using c(2,4,6) assms(2) wr(2) by (auto split: if_splits)
qed

lemma sync_handled:
  assumes "srv_ok sv" "handle_sync store sv = (ret, sv')"
  shows "srv_ok sv'" "held sv' = held sv"
  using assms sync_law by (auto simp: handle_sync_def srv_ok_def split: prod.splits)

text \<open>A request adds at most one block, which is legitimate.\<close>

lemma request_step:
  assumes "srv_ok sv" "process_request G opts store req sv = (r, sv')"
  shows "srv_ok sv' \<and> (held sv' = held sv \<or> (\<exists>key block. held sv' = (held sv)(key \<mapsto> block)
    \<and> is_valid_hash_key G key block (content_hash_enforced opts) \<and> (no_collision_check opts \<or> held sv key = None)))"
proof (cases req)
  case (WRITE_BLOCK key block)
  then obtain ret where "handle_write_block G opts store key block sv = (ret, sv')"
    using assms(2) by (cases "handle_write_block G opts store key block sv") auto
  from write_handled [OF assms(1) this] show ?thesis by blast
next
  case (BLOCKS_EXIST keys)
  then obtain ret where "handle_blocks_exist store keys sv = (ret, sv')"
    using assms(2) by (cases "handle_blocks_exist store keys sv") auto
  from blocks_exist_handled [OF assms(1) this] show ?thesis by blast
next
  case (READ_BLOCK key)
  then show ?thesis using assms read_ok [OF assms(1), of key] by (auto simp: Let_def)
next
  case SAY_HELLO
  then show ?thesis using assms by (simp add: handle_say_hello_def)
next
  case SYNC
  then show ?thesis using assms sync_handled [OF assms(1)] by (cases "handle_sync store sv") auto
next
  case CLOSE
  then show ?thesis using assms sync_handled [OF assms(1)] by (cases "handle_sync store sv") (auto simp: handle_close_def)
qed

text \<open>Whatever requests come.\<close>

lemma requests_keep:
  assumes "server_reach G opts store sv0 server" "srv_ok sv0"
  shows "case server of None \<Rightarrow> True | Some sv \<Rightarrow> srv_ok sv
    \<and> (\<not> no_collision_check opts \<longrightarrow> held sv0 \<subseteq>\<^sub>m held sv)
    \<and> (\<forall>key block. held sv key = Some block \<longrightarrow>
         held sv0 key = Some block \<or> is_valid_hash_key G key block (content_hash_enforced opts))"
  using assms
proof (induction rule: server_reach.induct)
  case (serves sv req)
  obtain r sv' where p: "process_request G opts store req sv = (r, sv')" by fastforce
  from serves have IH: "srv_ok sv" "\<not> no_collision_check opts \<Longrightarrow> held sv0 \<subseteq>\<^sub>m held sv"
    "\<And>key block. held sv key = Some block \<Longrightarrow>
         held sv0 key = Some block \<or> is_valid_hash_key G key block (content_hash_enforced opts)" by auto
  have "srv_ok sv'" using request_step [OF IH(1) p] by blast
  moreover have "held sv0 \<subseteq>\<^sub>m held sv'" if "\<not> no_collision_check opts"
    using request_step [OF IH(1) p] IH(2) [OF that] that
    unfolding map_le_def by (auto simp: domIff intro!: ext) (metis domI option.distinct(1))+
  moreover have "held sv0 key = Some block \<or> is_valid_hash_key G key block (content_hash_enforced opts)"
    if "held sv' key = Some block" for key block
    using request_step [OF IH(1) p] IH(3) that by (metis fun_upd_apply option.inject)
  ultimately show ?case using p by (cases r) (simp_all add: serve_def)
qed (simp add: map_le_refl)

end

section \<open>What a client sees\<close>

text \<open>A client's calls and their results, through the dispatch functions; and what they mean on a map,
  as seen through a server that enforces hashes and checks for collisions.\<close>

datatype remote_cmd = Put block_key bytes | Get block_key | Have "block_key list"

datatype remote_result = Put_Result chop_error | Get_Result chop_error bytes | Have_Result chop_error "bool list"

primrec run_remote :: "'w block_store \<Rightarrow> remote_cmd \<Rightarrow> 'w \<Rightarrow> remote_result \<times> 'w" where
  "run_remote store (Put key block) w = map_prod Put_Result (\<lambda>w. w) (chop_store_write_block store w key block)"
| "run_remote store (Get key) w =
     (case chop_store_read_block store w key [] of ((err, buffer, sz), w') \<Rightarrow> (Get_Result err (take sz buffer), w'))"
| "run_remote store (Have keys) w =
     (case chop_store_blocks_exist store w keys (map (\<lambda>_. False) keys) of ((err, es), w') \<Rightarrow> (Have_Result err es, w'))"

primrec run_remotes :: "'w block_store \<Rightarrow> remote_cmd list \<Rightarrow> 'w \<Rightarrow> remote_result list \<times> 'w" where
  "run_remotes store [] w = ([], w)"
| "run_remotes store (c # cs) w =
    (case run_remote store c w of (r, w') \<Rightarrow> (case run_remotes store cs w' of (rs, w'') \<Rightarrow> (r # rs, w'')))"

definition write_refused :: "gcry_md \<Rightarrow> server_options \<Rightarrow> (block_key \<rightharpoonup> bytes) \<Rightarrow> block_key \<Rightarrow> bytes \<Rightarrow> bool" where
  "write_refused G opts m key block \<longleftrightarrow>
    \<not> is_valid_hash_key G key block (content_hash_enforced opts)
    \<or> \<not> no_collision_check opts \<and> key \<in> dom m \<and> m key \<noteq> Some block"

fun spec_remote ::
  "gcry_md \<Rightarrow> server_options \<Rightarrow> remote_cmd \<Rightarrow> (block_key \<rightharpoonup> bytes) \<Rightarrow> remote_result \<times> (block_key \<rightharpoonup> bytes)" where
  "spec_remote G opts (Put key block) m =
    (if write_refused G opts m key block then (Put_Result CHOP_STORE_ERROR, m) else (Put_Result CHOP_OK, m(key \<mapsto> block)))"
| "spec_remote G opts (Get key) m =
    (case m key of None \<Rightarrow> Get_Result CHOP_STORE_ERROR [] | Some b \<Rightarrow> Get_Result CHOP_OK b, m)"
| "spec_remote G opts (Have keys) m = (Have_Result CHOP_OK (map (\<lambda>k. k \<in> dom m) keys), m)"

primrec spec_remotes ::
  "gcry_md \<Rightarrow> server_options \<Rightarrow> remote_cmd list \<Rightarrow> (block_key \<rightharpoonup> bytes) \<Rightarrow> remote_result list \<times> (block_key \<rightharpoonup> bytes)" where
  "spec_remotes G opts [] m = ([], m)"
| "spec_remotes G opts (c # cs) m =
    (case spec_remote G opts c m of (r, m') \<Rightarrow> (case spec_remotes G opts cs m' of (rs, m'') \<Rightarrow> (r # rs, m'')))"

text \<open>No empty block is written, and a question is about no more keys than the server's array holds.\<close>

primrec remote_fits :: "remote_cmd \<Rightarrow> bool" where
  "remote_fits (Put key block) \<longleftrightarrow> block \<noteq> []"
| "remote_fits (Get key) \<longleftrightarrow> True"
| "remote_fits (Have keys) \<longleftrightarrow> length keys \<le> 32678"

lemma sunrpc_dispatch [simp]:
  "chop_store_blocks_exist (sunrpc_store G opts store read0) = sunrpc_blocks_exist G opts store"
  "chop_store_read_block (sunrpc_store G opts store read0) = sunrpc_read_block G opts store read0"
  "chop_store_write_block (sunrpc_store G opts store read0) = sunrpc_write_block G opts store"
  by (auto simp: fun_eq_iff store_dispatch_defs sunrpc_store_def)

locale reliable_served = served_store + replacing_store + reliable_store
begin

definition serves_map :: "(block_key \<rightharpoonup> bytes) \<Rightarrow> 'a block_server option \<Rightarrow> bool" where
  "serves_map m server \<longleftrightarrow> (\<exists>sv. server = Some sv \<and> srv_ok sv \<and> held sv = m)"

lemma serve_write:
  assumes "serves_map m server"
  shows "\<exists>ret server'. serve G opts store (WRITE_BLOCK key block) server = (Some (Int_Reply ret), server')
    \<and> (ret = 0 \<longleftrightarrow> \<not> write_refused G opts m key block)
    \<and> serves_map (if write_refused G opts m key block then m else m(key \<mapsto> block)) server'"
proof -
  obtain sv where sv: "server = Some sv" "srv_ok sv" "held sv = m" using assms by (auto simp: serves_map_def)
  obtain w w1 e w2 where c: "inv w" "contents w = held sv" "inv w1" "contents w1 = held sv"
    "chop_store_write_block store w1 key block = (e, w2)"
    "handle_write_block G opts store key block sv =
      (if \<not> is_valid_hash_key G key block (content_hash_enforced opts) then (-1, sv)
       else if \<not> no_collision_check opts \<and> held sv key \<noteq> None
         then (if held sv key = Some block then 0 else -3, sv\<lparr>sv_world := w\<rparr>)
       else (if e \<noteq> CHOP_OK then -1 else 0, sv\<lparr>sv_world := w2\<rparr>))"
    using write_cases [OF sv(2), of key block] by blast
  have e: "e = CHOP_OK" using write_succeeds [OF c(3), of key block] c(5) by simp
  have w2: "contents w2 = m(key \<mapsto> block)" using write_replaces [OF c(3)] c(4,5) e sv(3) by simp
  obtain ret sv' where h: "handle_write_block G opts store key block sv = (ret, sv')" by fastforce
  have "srv_ok sv'" using write_handled(1) [OF sv(2) h] .
  moreover have "(ret = 0 \<longleftrightarrow> \<not> write_refused G opts m key block)
    \<and> held sv' = (if write_refused G opts m key block then m else m(key \<mapsto> block))"
    using h c(2,6) e w2 sv(3) by (auto simp: write_refused_def fun_upd_idem split: if_splits)
  ultimately show ?thesis using h sv(1) by (auto simp: serve_def serves_map_def)
qed

lemma serve_read:
  assumes "serves_map m server" "[] \<notin> ran m"
  shows "\<exists>status block server'. serve G opts store (READ_BLOCK key) server = (Some (Read_Reply status block), server')
    \<and> (case m key of None \<Rightarrow> status = CHOP_STORE_BLOCK_UNAVAIL | Some b \<Rightarrow> status = CHOP_OK \<and> block = b)
    \<and> serves_map m server'"
proof -
  obtain sv where sv: "server = Some sv" "srv_ok sv" "held sv = m" using assms by (auto simp: serves_map_def)
  have ne: "b \<noteq> []" if "m key = Some b" for b using assms(2) that by (auto simp: ran_def)
  let ?sv' = "handle_read_block store key sv"
  have "\<exists>status block. encode_read_reply ?sv' = Some (Read_Reply status block)
      \<and> (case m key of None \<Rightarrow> status = CHOP_STORE_BLOCK_UNAVAIL | Some b \<Rightarrow> status = CHOP_OK \<and> block = b)"
    using read_handled [OF sv(2), of key] sv(3) ne by (auto simp: encode_read_reply_def split: option.splits)
  then show ?thesis using read_ok [OF sv(2), of key] sv by (auto simp: serve_def serves_map_def Let_def)
qed

lemma serve_exist:
  assumes "serves_map m server" "length keys \<le> 32678"
  shows "\<exists>server'. serve G opts store (BLOCKS_EXIST keys) server = (Some (Booleans_Reply (map (\<lambda>k. k \<in> dom m) keys)), server')
    \<and> serves_map m server'"
proof -
  obtain sv where sv: "server = Some sv" "srv_ok sv" "held sv = m" using assms by (auto simp: serves_map_def)
  obtain ret sv' where h: "handle_blocks_exist store keys sv = (ret, sv')" by fastforce
  from blocks_exist_handled [OF sv(2) h] assms(2) h sv show ?thesis by (auto simp: serve_def serves_map_def)
qed

text \<open>The calls of a client whose replies all arrive, some requests perhaps twice.\<close>

definition connected :: "(block_key \<rightharpoonup> bytes) \<Rightarrow> 'a rpc_world \<Rightarrow> bool" where
  "connected m w \<longleftrightarrow> serves_map m (rw_server w) \<and> set (rw_fates w) \<subseteq> {Answered, Sent_Again}"

lemma connected_start:
  assumes "inv s" "set fates \<subseteq> {Answered, Sent_Again}"
  shows "connected (contents s) \<lparr>rw_client = True, rw_server = Some (block_server_start s), rw_fates = fates\<rparr>"
  using start_ok [OF assms(1)] assms(2) by (simp add: connected_def serves_map_def block_server_start_def)

lemma call_answered:
  assumes "connected m w" "\<And>server. serves_map m server \<Longrightarrow> serves_map m' (snd (serve G opts store req server))"
    "\<And>server. serves_map m' server \<Longrightarrow> serves_map m' (snd (serve G opts store req server))"
  shows "\<exists>w'. rpc_call G opts store req w = (fst (serve G opts store req (rw_server w)), w') \<and> connected m' w'"
proof -
  have "(case rw_fates w of [] \<Rightarrow> Answered | f # fs \<Rightarrow> f) \<in> {Answered, Sent_Again}" "set (tl (rw_fates w)) \<subseteq> {Answered, Sent_Again}"
    using assms(1) by (cases "rw_fates w"; auto simp: connected_def)+
  moreover obtain reply server where s: "serve G opts store req (rw_server w) = (reply, server)" by fastforce
  moreover have "serves_map m' server" using assms(1) assms(2) [of "rw_server w"] s by (simp add: connected_def)
  ultimately show ?thesis using assms(3) [of server] by (auto simp: rpc_call_def Let_def connected_def)
qed

lemma remote_step:
  assumes "connected m w" "[] \<notin> ran m" "remote_fits c" "spec_remote G opts c m = (r, m')"
  shows "\<exists>w'. run_remote (sunrpc_store G opts store read0) c w = (r, w') \<and> connected m' w' \<and> [] \<notin> ran m'"
proof (cases c)
  case (Put key block)
  let ?f = "\<lambda>m. if write_refused G opts m key block then m else m(key \<mapsto> block)"
  have m': "m' = ?f m" "r = Put_Result (if write_refused G opts m key block then CHOP_STORE_ERROR else CHOP_OK)"
    using assms(4) Put by (auto split: if_splits)
  have idem: "?f (?f m) = ?f m" by (simp add: write_refused_def)
  have "\<exists>w'. rpc_call G opts store (WRITE_BLOCK key block) w
      = (fst (serve G opts store (WRITE_BLOCK key block) (rw_server w)), w') \<and> connected m' w'"
    using serve_write [of m _ key block] serve_write [of m' _ key block] idem m'(1)
    by (intro call_answered [OF assms(1)]) force+
  moreover have "[] \<notin> ran m'" using assms(2,3) m'(1) Put by (auto simp: ran_def)
  ultimately show ?thesis
    using serve_write [of m "rw_server w" key block] assms(1) m'(2) Put
    by (auto simp: connected_def sunrpc_write_block_def int_call_def)
next
  case (Get key)
  then have m': "m' = m" using assms(4) by simp
  have "\<exists>w'. rpc_call G opts store (READ_BLOCK key) w
      = (fst (serve G opts store (READ_BLOCK key) (rw_server w)), w') \<and> connected m w'"
    using serve_read [of m _ key] assms(2) by (intro call_answered [OF assms(1)]) force+
  then show ?thesis
    using serve_read [of m "rw_server w" key] assms m' Get
    by (auto simp: connected_def sunrpc_read_block_def split: option.splits)
next
  case (Have keys)
  then have m': "m' = m" using assms(4) by simp
  have "\<exists>w'. rpc_call G opts store (BLOCKS_EXIST keys) w
      = (fst (serve G opts store (BLOCKS_EXIST keys) (rw_server w)), w') \<and> connected m w'"
    using serve_exist [of m _ keys] assms(3) Have by (intro call_answered [OF assms(1)]) force+
  then show ?thesis
    using serve_exist [of m "rw_server w" keys] assms m' Have
    by (auto simp: connected_def sunrpc_blocks_exist_def)
qed

lemma remote_refines:
  assumes "connected m w" "[] \<notin> ran m" "list_all remote_fits cs"
  shows "\<exists>w'. run_remotes (sunrpc_store G opts store read0) cs w = (fst (spec_remotes G opts cs m), w')
    \<and> connected (snd (spec_remotes G opts cs m)) w'"
  using assms
proof (induction cs arbitrary: m w)
  case (Cons c cs)
  obtain r m1 where s: "spec_remote G opts c m = (r, m1)" by fastforce
  from remote_step [OF Cons.prems(1,2) _ s] Cons.prems(3) obtain w1 where
    w1: "run_remote (sunrpc_store G opts store read0) c w = (r, w1)" "connected m1 w1" "[] \<notin> ran m1" by auto
  from Cons.IH [OF w1(2,3)] Cons.prems(3) w1(1) s show ?case by (auto split: prod.splits)
qed simp

end

section \<open>Main properties\<close>

lemma db_sync_dispatch [simp]: "chop_store_sync (generic_db_store ops) = db_sync ops"
  by (auto simp: fun_eq_iff store_dispatch_defs generic_db_store_def)

interpretation served_db: served_store "generic_db_store ops" "\<lambda>s. db_laws ops m \<and> db_open s" "\<lambda>s. m (db s)" G opts
  for ops :: "'d db_ops" and m G opts
  by unfold_locales (auto simp: db_sync_def db_lawsD(5))

interpretation reliable_served_db: reliable_served "generic_db_store ops"
  "\<lambda>s. (db_laws ops m \<and> db_writable ops) \<and> db_open s" "\<lambda>s. m (db s)" G opts
  for ops :: "'d db_ops" and m G opts
  by unfold_locales
    (auto simp: db_sync_def db_write_block_def db_lawsD(5) split: prod.splits if_splits dest: db_lawsD(3))



text \<open>C19: reading an empty block kills a server that has read another.  A fresh server answers with the empty
  block; after a block that is not empty the reply has its length and no contents, so that the server
  crashes, the client reports \<^verbatim>\<open>CHOP_STORE_ERROR\<close>, and no block can be read any more.\<close>

theorem empty_block_kills_server:
  assumes "db_laws ops m" "db_open s" "m (db s) k1 = Some b" "b \<noteq> []" "m (db s) k2 = Some []"
  shows "fst (run_remotes (sunrpc_store G opts (generic_db_store ops) read0) [Get k2]
        \<lparr>rw_client = True, rw_server = Some (block_server_start s), rw_fates = []\<rparr>) = [Get_Result CHOP_OK []]
    \<and> run_remotes (sunrpc_store G opts (generic_db_store ops) read0) [Get k1, Get k2, Get k1]
        \<lparr>rw_client = True, rw_server = Some (block_server_start s), rw_fates = []\<rparr>
      = ([Get_Result CHOP_OK b, Get_Result CHOP_STORE_ERROR [], Get_Result CHOP_STORE_ERROR []],
         \<lparr>rw_client = True, rw_server = None, rw_fates = []\<rparr>)"
  using assms
  by (simp add: sunrpc_read_block_def rpc_call_def serve_def handle_read_block_def encode_read_reply_def
      block_server_start_def db_read_block_def db_lawsD(2) Let_def)

section \<open>Witnesses\<close>

definition sample_options :: server_options where
  "sample_options = \<lparr>content_hash_enforced = CHOP_HASH_NONE, no_collision_check = False\<rparr>"

lemma sample_served:
  "server_reach sample_md sample_options (generic_db_store alist_db)
     (block_server_start \<lparr>db = [([1], [7])], db_open = True\<rparr>)
     (Some ((block_server_start \<lparr>db = [([2], [8]), ([1], [7])], db_open = True\<rparr>)))"
proof -
  let ?sv0 = "block_server_start \<lparr>db = [([1 :: byte], [7 :: byte])], db_open = True\<rparr>"
  have "serve sample_md sample_options (generic_db_store alist_db) (WRITE_BLOCK [2] [8]) (Some ?sv0)
      = (Some (Int_Reply 0), Some (block_server_start \<lparr>db = [([2], [8]), ([1], [7])], db_open = True\<rparr>))"
    by (simp add: serve_def handle_write_block_def is_valid_hash_key_def sample_options_def block_server_start_def
        db_read_block_def db_write_block_def alist_db_def)
  with server_reach.serves [OF server_reach.starts, of sample_md sample_options "generic_db_store alist_db" ?sv0 "WRITE_BLOCK [2] [8]"]
  show ?thesis by simp
qed



theorem empty_block_kills_server_witness:
  "fst (run_remotes (sunrpc_store sample_md sample_options (generic_db_store alist_db) 0) [Get [1], Get [2], Get [1]]
      \<lparr>rw_client = True, rw_server = Some (block_server_start \<lparr>db = [([1], [7]), ([2], [])], db_open = True\<rparr>), rw_fates = []\<rparr>)
    = [Get_Result CHOP_OK [7], Get_Result CHOP_STORE_ERROR [], Get_Result CHOP_STORE_ERROR []]"
  using empty_block_kills_server [OF alist_db_laws, of "\<lparr>db = [([1], [7]), ([2], [])], db_open = True\<rparr>" "[1]" "[7]" "[2]"
      sample_md sample_options 0]
  by simp

end
