(* ===== verification/Chop_LZO.thy ===== *)
theory Chop_LZO
  imports Chop_Filters Chop_Integer
begin

text \<open>
  The LZO filters (\<^verbatim>\<open>src/src/filter-lzo-zip.c\<close>, \<^verbatim>\<open>filter-lzo-unzip.c\<close>, \<^verbatim>\<open>filter-lzo-common.c\<close>), which cut
  their input into blocks, compress each with LZO and write it behind its two sizes.  The library is
  a parameter.  As for the other filters, None is a call that does not return: a loop without end
  or a failed assertion.  Memory allocation succeeds.  The machine is little-endian, with 64-bit sizes.
\<close>

section \<open>The library and the filter\<close>

text \<open>\<^verbatim>\<open>lzo1x_1_compress\<close>, which does not look at the room it has, and \<^verbatim>\<open>lzo1x_decompress_safe\<close>: a code and the
  output.\<close>

record lzo_library =
  lzo1x_1_compress :: "bytes \<Rightarrow> int \<times> bytes"
  lzo1x_decompress_safe :: "bytes \<Rightarrow> nat \<Rightarrow> int \<times> bytes"

definition LZO_E_OK :: int where "LZO_E_OK = 0"

text \<open>\<^verbatim>\<open>input_buffer_size\<close> is the length of the input buffer; pushing may set \<^verbatim>\<open>output_buffer_size\<close> to zero.\<close>

record lzo_filter = chop_filter +
  lz_input_buffer :: bytes
  lz_avail_in :: nat
  lz_input_offset :: nat
  lz_output_buffer :: bytes
  lz_output_buffer_size :: nat
  lz_avail_out :: nat
  lz_output_offset :: nat

definition lzo_filter_new :: "(nat \<Rightarrow> byte) \<Rightarrow> nat \<Rightarrow> nat \<Rightarrow> lzo_filter" where
  "lzo_filter_new memory input_size output_size =
    \<lparr>within_fault_handler = False, lz_input_buffer = map memory [0..<input_size], lz_avail_in = 0, lz_input_offset = 0,
     lz_output_buffer = map memory [0..<output_size], lz_output_buffer_size = output_size, lz_avail_out = 0,
     lz_output_offset = 0\<rparr>"

definition chop_initialize_lzo :: "int \<Rightarrow> bool \<Rightarrow> chop_error \<times> bool" where
  "chop_initialize_lzo lzo_init initialized =
    (if initialized then (CHOP_OK, True)
     else if lzo_init \<noteq> LZO_E_OK then (CHOP_FILTER_ERROR, False) else (CHOP_OK, True))"

definition chop_lzo_zip_filter_init :: "(nat \<Rightarrow> byte) \<Rightarrow> nat \<Rightarrow> lzo_filter" where
  "chop_lzo_zip_filter_init memory input_size =
    (let n = (if input_size \<noteq> 0 then input_size else 8192) in lzo_filter_new memory n (n + n div 64 + 100))"

definition chop_lzo_unzip_filter_init :: "(nat \<Rightarrow> byte) \<Rightarrow> nat \<Rightarrow> lzo_filter" where
  "chop_lzo_unzip_filter_init memory input_size =
    (let n = (if input_size \<noteq> 0 then input_size else 1024) in lzo_filter_new memory n (2 * n))"

definition lzf_open :: "(nat \<Rightarrow> byte) \<Rightarrow> int \<Rightarrow> nat \<Rightarrow> lzo_filter" where
  "lzf_open memory compression_level input_size = chop_lzo_zip_filter_init memory input_size"

definition luf_open :: "(nat \<Rightarrow> byte) \<Rightarrow> nat \<Rightarrow> lzo_filter" where
  "luf_open memory input_size = chop_lzo_unzip_filter_init memory input_size"

section \<open>Pushing\<close>

text \<open>The pointer \<^verbatim>\<open>buffer\<close> is not moved: each turn copies from its start.\<close>

partial_function (option) lzo_push_loop ::
  "('d, lzo_filter) fault_handler option \<Rightarrow> bytes \<Rightarrow> nat \<Rightarrow> nat \<Rightarrow> nat \<Rightarrow> lzo_filter \<times> 'd
     \<Rightarrow> ((chop_error \<times> nat) \<times> lzo_filter \<times> 'd) option" where
  "lzo_push_loop oh buffer sz pushed offset fd =
    (case fd of (f, d) \<Rightarrow>
      if \<not> 0 < sz then Some ((CHOP_OK, pushed), f, d)
      else
        Option.bind
          (if 0 < lz_avail_out f
           then map_option (\<lambda>(err, f1, d1). (err, if err \<noteq> CHOP_OK then f1 else f1\<lparr>lz_output_buffer_size := 0\<rparr>, d1))
                  (chop_filter_handle_output_fault oh (lz_output_buffer_size f) (f, d))
           else Some (CHOP_OK, f, d))
          (\<lambda>(err, f1, d1).
            if err \<noteq> CHOP_OK then
              Some ((if err \<noteq> CHOP_FILTER_UNHANDLED_FAULT then err else if pushed = 0 then CHOP_FILTER_FULL else CHOP_OK,
                pushed), f1, d1)
            else let available = length (lz_input_buffer f1) - offset
                 in if 0 < available then
                      let amount = (if sz < available then sz else available)
                      in lzo_push_loop oh buffer (sz - amount) (pushed + amount) (offset + amount)
                           (f1\<lparr>lz_input_buffer := take offset (lz_input_buffer f1) @ take amount buffer
                                @ drop (offset + amount) (lz_input_buffer f1),
                               lz_avail_in := lz_avail_in f1 + amount\<rparr>, d1)
                    else lzo_push_loop oh buffer sz pushed offset (f1, d1)))"

declare lzo_push_loop.simps [code]

definition lzo_push ::
  "('d, lzo_filter) fault_handler option \<Rightarrow> bytes \<Rightarrow> lzo_filter \<times> 'd \<Rightarrow> ((chop_error \<times> nat) \<times> lzo_filter \<times> 'd) option" where
  "lzo_push oh buffer fd =
    (case fd of (f, d) \<Rightarrow>
      let offset = lz_input_offset f + lz_avail_in f
      in if offset \<le> length (lz_input_buffer f) then lzo_push_loop oh buffer (length buffer) 0 offset (f, d) else None)"

section \<open>Pulling compressed data\<close>

text \<open>Giving output that is there: the amount, and the filter after it.\<close>

definition lzo_give :: "nat \<Rightarrow> lzo_filter \<Rightarrow> bytes \<times> lzo_filter" where
  "lzo_give sz f =
    (let amount = (if lz_avail_out f > sz then sz else lz_avail_out f);
         left = lz_avail_out f - amount
     in (take amount (drop (lz_output_offset f) (lz_output_buffer f)),
         f\<lparr>lz_output_offset := if left = 0 then 0 else lz_output_offset f + amount, lz_avail_out := left\<rparr>))"

text \<open>Compressing the input buffer behind a header: the two sizes, big-endian.\<close>

definition lzo_compress_block :: "lzo_library \<Rightarrow> lzo_filter \<Rightarrow> (chop_error \<times> lzo_filter) option" where
  "lzo_compress_block L f =
    (case lzo1x_1_compress L (take (lz_avail_in f) (lz_input_buffer f)) of (err, out) \<Rightarrow>
      let f1 = f\<lparr>lz_output_buffer := take 8 (lz_output_buffer f) @ out @ drop (length out + 8) (lz_output_buffer f),
                lz_avail_out := length out\<rparr>
      in if err \<noteq> LZO_E_OK then Some (CHOP_FILTER_ERROR, f1)
         else if \<not> length out + 8 \<le> lz_output_buffer_size f then None
         else if 2 ^ 32 \<le> lz_avail_in f \<or> 2 ^ 32 \<le> length out then Some (CHOP_FILTER_ERROR, f1)
         else Some (CHOP_OK, f1\<lparr>lz_output_buffer := be32 (of_nat (length out)) @ be32 (of_nat (lz_avail_in f)) @ out
                @ drop (length out + 8) (lz_output_buffer f),
              lz_avail_in := 0, lz_avail_out := length out + 8\<rparr>))"

text \<open>\<^verbatim>\<open>size\<close> goes down while \<^verbatim>\<open>*pulled\<close> goes up, and the loop ends where they meet.\<close>

partial_function (option) lzo_zip_pull_loop ::
  "lzo_library \<Rightarrow> ('d, lzo_filter) fault_handler option \<Rightarrow> bool \<Rightarrow> nat \<Rightarrow> nat \<Rightarrow> bytes \<Rightarrow> lzo_filter \<times> 'd
     \<Rightarrow> ((chop_error \<times> nat \<times> bytes) \<times> lzo_filter \<times> 'd) option" where
  "lzo_zip_pull_loop L ih flush sz pulled out fd =
    (case fd of (f, d) \<Rightarrow>
      if \<not> pulled < sz then Some ((CHOP_OK, pulled, out), f, d)
      else if 0 < lz_avail_out f then
        (case lzo_give sz f of (new, f1) \<Rightarrow>
          lzo_zip_pull_loop L ih flush (sz - length new) (pulled + length new) (out @ new) (f1, d))
      else if lz_avail_in f < length (lz_input_buffer f) \<and> \<not> flush then
        Option.bind (chop_filter_handle_input_fault ih (length (lz_input_buffer f) - lz_avail_in f) (f, d))
          (\<lambda>(err, f1, d1).
            if err \<noteq> CHOP_OK
            then Some ((if err = CHOP_FILTER_UNHANDLED_FAULT then CHOP_FILTER_EMPTY else err, pulled, out), f1, d1)
            else lzo_zip_pull_loop L ih flush sz pulled out (f1, d1))
      else if 0 < lz_avail_in f then
        Option.bind (lzo_compress_block L f) (\<lambda>(err, f1).
          if err \<noteq> CHOP_OK then Some ((err, pulled, out), f1, d)
          else lzo_zip_pull_loop L ih flush sz pulled out (f1, d))
      else Some ((if pulled = 0 then CHOP_FILTER_EMPTY else CHOP_OK, pulled, out), f, d))"

declare lzo_zip_pull_loop.simps [code]

definition chop_lzo_zip_pull ::
  "lzo_library \<Rightarrow> ('d, lzo_filter) fault_handler option \<Rightarrow> bool \<Rightarrow> nat \<Rightarrow> lzo_filter \<times> 'd
     \<Rightarrow> ((chop_error \<times> nat \<times> bytes) \<times> lzo_filter \<times> 'd) option" where
  "chop_lzo_zip_pull L ih flush sz fd = lzo_zip_pull_loop L ih flush sz 0 [] fd"

section \<open>Pulling decompressed data\<close>

text \<open>\<^verbatim>\<open>ENSURE_LARGE_ENOUGH_BUFFER\<close>: the size is doubled until it is enough; new memory has any contents.  A
  size of zero would be doubled for ever.\<close>

partial_function (option) double_until :: "nat \<Rightarrow> nat \<Rightarrow> nat option" where
  "double_until n new_size =
    (let new_size' = (2 * new_size) mod 2 ^ 64 in if new_size' < n then double_until n new_size' else Some new_size')"

declare double_until.simps [code]

definition ensure_input :: "(nat \<Rightarrow> byte) \<Rightarrow> nat \<Rightarrow> lzo_filter \<Rightarrow> lzo_filter option" where
  "ensure_input memory n f =
    (if length (lz_input_buffer f) < n + lz_input_offset f
     then map_option (\<lambda>new_size. f\<lparr>lz_input_buffer := lz_input_buffer f @ map memory [length (lz_input_buffer f)..<new_size]\<rparr>)
            (double_until (n + lz_input_offset f) (length (lz_input_buffer f)))
     else Some f)"

definition ensure_output :: "(nat \<Rightarrow> byte) \<Rightarrow> nat \<Rightarrow> lzo_filter \<Rightarrow> lzo_filter option" where
  "ensure_output memory n f =
    (if lz_output_buffer_size f < n + lz_output_offset f
     then map_option (\<lambda>new_size. f\<lparr>lz_output_buffer := lz_output_buffer f @ map memory [length (lz_output_buffer f)..<new_size],
              lz_output_buffer_size := new_size\<rparr>)
            (double_until (n + lz_output_offset f) (lz_output_buffer_size f))
     else Some f)"

text \<open>Decompressing a block of which all is there.\<close>

definition lzo_decompress_block :: "lzo_library \<Rightarrow> nat \<Rightarrow> nat \<Rightarrow> lzo_filter \<Rightarrow> (chop_error \<times> lzo_filter) option" where
  "lzo_decompress_block L in32 out32 f =
    (case lzo1x_decompress_safe L (take in32 (drop (lz_input_offset f) (lz_input_buffer f))) (lz_output_buffer_size f) of
       (err, out) \<Rightarrow>
         let f1 = f\<lparr>lz_output_buffer := out @ drop (length out) (lz_output_buffer f), lz_avail_out := length out\<rparr>
         in if err \<noteq> LZO_E_OK then Some (CHOP_FILTER_ERROR, f1)
            else if length out \<noteq> out32 then None
            else Some (CHOP_OK, f1\<lparr>lz_avail_in := 0, lz_output_offset := 0, lz_input_offset := 0\<rparr>))"

text \<open>Reading a header from the start of the input buffer, getting the rest of the block, decompressing it.\<close>

definition lzo_next_block ::
  "lzo_library \<Rightarrow> (nat \<Rightarrow> byte) \<Rightarrow> ('d, lzo_filter) fault_handler option \<Rightarrow> lzo_filter \<times> 'd \<Rightarrow> (chop_error \<times> lzo_filter \<times> 'd) option" where
  "lzo_next_block L memory ih fd =
    (case fd of (f, d) \<Rightarrow>
      let in32 = unat (be32_value (take 4 (lz_input_buffer f)));
          out32 = unat (be32_value (take 4 (drop 4 (lz_input_buffer f))));
          f1 = f\<lparr>lz_input_offset := lz_input_offset f + 8, lz_avail_in := lz_avail_in f - 8\<rparr>
      in Option.bind (ensure_input memory in32 f1) (\<lambda>f2.
         Option.bind (ensure_output memory out32 f2) (\<lambda>f3.
         Option.bind (if lz_avail_in f3 < in32 then chop_filter_handle_input_fault ih (in32 - lz_avail_in f3) (f3, d)
                      else Some (CHOP_OK, f3, d)) (\<lambda>(err, f4, d4).
           if err \<noteq> CHOP_OK \<or> lz_avail_in f4 < in32 then Some (CHOP_FILTER_ERROR, f4, d4)
           else map_option (\<lambda>(err, f5). (err, f5, d4)) (lzo_decompress_block L in32 out32 f4)))))"

text \<open>The header of a block is taken off \<^verbatim>\<open>size\<close>, which wraps below zero.  The bytes written to the caller's
  buffer may be more than it holds.\<close>

partial_function (option) lzo_unzip_pull_loop ::
  "lzo_library \<Rightarrow> (nat \<Rightarrow> byte) \<Rightarrow> ('d, lzo_filter) fault_handler option \<Rightarrow> bool \<Rightarrow> nat \<Rightarrow> nat \<Rightarrow> bytes \<Rightarrow> lzo_filter \<times> 'd
     \<Rightarrow> ((chop_error \<times> nat \<times> bytes) \<times> lzo_filter \<times> 'd) option" where
  "lzo_unzip_pull_loop L memory ih flush sz pulled out fd =
    (case fd of (f, d) \<Rightarrow>
      if \<not> pulled < sz then Some ((CHOP_OK, pulled, out), f, d)
      else if 0 < lz_avail_out f then
        (case lzo_give sz f of (new, f1) \<Rightarrow>
          lzo_unzip_pull_loop L memory ih flush (sz - length new) (pulled + length new) (out @ new) (f1, d))
      else if flush then Some ((if pulled = 0 then CHOP_FILTER_EMPTY else CHOP_OK, pulled, out), f, d)
      else
        Option.bind (if lz_avail_in f < 8 then map_option (\<lambda>r. (sz, r)) (chop_filter_handle_input_fault ih 8 (f, d))
                     else map_option (\<lambda>r. ((sz + 2 ^ 64 - 8) mod 2 ^ 64, r)) (lzo_next_block L memory ih (f, d)))
          (\<lambda>(sz1, err, f1, d1).
            if err \<noteq> CHOP_OK then Some ((err, pulled, out), f1, d1)
            else lzo_unzip_pull_loop L memory ih flush sz1 pulled out (f1, d1)))"

declare lzo_unzip_pull_loop.simps [code]

definition chop_lzo_unzip_pull ::
  "lzo_library \<Rightarrow> (nat \<Rightarrow> byte) \<Rightarrow> ('d, lzo_filter) fault_handler option \<Rightarrow> bool \<Rightarrow> nat \<Rightarrow> lzo_filter \<times> 'd
     \<Rightarrow> ((chop_error \<times> nat \<times> bytes) \<times> lzo_filter \<times> 'd) option" where
  "chop_lzo_unzip_pull L memory ih flush sz fd =
    map_option (\<lambda>((err, pulled, out), fd').
        ((if err = CHOP_FILTER_UNHANDLED_FAULT then if pulled = 0 then CHOP_FILTER_EMPTY else CHOP_OK else err, pulled, out), fd'))
      (lzo_unzip_pull_loop L memory ih flush sz 0 [] fd)"

end
