(* ===== verification/Chop_LZO_Correct.thy ===== *)
theory Chop_LZO_Correct
  imports Chop_LZO Chop_Filtered Chop_Choppers
begin

text \<open>
  The LZO filters undo each other: the compressing filter writes the blocks of its input as frames, the
  decompressing filter gives the contents of the frames.  Both keep the contract of a filter, so that
  a filtered store may use them.  The decompressing filter writes past a small buffer.
\<close>

section \<open>What the library documents\<close>

text \<open>Compression expands data by at most 16 bytes per 1024, and decompression undoes it when there is room.\<close>

definition lzo_laws :: "lzo_library \<Rightarrow> bool" where
  "lzo_laws L \<longleftrightarrow> (\<forall>x. fst (lzo1x_1_compress L x) = LZO_E_OK
     \<and> length (snd (lzo1x_1_compress L x)) \<le> length x + length x div 64 + 16
     \<and> (\<forall>room. length x \<le> room \<longrightarrow> lzo1x_decompress_safe L (snd (lzo1x_1_compress L x)) room = (LZO_E_OK, x)))"

abbreviation packed :: "lzo_library \<Rightarrow> bytes \<Rightarrow> bytes" where
  "packed L x \<equiv> snd (lzo1x_1_compress L x)"

lemma lzo_lawsD:
  assumes "lzo_laws L"
  shows "lzo1x_1_compress L x = (LZO_E_OK, packed L x)" "length (packed L x) \<le> length x + length x div 64 + 16"
    "length x \<le> room \<Longrightarrow> lzo1x_decompress_safe L (packed L x) room = (LZO_E_OK, x)"
  using assms unfolding lzo_laws_def by (simp_all add: prod_eq_iff)

text \<open>A block behind its header, and the frames of a sequence of blocks.\<close>

definition lzo_frame :: "lzo_library \<Rightarrow> bytes \<Rightarrow> bytes" where
  "lzo_frame L x = be32 (of_nat (length (packed L x))) @ be32 (of_nat (length x)) @ packed L x"

definition lzo_frames :: "lzo_library \<Rightarrow> bytes list \<Rightarrow> bytes" where
  "lzo_frames L xs = concat (map (lzo_frame L) xs)"

lemma lzo_frames_simps [simp]:
  "lzo_frames L [] = []" "lzo_frames L (x # xs) = lzo_frame L x @ lzo_frames L xs"
  by (simp_all add: lzo_frames_def)

section \<open>Filling the input buffer\<close>

definition lz_loaded :: "bytes \<Rightarrow> lzo_filter \<Rightarrow> lzo_filter" where
  "lz_loaded bs f =
    (let offset = lz_input_offset f + lz_avail_in f
     in f\<lparr>lz_input_buffer := take offset (lz_input_buffer f) @ bs @ drop (offset + length bs) (lz_input_buffer f),
          lz_avail_in := lz_avail_in f + length bs\<rparr>)"

lemma lzo_push_fits:
  assumes "lz_avail_out f = 0" "lz_input_offset f + lz_avail_in f + length bs \<le> length (lz_input_buffer f)"
  shows "lzo_push oh bs (f, d) = Some ((CHOP_OK, length bs), lz_loaded bs f, d)"
proof (cases "bs = []")
  case True
  with assms show ?thesis
    by (simp add: lzo_push_def lzo_push_loop.simps [where sz = 0] lz_loaded_def)
next
  case False
  let ?offset = "lz_input_offset f + lz_avail_in f"
  have "0 < length (lz_input_buffer f) - ?offset" "\<not> (length bs < length (lz_input_buffer f) - ?offset)
      \<longleftrightarrow> length bs = length (lz_input_buffer f) - ?offset" using False assms(2) by (cases bs; auto)+
  then have "lzo_push_loop oh bs (length bs) 0 ?offset (f, d)
      = lzo_push_loop oh bs 0 (length bs) (?offset + length bs) (lz_loaded bs f, d)"
    using False assms by (subst lzo_push_loop.simps) (auto simp: lz_loaded_def Let_def)
  with assms show ?thesis by (simp add: lzo_push_def lzo_push_loop.simps [where sz = 0])
qed

abbreviation lzo_source :: "(input_buffer, lzo_filter) fault_handler" where
  "lzo_source \<equiv> handle_input_fault_from_buffer (lzo_push None)"

abbreviation ib_skip :: "nat \<Rightarrow> input_buffer \<Rightarrow> input_buffer" where
  "ib_skip n d \<equiv> d\<lparr>ib_buffer := drop n (ib_buffer d), ib_read := ib_read d + length (take n (ib_buffer d))\<rparr>"

lemma lzo_feed:
  assumes "\<not> within_fault_handler f" "lz_avail_out f = 0"
    and "lz_input_offset f + lz_avail_in f + length (take n (ib_buffer d)) \<le> length (lz_input_buffer f)"
  shows "chop_filter_handle_input_fault (Some lzo_source) n (f, d) =
    (if ib_buffer d = [] then Some (CHOP_FILTER_UNHANDLED_FAULT, f, d)
     else Some (CHOP_OK, lz_loaded (take n (ib_buffer d)) f, ib_skip n d))"
proof -
  let ?f = "f\<lparr>within_fault_handler := True\<rparr>"
  have t: "take (if length (ib_buffer d) < n then length (ib_buffer d) else n) (ib_buffer d) = take n (ib_buffer d)" by simp
  have p: "lzo_push None (take n (ib_buffer d)) (?f, d)
      = Some ((CHOP_OK, length (take n (ib_buffer d))), lz_loaded (take n (ib_buffer d)) ?f, d)"
    using assms(2,3) by (intro lzo_push_fits) simp_all
  have "(lz_loaded bs ?f)\<lparr>within_fault_handler := False\<rparr> = lz_loaded bs f" for bs
    using assms(1) by (cases f) (simp add: lz_loaded_def Let_def)
  moreover have "?f\<lparr>within_fault_handler := False\<rparr> = f" using assms(1) by (cases f) simp
  moreover have "drop (length (take n (ib_buffer d))) (ib_buffer d) = drop n (ib_buffer d)"
    by (cases "n \<le> length (ib_buffer d)") (simp_all add: min_def)
  ultimately show ?thesis
    using assms(1) p unfolding chop_filter_handle_input_fault_def handle_input_fault_from_buffer_def prod.case option.case t
    by simp
qed

section \<open>Compressing\<close>

text \<open>Output that is there but not yet given.\<close>

definition lz_ready :: "lzo_filter \<Rightarrow> bytes" where
  "lz_ready f = take (lz_avail_out f) (drop (lz_output_offset f) (lz_output_buffer f))"

definition lz_wf :: "lzo_filter \<Rightarrow> bool" where
  "lz_wf f \<longleftrightarrow> \<not> within_fault_handler f \<and> lz_output_offset f + lz_avail_out f \<le> length (lz_output_buffer f)
     \<and> lz_output_buffer_size f = length (lz_output_buffer f)"

lemma lzo_give_spec:
  assumes "lz_wf f" "lzo_give sz f = (new, f')"
  shows "lz_ready f = new @ lz_ready f'" "length new = min sz (lz_avail_out f)" "lz_avail_out f' + length new = lz_avail_out f"
    "lz_wf f'" "lz_input_buffer f' = lz_input_buffer f" "lz_avail_in f' = lz_avail_in f"
    "lz_input_offset f' = lz_input_offset f" "length (lz_output_buffer f') = length (lz_output_buffer f)"
    "lz_output_offset f = 0 \<or> lz_avail_out f \<noteq> 0 \<Longrightarrow> lz_output_offset f' = 0 \<or> lz_avail_out f' \<noteq> 0"
proof -
  let ?a = "min sz (lz_avail_out f)"
  have a: "(if lz_avail_out f > sz then sz else lz_avail_out f) = ?a" by simp
  have new: "new = take ?a (drop (lz_output_offset f) (lz_output_buffer f))"
    and f': "f' = f\<lparr>lz_output_offset := if lz_avail_out f - ?a = 0 then 0 else lz_output_offset f + ?a,
       lz_avail_out := lz_avail_out f - ?a\<rparr>"
    using assms(2) unfolding lzo_give_def Let_def a by auto
  show len: "length new = ?a" using assms(1) by (auto simp: new lz_wf_def min_def)
  have "take (lz_avail_out f) xs = take ?a xs @ take (lz_avail_out f - ?a) (drop ?a xs)" for xs :: bytes
    by (metis le_add_diff_inverse min.cobounded2 take_add)
  then show "lz_ready f = new @ lz_ready f'" by (simp add: new f' lz_ready_def add.commute)
  show "lz_avail_out f' + length new = lz_avail_out f" using len by (simp add: f')
  show "lz_wf f'" using assms(1) by (auto simp: f' lz_wf_def)
  show "lz_output_offset f = 0 \<or> lz_avail_out f \<noteq> 0 \<Longrightarrow> lz_output_offset f' = 0 \<or> lz_avail_out f' \<noteq> 0"
    "lz_input_buffer f' = lz_input_buffer f" "lz_avail_in f' = lz_avail_in f"
    "lz_input_offset f' = lz_input_offset f" "length (lz_output_buffer f') = length (lz_output_buffer f)"
    by (simp_all add: f')
qed

text \<open>The filter in use: what it will still write, and how much is left to do.\<close>

definition zip_inv :: "lzo_library \<Rightarrow> nat \<Rightarrow> lzo_filter \<Rightarrow> bool" where
  "zip_inv L n f \<longleftrightarrow> lzo_laws L \<and> 0 < n \<and> n < 2 ^ 31 \<and> length (lz_input_buffer f) = n \<and> lz_input_offset f = 0
     \<and> lz_avail_in f \<le> n \<and> length (lz_output_buffer f) = n + n div 64 + 100 \<and> lz_wf f
     \<and> (lz_output_offset f = 0 \<or> lz_avail_out f \<noteq> 0)"

definition zip_future :: "lzo_library \<Rightarrow> nat \<Rightarrow> lzo_filter \<Rightarrow> input_buffer \<Rightarrow> bytes" where
  "zip_future L n f d =
    lz_ready f @ lzo_frames L (chunks n (take (lz_avail_in f) (lz_input_buffer f) @ ib_buffer d))"

definition lzo_zip_work :: "lzo_filter \<Rightarrow> input_buffer \<Rightarrow> nat" where
  "lzo_zip_work f d = lz_avail_out f + 30 * lz_avail_in f + 31 * length (ib_buffer d)"

lemma zip_feed:
  assumes "zip_inv L n f" "lz_avail_out f = 0" "lz_avail_in f < n" "ib_buffer d \<noteq> []"
  defines "f1 \<equiv> lz_loaded (take (n - lz_avail_in f) (ib_buffer d)) f" and "d1 \<equiv> ib_skip (n - lz_avail_in f) d"
  shows "chop_filter_handle_input_fault (Some lzo_source) (n - lz_avail_in f) (f, d) = Some (CHOP_OK, f1, d1)"
    "zip_inv L n f1" "lz_avail_out f1 = 0" "zip_future L n f1 d1 = zip_future L n f d" "lzo_zip_work f1 d1 < lzo_zip_work f d"
proof -
  let ?k = "n - lz_avail_in f"
  have i: "length (lz_input_buffer f) = n" "lz_input_offset f = 0" "\<not> within_fault_handler f"
    using assms(1) by (simp_all add: zip_inv_def lz_wf_def)
  show "chop_filter_handle_input_fault (Some lzo_source) ?k (f, d) = Some (CHOP_OK, f1, d1)"
    using lzo_feed [OF i(3) assms(2), of ?k d] i assms(3,4) by (simp add: f1_def d1_def)
  show inv: "zip_inv L n f1" "lz_avail_out f1 = 0"
    using assms(1-3) by (auto simp: f1_def lz_loaded_def zip_inv_def lz_wf_def Let_def)
  have "lz_ready f1 = lz_ready f" by (simp add: f1_def lz_loaded_def lz_ready_def Let_def)
  moreover have "take (lz_avail_in f1) (lz_input_buffer f1) = take (lz_avail_in f) (lz_input_buffer f) @ take ?k (ib_buffer d)"
    using i assms(3) by (simp add: f1_def lz_loaded_def Let_def min_def)
  ultimately show "zip_future L n f1 d1 = zip_future L n f d"
    by (simp add: zip_future_def d1_def)
  have "lz_avail_in f1 = lz_avail_in f + length (take ?k (ib_buffer d))" by (simp add: f1_def lz_loaded_def Let_def)
  moreover have "length (ib_buffer d1) + length (take ?k (ib_buffer d)) = length (ib_buffer d)"
    unfolding d1_def by (simp add: min_def)
  moreover have "0 < length (take ?k (ib_buffer d))" using assms(3,4) by simp
  ultimately show "lzo_zip_work f1 d1 < lzo_zip_work f d" using inv(2) assms(2) unfolding lzo_zip_work_def by linarith
qed

lemma zip_compress:
  assumes "zip_inv L n f" "lz_avail_out f = 0" "0 < lz_avail_in f" "lz_avail_in f = n \<or> ib_buffer d = []"
  obtains f1 where "lzo_compress_block L f = Some (CHOP_OK, f1)" "zip_inv L n f1" "lz_avail_in f1 = 0"
    "zip_future L n f1 d = zip_future L n f d" "lzo_zip_work f1 d < lzo_zip_work f d"
proof -
  let ?x = "take (lz_avail_in f) (lz_input_buffer f)"
  have i: "lzo_laws L" "0 < n" "n < 2 ^ 31" "length (lz_input_buffer f) = n" "lz_input_offset f = 0" "lz_avail_in f \<le> n"
    "length (lz_output_buffer f) = n + n div 64 + 100" "lz_output_buffer_size f = n + n div 64 + 100"
    "\<not> within_fault_handler f" "lz_output_offset f = 0"
    using assms(1,2) by (simp_all add: zip_inv_def lz_wf_def)
  have len: "length ?x = lz_avail_in f" using i by simp
  note l = lzo_lawsD(1,2) [OF i(1), of ?x]
  let ?out = "packed L ?x"
  have small: "length ?out \<le> lz_avail_in f + lz_avail_in f div 64 + 16" using l(2) len by simp
  also have "\<dots> \<le> n + n div 64 + 16" using i(6) by (simp add: add_mono div_le_mono)
  finally have out: "length ?out \<le> n + n div 64 + 16" .
  have "n div 64 \<le> n" by simp
  then have "length ?out < 2 ^ 32" "lz_avail_in f < 2 ^ 32" using out i(3,6) by simp_all
  then have sizes: "\<not> (2 ^ 32 \<le> lz_avail_in f \<or> 2 ^ 32 \<le> length ?out)" "length ?out + 8 \<le> lz_output_buffer_size f"
    using out i(8) by simp_all
  define f1 where "f1 = f\<lparr>lz_output_buffer := lzo_frame L ?x @ drop (length ?out + 8) (lz_output_buffer f),
      lz_avail_in := 0, lz_avail_out := length ?out + 8\<rparr>"
  have c: "lzo_compress_block L f = Some (CHOP_OK, f1)"
    using sizes unfolding lzo_compress_block_def by (subst l(1)) (simp add: f1_def lzo_frame_def len del: length_take)
  have frame_len: "length (lzo_frame L ?x) = length ?out + 8" by (simp add: lzo_frame_def)
  have inv: "zip_inv L n f1" "lz_avail_in f1 = 0"
    using i assms(1) sizes(2) by (simp_all add: f1_def zip_inv_def lz_wf_def frame_len)
  have ready: "lz_ready f1 = lzo_frame L ?x" "lz_ready f = []"
    using i(10) assms(2) by (simp_all add: f1_def lz_ready_def frame_len)
  have "chunks n (?x @ ib_buffer d) = ?x # chunks n (ib_buffer d)"
  proof -
    have "?x @ ib_buffer d \<noteq> []" using assms(3) i by (metis append_is_Nil_conv len length_greater_0_conv)
    moreover have "take n (?x @ ib_buffer d) = ?x" "drop n (?x @ ib_buffer d) = ib_buffer d" using assms(4) i len by auto
    ultimately show ?thesis using chunks_step [OF i(2)] by metis
  qed
  then have "zip_future L n f1 d = zip_future L n f d" by (simp add: zip_future_def ready inv(2))
  moreover have "lzo_zip_work f1 d < lzo_zip_work f d"
    using small assms(2,3) by (simp add: lzo_zip_work_def f1_def)
  ultimately show thesis using that [OF c inv] by blast
qed

text \<open>A pull gives the next part of what is to come; it says that the filter is empty when nothing is left
  to give without flushing, or at all.\<close>

definition zip_pulled :: "lzo_library \<Rightarrow> nat \<Rightarrow> bool \<Rightarrow> nat \<Rightarrow> nat \<Rightarrow> lzo_filter \<Rightarrow> input_buffer \<Rightarrow> chop_error \<Rightarrow> bytes
     \<Rightarrow> lzo_filter \<Rightarrow> input_buffer \<Rightarrow> bool" where
  "zip_pulled L n flush sz pulled f d err new f' d' \<longleftrightarrow>
    zip_inv L n f' \<and> zip_future L n f d = new @ zip_future L n f' d' \<and> (flush \<longrightarrow> ib_buffer d' = [])
    \<and> lzo_zip_work f' d' + length new \<le> lzo_zip_work f d
    \<and> (err = CHOP_OK \<and> (pulled < sz \<longrightarrow> pulled \<noteq> 0 \<or> new \<noteq> [])
       \<or> err = CHOP_FILTER_EMPTY \<and> lz_avail_out f' = 0 \<and> ib_buffer d' = [] \<and> (flush \<longrightarrow> lz_avail_in f' = 0 \<and> pulled = 0 \<and> new = []))"

lemma zip_pull_loop_ok:
  assumes "zip_inv L n f" "flush \<Longrightarrow> ib_buffer d = []"
  shows "\<exists>err new f' d'. lzo_zip_pull_loop L (Some lzo_source) flush sz pulled out (f, d)
      = Some ((err, pulled + length new, out @ new), f', d') \<and> zip_pulled L n flush sz pulled f d err new f' d'"
  using assms
proof (induction "lzo_zip_work f d" arbitrary: f d sz pulled out rule: less_induct)
  case less
  note inv = less.prems(1)
  have len: "length (lz_input_buffer f) = n" and wf: "lz_wf f" using inv by (simp_all add: zip_inv_def)
  consider (full) "\<not> pulled < sz" | (give) "pulled < sz" "0 < lz_avail_out f"
    | (feed) "pulled < sz" "lz_avail_out f = 0" "lz_avail_in f < n" "\<not> flush"
    | (compress) "pulled < sz" "lz_avail_out f = 0" "\<not> (lz_avail_in f < n \<and> \<not> flush)" "0 < lz_avail_in f"
    | (ends) "pulled < sz" "lz_avail_out f = 0" "\<not> (lz_avail_in f < n \<and> \<not> flush)" "lz_avail_in f = 0"
    by (cases "pulled < sz"; cases "lz_avail_out f"; cases "lz_avail_in f < n"; cases flush; cases "lz_avail_in f") auto
  then show ?case
  proof cases
    case full
    then show ?thesis using less.prems by (subst lzo_zip_pull_loop.simps) (auto simp: zip_pulled_def)
  next
    case give
    obtain new f1 where g: "lzo_give sz f = (new, f1)" by fastforce
    note s = lzo_give_spec [OF wf g]
    have new: "new \<noteq> []" using s(2) give by (cases new) auto
    have inv1: "zip_inv L n f1" using inv s(4-9) by (simp add: zip_inv_def)
    have fut: "zip_future L n f d = new @ zip_future L n f1 d" using s(1,5,6) by (simp add: zip_future_def)
    have work: "lzo_zip_work f1 d + length new = lzo_zip_work f d" using s(3,6) by (simp add: lzo_zip_work_def)
    then have less': "lzo_zip_work f1 d < lzo_zip_work f d" using new by (cases new) auto
    from less.hyps [OF less' inv1 less.prems(2), of "sz - length new" "pulled + length new" "out @ new"]
    obtain err new' f' d' where r: "lzo_zip_pull_loop L (Some lzo_source) flush (sz - length new) (pulled + length new) (out @ new) (f1, d)
        = Some ((err, pulled + length new + length new', (out @ new) @ new'), f', d')"
      "zip_pulled L n flush (sz - length new) (pulled + length new) f1 d err new' f' d'" by blast
    have "lzo_zip_pull_loop L (Some lzo_source) flush sz pulled out (f, d)
        = Some ((err, pulled + length (new @ new'), out @ new @ new'), f', d')"
      using give g r(1) by (subst lzo_zip_pull_loop.simps) (simp add: add.assoc)
    moreover have "zip_pulled L n flush sz pulled f d err (new @ new') f' d'"
      using r(2) fut work new by (auto simp: zip_pulled_def)
    ultimately show ?thesis by blast
  next
    case feed
    show ?thesis
    proof (cases "ib_buffer d = []")
      case True
      have "\<not> within_fault_handler f" "lz_input_offset f = 0" using inv by (simp_all add: zip_inv_def lz_wf_def)
      then have "chop_filter_handle_input_fault (Some lzo_source) (n - lz_avail_in f) (f, d) = Some (CHOP_FILTER_UNHANDLED_FAULT, f, d)"
        using lzo_feed [of f "n - lz_avail_in f" d] feed True len by simp
      then show ?thesis
        using feed len inv True by (subst lzo_zip_pull_loop.simps) (auto simp: zip_pulled_def)
    next
      case False
      note s = zip_feed [OF inv feed(2,3) False]
      from less.hyps [OF s(5,2), of sz pulled out] feed obtain err new f' d' where
        r: "lzo_zip_pull_loop L (Some lzo_source) flush sz pulled out (lz_loaded (take (n - lz_avail_in f) (ib_buffer d)) f, ib_skip (n - lz_avail_in f) d)
          = Some ((err, pulled + length new, out @ new), f', d')"
        "zip_pulled L n flush sz pulled (lz_loaded (take (n - lz_avail_in f) (ib_buffer d)) f) (ib_skip (n - lz_avail_in f) d) err new f' d'"
        by blast
      then have "zip_pulled L n flush sz pulled f d err new f' d'" using s(4,5) by (simp add: zip_pulled_def)
      with r(1) s(1) feed len show ?thesis by (subst lzo_zip_pull_loop.simps) simp
    qed
  next
    case compress
    have "lz_avail_in f \<le> n" using inv by (simp add: zip_inv_def)
    then have "lz_avail_in f = n \<or> ib_buffer d = []" using compress(3) less.prems(2) by auto
    from zip_compress [OF inv compress(2,4) this] obtain f1 where
      s: "lzo_compress_block L f = Some (CHOP_OK, f1)" "zip_inv L n f1"
      "zip_future L n f1 d = zip_future L n f d" "lzo_zip_work f1 d < lzo_zip_work f d" by metis
    from less.hyps [OF s(4,2) less.prems(2), of sz pulled out] obtain err new f' d' where
      r: "lzo_zip_pull_loop L (Some lzo_source) flush sz pulled out (f1, d) = Some ((err, pulled + length new, out @ new), f', d')"
      "zip_pulled L n flush sz pulled f1 d err new f' d'" by blast
    then have "zip_pulled L n flush sz pulled f d err new f' d'" using s(3,4) by (simp add: zip_pulled_def)
    with r(1) s(1) compress len show ?thesis by (subst lzo_zip_pull_loop.simps) auto
  next
    case ends
    then have "flush" using inv by (auto simp: zip_inv_def)
    then show ?thesis
      using ends less.prems by (subst lzo_zip_pull_loop.simps) (auto simp: zip_pulled_def)
  qed
qed

lemma zip_through_loop:
  assumes "zip_inv L n f" "flush \<Longrightarrow> ib_buffer d = []"
  shows "\<exists>f' d'. filter_through_loop (chop_lzo_zip_pull L (Some lzo_source)) flush acc (f, d)
      = Some (CHOP_OK, acc @ zip_future L n f d, f', d') \<and> zip_inv L n f' \<and> lz_avail_in f' = 0 \<and> lz_avail_out f' = 0"
  using assms
proof (induction "2 * lzo_zip_work f d + (if flush then 0 else 1)" arbitrary: f d flush acc rule: less_induct)
  case less
  obtain err new f' d' where r: "lzo_zip_pull_loop L (Some lzo_source) flush 1024 0 [] (f, d) = Some ((err, length new, new), f', d')"
    and p: "zip_pulled L n flush 1024 0 f d err new f' d'"
    using zip_pull_loop_ok [of L n f flush d 1024 0 "[]"] less.prems by auto
  have pull: "chop_lzo_zip_pull L (Some lzo_source) flush 1024 (f, d) = Some ((err, length new, new), f', d')"
    using r by (simp add: chop_lzo_zip_pull_def)
  have inv: "zip_inv L n f'" "flush \<Longrightarrow> ib_buffer d' = []" and fut: "zip_future L n f d = new @ zip_future L n f' d'"
    and work: "lzo_zip_work f' d' + length new \<le> lzo_zip_work f d" using p by (simp_all add: zip_pulled_def)
  show ?case
  proof (cases "err = CHOP_FILTER_EMPTY \<and> flush")
    case True
    then have e: "lz_avail_out f' = 0" "ib_buffer d' = []" "lz_avail_in f' = 0" "new = []" using p by (auto simp: zip_pulled_def)
    then have "zip_future L n f' d' = []" by (simp add: zip_future_def lz_ready_def)
    with True e inv fut pull show ?thesis by (subst filter_through_loop.simps) simp
  next
    case False
    let ?flush = "flush \<or> err = CHOP_FILTER_EMPTY"
    have "2 * lzo_zip_work f' d' + (if ?flush then 0 else 1) < 2 * lzo_zip_work f d + (if flush then 0 else 1)"
    proof (cases "err = CHOP_OK")
      case True
      then have "new \<noteq> []" using p by (simp add: zip_pulled_def)
      then have "0 < length new" by simp
      with work have "lzo_zip_work f' d' < lzo_zip_work f d" by linarith
      then show ?thesis using True by (cases flush) simp_all
    next
      case no: False
      then have "err = CHOP_FILTER_EMPTY" "\<not> flush" using p False by (auto simp: zip_pulled_def)
      then show ?thesis using work by simp
    qed
    moreover have "?flush \<Longrightarrow> ib_buffer d' = []" using p by (auto simp: zip_pulled_def)
    ultimately obtain f'' d'' where
      "filter_through_loop (chop_lzo_zip_pull L (Some lzo_source)) ?flush (acc @ new) (f', d')
        = Some (CHOP_OK, (acc @ new) @ zip_future L n f' d', f'', d'')" "zip_inv L n f''" "lz_avail_in f'' = 0" "lz_avail_out f'' = 0"
      using less.hyps [of f' d' ?flush "acc @ new"] inv(1) by blast
    moreover have "err = CHOP_OK \<or> err = CHOP_FILTER_EMPTY" using p by (auto simp: zip_pulled_def)
    ultimately show ?thesis using False pull fut by (subst filter_through_loop.simps) auto
  qed
qed

text \<open>A compressing filter between two uses.\<close>

definition lzo_zip_idle :: "lzo_library \<Rightarrow> nat \<Rightarrow> lzo_filter \<Rightarrow> bool" where
  "lzo_zip_idle L n f \<longleftrightarrow> zip_inv L n f \<and> lz_avail_in f = 0 \<and> lz_avail_out f = 0"

definition lzo_zip_methods :: "lzo_library \<Rightarrow> lzo_filter filter_methods" where
  "lzo_zip_methods L = \<lparr>flt_push = lzo_push None, flt_pull = chop_lzo_zip_pull L\<rparr>"

interpretation lzo_zip: block_filter "lzo_zip_methods L" "lzo_zip_idle L n" "\<lambda>bs. True" "\<lambda>bs. lzo_frames L (chunks n bs)" for L n
proof (unfold_locales, goal_cases)
  case (1 f bs)
  let ?d = "\<lparr>ib_buffer = bs, ib_read = 0\<rparr>"
  have "zip_future L n f ?d = lzo_frames L (chunks n bs)" using 1 by (simp add: lzo_zip_idle_def zip_future_def lz_ready_def)
  with zip_through_loop [of L n f False ?d "[]"] 1 show ?case
    by (auto simp: filter_through_def chop_filter_through_def lzo_zip_methods_def lzo_zip_idle_def)
qed

lemma zip_filter_idle:
  assumes "lzo_laws L" "input_size < 2 ^ 31"
  shows "lzo_zip_idle L (if input_size \<noteq> 0 then input_size else 8192) (chop_lzo_zip_filter_init memory input_size)"
  using assms by (simp add: lzo_zip_idle_def zip_inv_def lz_wf_def chop_lzo_zip_filter_init_def lzo_filter_new_def Let_def)

section \<open>Decompressing\<close>

lemma double_until_ok:
  assumes "0 < s" "s < n" "n \<le> 2 ^ 62"
  shows "\<exists>r. double_until n s = Some r \<and> n \<le> r"
  using assms
proof (induction "n - s" arbitrary: s rule: less_induct)
  case less
  have m: "(2 * s) mod 2 ^ 64 = 2 * s" using less.prems by simp
  show ?case
  proof (cases "2 * s < n")
    case True
    with less.hyps [of "2 * s"] less.prems m show ?thesis by (subst double_until.simps) (simp add: Let_def)
  next
    case False
    with m show ?thesis by (subst double_until.simps) (simp add: Let_def)
  qed
qed

definition block_ok :: "lzo_library \<Rightarrow> bytes \<Rightarrow> bool" where
  "block_ok L y \<longleftrightarrow> y \<noteq> [] \<and> length y < 2 ^ 32 \<and> length (packed L y) < 2 ^ 32"

definition un_inv :: "lzo_library \<Rightarrow> lzo_filter \<Rightarrow> bool" where
  "un_inv L f \<longleftrightarrow> lzo_laws L \<and> lz_wf f \<and> lz_input_offset f = 0 \<and> 8 \<le> length (lz_input_buffer f)
     \<and> 0 < length (lz_output_buffer f) \<and> (lz_output_offset f = 0 \<or> lz_avail_out f \<noteq> 0)"

text \<open>The frames of \<open>ys\<close> are still to come; the header of the first may have been read.\<close>

definition un_state :: "lzo_library \<Rightarrow> bytes list \<Rightarrow> lzo_filter \<Rightarrow> input_buffer \<Rightarrow> bool" where
  "un_state L ys f d \<longleftrightarrow> un_inv L f \<and> list_all (block_ok L) ys
     \<and> take (lz_avail_in f) (lz_input_buffer f) @ ib_buffer d = lzo_frames L ys
     \<and> (lz_avail_in f = 0 \<or> lz_avail_in f = 8 \<and> ys \<noteq> [])"

definition un_work :: "bytes list \<Rightarrow> lzo_filter \<Rightarrow> nat" where
  "un_work ys f = lz_avail_out f + sum_list (map (\<lambda>y. length y + 2) ys) + (if lz_avail_in f = 0 then 1 else 0)"

lemma un_header:
  assumes "un_state L ys f d" "lz_avail_out f = 0" "lz_avail_in f = 0" "ys \<noteq> []"
  shows "chop_filter_handle_input_fault (Some lzo_source) 8 (f, d) = Some (CHOP_OK, lz_loaded (take 8 (ib_buffer d)) f, ib_skip 8 d)"
    "un_state L ys (lz_loaded (take 8 (ib_buffer d)) f) (ib_skip 8 d)"
    "lz_avail_in (lz_loaded (take 8 (ib_buffer d)) f) = 8" "lz_avail_out (lz_loaded (take 8 (ib_buffer d)) f) = 0"
proof -
  have i: "un_inv L f" "ib_buffer d = lzo_frames L ys" "lz_input_offset f = 0" "\<not> within_fault_handler f"
    "8 \<le> length (lz_input_buffer f)"
    using assms(1,3) by (simp_all add: un_state_def un_inv_def lz_wf_def)
  have len: "8 \<le> length (ib_buffer d)" using i(2) assms(4) by (cases ys) (simp_all add: lzo_frame_def)
  then have ne: "ib_buffer d \<noteq> []" by auto
  show "chop_filter_handle_input_fault (Some lzo_source) 8 (f, d) = Some (CHOP_OK, lz_loaded (take 8 (ib_buffer d)) f, ib_skip 8 d)"
    using lzo_feed [OF i(4) assms(2), of 8 d] i ne assms(3) by simp
  show "un_state L ys (lz_loaded (take 8 (ib_buffer d)) f) (ib_skip 8 d)"
    using assms i len by (simp add: un_state_def un_inv_def lz_wf_def lz_loaded_def)
  show "lz_avail_in (lz_loaded (take 8 (ib_buffer d)) f) = 8" "lz_avail_out (lz_loaded (take 8 (ib_buffer d)) f) = 0"
    using assms(2,3) len by (simp_all add: lz_loaded_def Let_def)
qed

lemma ensure_input_ok:
  assumes "0 < length (lz_input_buffer f)" "n + lz_input_offset f \<le> 2 ^ 62"
  obtains junk where "ensure_input memory n f = Some (f\<lparr>lz_input_buffer := lz_input_buffer f @ junk\<rparr>)"
    "n + lz_input_offset f \<le> length (lz_input_buffer f @ junk)"
proof (cases "length (lz_input_buffer f) < n + lz_input_offset f")
  case True
  with double_until_ok [OF assms(1) True assms(2)] obtain r where
    "double_until (n + lz_input_offset f) (length (lz_input_buffer f)) = Some r" "n + lz_input_offset f \<le> r" by blast
  with True that [of "map memory [length (lz_input_buffer f)..<r]"] show ?thesis by (simp add: ensure_input_def)
next
  case False
  with that [of "[]"] show ?thesis by (simp add: ensure_input_def)
qed

lemma ensure_output_ok:
  assumes "lz_wf f" "0 < length (lz_output_buffer f)" "lz_output_offset f = 0" "n \<le> 2 ^ 62"
  obtains junk where "ensure_output memory n f = Some (f\<lparr>lz_output_buffer := lz_output_buffer f @ junk,
      lz_output_buffer_size := length (lz_output_buffer f @ junk)\<rparr>)" "n \<le> length (lz_output_buffer f @ junk)"
proof (cases "lz_output_buffer_size f < n + lz_output_offset f")
  case True
  then have lt: "length (lz_output_buffer f) < n" using assms by (simp add: lz_wf_def)
  with double_until_ok [OF assms(2) lt assms(4)] obtain r where
    r: "double_until n (length (lz_output_buffer f)) = Some r" "n \<le> r" by blast
  then have "ensure_output memory n f = Some (f\<lparr>lz_output_buffer := lz_output_buffer f @ map memory [length (lz_output_buffer f)..<r],
      lz_output_buffer_size := length (lz_output_buffer f @ map memory [length (lz_output_buffer f)..<r])\<rparr>)"
    using True assms(1,3) lt by (simp add: ensure_output_def lz_wf_def)
  then show ?thesis by (rule that) (use r(2) lt in simp)
next
  case False
  moreover have "f\<lparr>lz_output_buffer := lz_output_buffer f, lz_output_buffer_size := length (lz_output_buffer f)\<rparr> = f"
    using assms(1) by (cases f) (simp add: lz_wf_def)
  ultimately show ?thesis using that [of "[]"] assms(1,3) by (simp add: ensure_output_def lz_wf_def)
qed

text \<open>A block of which the header has been read is read to its end and decompressed.\<close>

lemma un_block:
  assumes "un_state L (y # ys) f d" "lz_avail_out f = 0" "lz_avail_in f = 8"
  obtains f1 d1 where "lzo_next_block L memory (Some lzo_source) (f, d) = Some (CHOP_OK, f1, d1)"
    "un_state L ys f1 d1" "lz_ready f1 = y" "lz_avail_out f1 = length y" "lz_avail_in f1 = 0"
proof -
  let ?p = "packed L y"
  let ?n = "length ?p"
  have i: "lzo_laws L" "lz_wf f" "lz_input_offset f = 0" "8 \<le> length (lz_input_buffer f)" "0 < length (lz_output_buffer f)"
    "lz_output_offset f = 0" "block_ok L y" "list_all (block_ok L) ys" "\<not> within_fault_handler f"
    and frames: "take 8 (lz_input_buffer f) @ ib_buffer d = lzo_frame L y @ lzo_frames L ys"
    using assms by (auto simp: un_state_def un_inv_def lz_wf_def)
  have small: "?n < 2 ^ 32" "length y < 2 ^ 32" using i(7) by (simp_all add: block_ok_def)
  have hd: "take 8 (lz_input_buffer f) = be32 (of_nat ?n) @ be32 (of_nat (length y))" and ib: "ib_buffer d = ?p @ lzo_frames L ys"
    using append_eq_append_conv [of "take 8 (lz_input_buffer f)" "be32 (of_nat ?n) @ be32 (of_nat (length y))" "ib_buffer d"
        "?p @ lzo_frames L ys"] frames i(4) by (simp_all add: lzo_frame_def)
  have "take 4 (lz_input_buffer f) = take 4 (take 8 (lz_input_buffer f))"
    "take 4 (drop 4 (lz_input_buffer f)) = drop 4 (take 8 (lz_input_buffer f))" by (simp_all add: take_drop)
  then have h: "take 4 (lz_input_buffer f) = be32 (of_nat ?n)" "take 4 (drop 4 (lz_input_buffer f)) = be32 (of_nat (length y))"
    unfolding hd by simp_all
  have w: "unat (be32_value (be32 (of_nat k))) = k" if "k < 2 ^ 32" for k
    using be32_value_be32 [of "of_nat k" "[]"] that by (simp add: unsigned_of_nat take_bit_nat_eq_self)
  define f1 where "f1 = f\<lparr>lz_input_offset := 8, lz_avail_in := 0\<rparr>"
  have "0 < length (lz_input_buffer f1)" "?n + lz_input_offset f1 \<le> 2 ^ 62" using i(4) small(1) by (auto simp: f1_def)
  from ensure_input_ok [OF this, of memory] obtain junk where
    j: "ensure_input memory ?n f1 = Some (f1\<lparr>lz_input_buffer := lz_input_buffer f @ junk\<rparr>)"
    "?n + 8 \<le> length (lz_input_buffer f @ junk)" by (auto simp: f1_def)
  define f2 where "f2 = f1\<lparr>lz_input_buffer := lz_input_buffer f @ junk\<rparr>"
  have "lz_wf f2" "0 < length (lz_output_buffer f2)" "lz_output_offset f2 = 0"
    using i assms(2) by (simp_all add: f2_def f1_def lz_wf_def)
  from ensure_output_ok [OF this, of "length y" memory] small(2) obtain junk' where
    k: "ensure_output memory (length y) f2 = Some (f2\<lparr>lz_output_buffer := lz_output_buffer f @ junk',
      lz_output_buffer_size := length (lz_output_buffer f @ junk')\<rparr>)" "length y \<le> length (lz_output_buffer f @ junk')"
    by (auto simp: f2_def f1_def)
  define f3 where "f3 = f2\<lparr>lz_output_buffer := lz_output_buffer f @ junk',
      lz_output_buffer_size := length (lz_output_buffer f @ junk')\<rparr>"
  define f4 where "f4 = lz_loaded ?p f3"
  define d4 where "d4 = (if ?p = [] then d else ib_skip ?n d)"
  have f3: "lz_avail_in f3 = 0" "lz_avail_out f3 = 0" "lz_input_offset f3 = 8" "\<not> within_fault_handler f3"
    "lz_input_buffer f3 = lz_input_buffer f @ junk"
    using i(9) assms(2) by (simp_all add: f3_def f2_def f1_def)
  have fault: "(if lz_avail_in f3 < ?n then chop_filter_handle_input_fault (Some lzo_source) (?n - lz_avail_in f3) (f3, d)
      else Some (CHOP_OK, f3, d)) = Some (CHOP_OK, f4, d4)"
  proof (cases "?p = []")
    case True
    then show ?thesis using f3 i(4) by (cases f3) (simp add: f4_def d4_def lz_loaded_def)
  next
    case False
    have "take ?n (ib_buffer d) = ?p" "ib_buffer d \<noteq> []" using ib False by simp_all
    then show ?thesis using lzo_feed [OF f3(4,2), of ?n d] f3 j(2) False by (simp add: f4_def d4_def)
  qed
  have f4: "lz_avail_in f4 = ?n" "take ?n (drop (lz_input_offset f4) (lz_input_buffer f4)) = ?p"
    "lz_output_buffer_size f4 = length (lz_output_buffer f @ junk')"
    using f3 i(4) by (simp_all add: f4_def lz_loaded_def) (simp add: f3_def)
  note dec = lzo_lawsD(3) [OF i(1) k(2)]
  define f5 where "f5 = f4\<lparr>lz_output_buffer := y @ drop (length y) (lz_output_buffer f4), lz_avail_out := length y,
      lz_avail_in := 0, lz_output_offset := 0, lz_input_offset := 0\<rparr>"
  have block: "lzo_decompress_block L ?n (length y) f4 = Some (CHOP_OK, f5)"
    unfolding lzo_decompress_block_def f4(2,3) dec by (simp add: f5_def)
  have next_block: "lzo_next_block L memory (Some lzo_source) (f, d) = Some (CHOP_OK, f5, d4)"
  proof -
    have "f\<lparr>lz_input_offset := lz_input_offset f + 8, lz_avail_in := lz_avail_in f - 8\<rparr> = f1"
      using assms(3) i(3) by (simp add: f1_def)
    moreover have "ensure_input memory ?n f1 = Some f2" "ensure_output memory (length y) f2 = Some f3"
      using j(1) k(1) by (simp_all add: f2_def f3_def)
    ultimately show ?thesis
      unfolding lzo_next_block_def prod.case Let_def h w [OF small(1)] w [OF small(2)]
      by (simp only: Option.bind.bind_lunit fault prod.case) (simp add: f4(1) block)
  qed
  have out: "lz_output_buffer f4 = lz_output_buffer f @ junk'" "\<not> within_fault_handler f4"
    "length (lz_input_buffer f4) = length (lz_input_buffer f3)"
    using f3 j(2) by (simp_all add: f4_def lz_loaded_def Let_def) (simp add: f3_def)
  have "length (lz_output_buffer f5) = length (lz_output_buffer f @ junk')" using k(2) by (simp add: f5_def out(1))
  moreover have "within_fault_handler f5 = False" "length (lz_input_buffer f5) = length (lz_input_buffer f @ junk)"
    "lz_output_buffer_size f5 = length (lz_output_buffer f @ junk')" "lz_output_offset f5 = 0" "lz_input_offset f5 = 0"
    "lz_avail_out f5 = length y"
    using out f3(5) f4(3) by (simp_all add: f5_def)
  ultimately have "un_inv L f5" unfolding un_inv_def lz_wf_def using i(1,4,5) k(2) by simp
  moreover have "ib_buffer d4 = lzo_frames L ys" using ib by (simp add: d4_def)
  ultimately have "un_state L ys f5 d4" using i(8) by (simp add: un_state_def f5_def)
  moreover have "lz_ready f5 = y" by (simp add: lz_ready_def f5_def)
  ultimately show thesis using that [OF next_block] by (simp add: f5_def)
qed

text \<open>A pull of a large buffer: it gives the next part of what is to come and never wraps.\<close>

definition un_pulled :: "lzo_library \<Rightarrow> bool \<Rightarrow> nat \<Rightarrow> nat \<Rightarrow> bytes list \<Rightarrow> lzo_filter \<Rightarrow> chop_error \<Rightarrow> bytes
     \<Rightarrow> bytes list \<Rightarrow> lzo_filter \<Rightarrow> input_buffer \<Rightarrow> bool" where
  "un_pulled L flush sz pulled ys f err new ys' f' d' \<longleftrightarrow>
    un_state L ys' f' d' \<and> lz_ready f @ concat ys = new @ lz_ready f' @ concat ys' \<and> un_work ys' f' + length new \<le> un_work ys f
    \<and> (flush \<longrightarrow> ys' = ys)
    \<and> (err = CHOP_OK \<and> (pulled < sz \<longrightarrow> pulled \<noteq> 0 \<or> new \<noteq> [])
       \<or> err = CHOP_FILTER_UNHANDLED_FAULT \<and> \<not> flush \<and> lz_avail_out f' = 0 \<and> ys' = []
       \<or> err = CHOP_FILTER_EMPTY \<and> flush \<and> pulled = 0 \<and> new = [] \<and> lz_avail_out f' = 0)"

lemma un_pull_loop_ok:
  assumes "un_state L ys f d" "1024 \<le> sz + 9 * pulled + (if 0 < lz_avail_out f then 8 else 0)" "sz \<le> 1024"
  shows "\<exists>err new ys' f' d'. lzo_unzip_pull_loop L memory (Some lzo_source) flush sz pulled out (f, d)
      = Some ((err, pulled + length new, out @ new), f', d') \<and> un_pulled L flush sz pulled ys f err new ys' f' d'"
  using assms
proof (induction "un_work ys f" arbitrary: ys f d sz pulled out rule: less_induct)
  case less
  note st = less.prems(1)
  have inv: "un_inv L f" and wf: "lz_wf f" using st by (simp_all add: un_state_def un_inv_def)
  consider (full) "\<not> pulled < sz" | (give) "pulled < sz" "0 < lz_avail_out f"
    | (ends) "pulled < sz" "lz_avail_out f = 0" flush
    | (empty) "pulled < sz" "lz_avail_out f = 0" "\<not> flush" "ys = []"
    | (header) "pulled < sz" "lz_avail_out f = 0" "\<not> flush" "ys \<noteq> []" "lz_avail_in f = 0"
    | (block) "pulled < sz" "lz_avail_out f = 0" "\<not> flush" "ys \<noteq> []" "lz_avail_in f = 8"
    using st by (cases "pulled < sz"; cases "lz_avail_out f"; cases flush) (auto simp: un_state_def)
  then show ?case
  proof cases
    case full
    then show ?thesis using st by (subst lzo_unzip_pull_loop.simps) (auto simp: un_pulled_def)
  next
    case give
    obtain new f1 where g: "lzo_give sz f = (new, f1)" by fastforce
    note s = lzo_give_spec [OF wf g]
    have new: "0 < length new" "length new \<le> sz" using s(2) give by auto
    have st1: "un_state L ys f1 d" using st s(4-9) by (simp add: un_state_def un_inv_def)
    have work: "un_work ys f1 + length new = un_work ys f" using s(3,6) by (simp add: un_work_def)
    have less': "un_work ys f1 < un_work ys f" using work new(1) by linarith
    obtain r where r: "sz = r + length new" using new(2) by (metis add.commute le_Suc_ex)
    have prem: "1024 \<le> sz + 9 * pulled + 8" using less.prems(2) unfolding if_P [OF give(2)] .
    have "1024 \<le> sz - length new + 9 * (pulled + length new)"
      using prem new(1) unfolding r add_diff_cancel_right' add_mult_distrib2 by linarith
    then have "1024 \<le> sz - length new + 9 * (pulled + length new) + (if 0 < lz_avail_out f1 then 8 else 0)" "sz - length new \<le> 1024"
      using less.prems(3) by simp_all
    from less.hyps [OF less' st1 this, of "out @ new"] obtain err new' ys' f' d' where
      r: "lzo_unzip_pull_loop L memory (Some lzo_source) flush (sz - length new) (pulled + length new) (out @ new) (f1, d)
        = Some ((err, pulled + length new + length new', (out @ new) @ new'), f', d')"
      "un_pulled L flush (sz - length new) (pulled + length new) ys f1 err new' ys' f' d'" by blast
    have "lzo_unzip_pull_loop L memory (Some lzo_source) flush sz pulled out (f, d)
        = Some ((err, pulled + length (new @ new'), out @ new @ new'), f', d')"
      using give g r(1) by (subst lzo_unzip_pull_loop.simps) (simp add: add.assoc)
    moreover have "un_pulled L flush sz pulled ys f err (new @ new') ys' f' d'"
      using r(2) s(1) work new by (auto simp: un_pulled_def)
    ultimately show ?thesis by blast
  next
    case ends
    then show ?thesis using st by (subst lzo_unzip_pull_loop.simps) (auto simp: un_pulled_def)
  next
    case empty
    then have "ib_buffer d = []" "lz_avail_in f = 0" "\<not> within_fault_handler f" "lz_input_offset f = 0"
      using st by (auto simp: un_state_def un_inv_def lz_wf_def)
    then have "chop_filter_handle_input_fault (Some lzo_source) 8 (f, d) = Some (CHOP_FILTER_UNHANDLED_FAULT, f, d)"
      using lzo_feed [of f 8 d] empty by simp
    then show ?thesis
      using st empty \<open>lz_avail_in f = 0\<close> by (subst lzo_unzip_pull_loop.simps) (auto simp: un_pulled_def)
  next
    case header
    let ?f = "lz_loaded (take 8 (ib_buffer d)) f" and ?d = "ib_skip 8 d"
    note s = un_header [OF st header(2,5,4)]
    have less': "un_work ys ?f < un_work ys f" using s(3,4) header by (simp add: un_work_def)
    have "1024 \<le> sz + 9 * pulled + (if 0 < lz_avail_out ?f then 8 else 0)" using less.prems(2) header s(4) by simp
    from less.hyps [OF less' s(2) this less.prems(3), of out] obtain err new ys' f' d' where
      r: "lzo_unzip_pull_loop L memory (Some lzo_source) flush sz pulled out (?f, ?d) = Some ((err, pulled + length new, out @ new), f', d')"
      "un_pulled L flush sz pulled ys ?f err new ys' f' d'" by blast
    have "lz_ready ?f = lz_ready f" using header s(4) by (simp add: lz_ready_def)
    then have "un_pulled L flush sz pulled ys f err new ys' f' d'" using r(2) less' by (auto simp: un_pulled_def)
    with r(1) s(1) header show ?thesis by (subst lzo_unzip_pull_loop.simps) auto
  next
    case block
    obtain y ys1 where ys: "ys = y # ys1" using block(4) by (cases ys) auto
    from un_block [OF st [unfolded ys] block(2,5), of memory] obtain f1 d1 where
      s: "lzo_next_block L memory (Some lzo_source) (f, d) = Some (CHOP_OK, f1, d1)"
      "un_state L ys1 f1 d1" "lz_ready f1 = y" "lz_avail_out f1 = length y" "lz_avail_in f1 = 0" by metis
    have sz: "8 \<le> sz" using less.prems(2) block by simp
    have wrap: "(sz + 2 ^ 64 - 8) mod 2 ^ 64 = sz - 8"
    proof -
      have "sz + 2 ^ 64 - 8 = (sz - 8) + 2 ^ 64" using sz by simp
      moreover have "sz - 8 < 2 ^ 64" using less.prems(3) by simp
      ultimately show ?thesis by (metis mod_add_self2 mod_less)
    qed
    have "0 < length y" using st by (simp add: ys un_state_def block_ok_def)
    then have "1024 \<le> sz - 8 + 9 * pulled + (if 0 < lz_avail_out f1 then 8 else 0)" "sz - 8 \<le> 1024"
      using less.prems(2,3) block s(4) sz by simp_all
    moreover have less': "un_work ys1 f1 < un_work ys f" using s(4,5) block by (simp add: un_work_def ys)
    ultimately obtain err new ys' f' d' where
      r: "lzo_unzip_pull_loop L memory (Some lzo_source) flush (sz - 8) pulled out (f1, d1) = Some ((err, pulled + length new, out @ new), f', d')"
      "un_pulled L flush (sz - 8) pulled ys1 f1 err new ys' f' d'"
      using less.hyps [OF less' s(2), of "sz - 8" pulled out] by blast
    have step: "lzo_unzip_pull_loop L memory (Some lzo_source) flush sz pulled out (f, d)
        = lzo_unzip_pull_loop L memory (Some lzo_source) flush (sz - 8) pulled out (f1, d1)"
      using s(1) block wrap by (subst lzo_unzip_pull_loop.simps) simp
    have "pulled < sz - 8 \<or> pulled \<noteq> 0 \<or> new \<noteq> []" using less.prems(2) block by auto
    then have "un_pulled L flush sz pulled ys f err new ys' f' d'"
      using r(2) less' s(3) block by (auto simp: un_pulled_def ys lz_ready_def)
    with step r(1) show ?thesis by auto
  qed
qed

lemma un_through_loop:
  assumes "un_state L ys f d" "flush \<Longrightarrow> ys = []"
  shows "\<exists>f' d'. filter_through_loop (chop_lzo_unzip_pull L memory (Some lzo_source)) flush acc (f, d)
      = Some (CHOP_OK, acc @ lz_ready f @ concat ys, f', d') \<and> un_state L [] f' d' \<and> lz_avail_out f' = 0"
  using assms
proof (induction "2 * un_work ys f + (if flush then 0 else 1)" arbitrary: ys f d flush acc rule: less_induct)
  case less
  have "1024 \<le> (1024 :: nat) + 9 * 0 + (if 0 < lz_avail_out f then 8 else 0)" by simp
  from un_pull_loop_ok [OF less.prems(1) this, of memory flush "[]"] obtain err new ys' f' d' where
    r: "lzo_unzip_pull_loop L memory (Some lzo_source) flush 1024 0 [] (f, d) = Some ((err, length new, new), f', d')"
    and p: "un_pulled L flush 1024 0 ys f err new ys' f' d'" by auto
  let ?err = "if err = CHOP_FILTER_UNHANDLED_FAULT then if new = [] then CHOP_FILTER_EMPTY else CHOP_OK else err"
  have pull: "chop_lzo_unzip_pull L memory (Some lzo_source) flush 1024 (f, d) = Some ((?err, length new, new), f', d')"
    using r by (simp add: chop_lzo_unzip_pull_def)
  have st: "un_state L ys' f' d'" "flush \<Longrightarrow> ys' = []" and fut: "lz_ready f @ concat ys = new @ lz_ready f' @ concat ys'"
    and work: "un_work ys' f' + length new \<le> un_work ys f" using p less.prems(2) by (auto simp: un_pulled_def)
  show ?case
  proof (cases "?err = CHOP_FILTER_EMPTY \<and> flush")
    case True
    then have e: "lz_avail_out f' = 0" "new = []" "ys' = []" using p less.prems(2) by (auto simp: un_pulled_def split: if_splits)
    then have "lz_ready f @ concat ys = []" using fut by (simp add: lz_ready_def)
    with True e st pull show ?thesis by (subst filter_through_loop.simps) simp
  next
    case False
    let ?flush = "flush \<or> ?err = CHOP_FILTER_EMPTY"
    have "2 * un_work ys' f' + (if ?flush then 0 else 1) < 2 * un_work ys f + (if flush then 0 else 1)"
    proof (cases "new = []")
      case True
      then have "?err = CHOP_FILTER_EMPTY" "\<not> flush" using p False by (auto simp: un_pulled_def split: if_splits)
      then show ?thesis using work by simp
    next
      case no: False
      then have "0 < length new" by simp
      with work have "un_work ys' f' < un_work ys f" by linarith
      then show ?thesis by (cases flush) auto
    qed
    moreover have "?flush \<Longrightarrow> ys' = []" using p st(2) by (auto simp: un_pulled_def split: if_splits)
    ultimately obtain f'' d'' where
      "filter_through_loop (chop_lzo_unzip_pull L memory (Some lzo_source)) ?flush (acc @ new) (f', d')
        = Some (CHOP_OK, (acc @ new) @ lz_ready f' @ concat ys', f'', d'')" "un_state L [] f'' d''" "lz_avail_out f'' = 0"
      using less.hyps [of ys' f' ?flush d' "acc @ new"] st(1) by blast
    moreover have "?err = CHOP_OK \<or> ?err = CHOP_FILTER_EMPTY" using p by (auto simp: un_pulled_def)
    ultimately show ?thesis using False pull fut by (subst filter_through_loop.simps) (auto split: if_splits)
  qed
qed

text \<open>What frames stand for, computed from the bytes: a reference for the decompressing filter.\<close>

function unframe :: "lzo_library \<Rightarrow> bytes \<Rightarrow> bytes" where
  "unframe L bs =
    (if length bs < 8 then []
     else let in32 = unat (be32_value (take 4 bs)); out32 = unat (be32_value (take 4 (drop 4 bs)))
          in snd (lzo1x_decompress_safe L (take in32 (drop 8 bs)) out32) @ unframe L (drop (8 + in32) bs))"
  by auto
termination by (relation "measure (\<lambda>(L, bs). length bs)") auto

declare unframe.simps [simp del]

definition framed :: "lzo_library \<Rightarrow> bytes \<Rightarrow> bool" where
  "framed L bs \<longleftrightarrow> (\<exists>ys. list_all (block_ok L) ys \<and> bs = lzo_frames L ys)"

lemma unframe_frames:
  assumes "lzo_laws L" "list_all (block_ok L) ys"
  shows "unframe L (lzo_frames L ys) = concat ys"
  using assms(2)
proof (induction ys)
  case (Cons y ys)
  let ?p = "packed L y"
  have small: "length ?p < 2 ^ 32" "length y < 2 ^ 32" using Cons.prems by (simp_all add: block_ok_def)
  have w: "unat (be32_value (be32 (of_nat k))) = k" if "k < 2 ^ 32" for k
    using be32_value_be32 [of "of_nat k" "[]"] that by (simp add: unsigned_of_nat take_bit_nat_eq_self)
  show ?case
    using Cons lzo_lawsD(3) [OF assms(1), of y "length y"] w [OF small(1)] w [OF small(2)]
    by (subst unframe.simps) (simp add: lzo_frame_def Let_def)
qed (simp add: unframe.simps)

definition lzo_unzip_idle :: "lzo_library \<Rightarrow> lzo_filter \<Rightarrow> bool" where
  "lzo_unzip_idle L f \<longleftrightarrow> un_inv L f \<and> lz_avail_in f = 0 \<and> lz_avail_out f = 0"

definition lzo_unzip_methods :: "lzo_library \<Rightarrow> (nat \<Rightarrow> byte) \<Rightarrow> lzo_filter filter_methods" where
  "lzo_unzip_methods L memory = \<lparr>flt_push = lzo_push None, flt_pull = chop_lzo_unzip_pull L memory\<rparr>"

interpretation lzo_unzip: block_filter "lzo_unzip_methods L memory" "lzo_unzip_idle L" "framed L" "unframe L" for L memory
proof (unfold_locales, goal_cases)
  case (1 f bs)
  then obtain ys where ys: "list_all (block_ok L) ys" "bs = lzo_frames L ys" by (auto simp: framed_def)
  let ?d = "\<lparr>ib_buffer = bs, ib_read = 0\<rparr>"
  have laws: "lzo_laws L" using 1 by (simp add: lzo_unzip_idle_def un_inv_def)
  have "un_state L ys f ?d" "lz_ready f = []" using 1(1) ys by (simp_all add: lzo_unzip_idle_def un_state_def lz_ready_def)
  with un_through_loop [of L ys f ?d False memory "[]"] unframe_frames [OF laws ys(1)] ys(2) show ?case
    by (auto simp: filter_through_def chop_filter_through_def lzo_unzip_methods_def lzo_unzip_idle_def un_state_def)
qed

lemma unzip_filter_idle:
  assumes "lzo_laws L" "input_size = 0 \<or> 8 \<le> input_size"
  shows "lzo_unzip_idle L (chop_lzo_unzip_filter_init memory input_size)"
  using assms by (auto simp: lzo_unzip_idle_def un_inv_def lz_wf_def chop_lzo_unzip_filter_init_def lzo_filter_new_def Let_def)

section \<open>Main properties\<close>

lemma length_chunks: "x \<in> set (chunks n bs) \<Longrightarrow> length x \<le> n"
  by (induction n bs rule: chunks.induct) (subst (asm) (2) chunks.simps, auto split: if_splits)

lemma framed_chunks:
  assumes "lzo_laws L" "0 < n" "n < 2 ^ 31"
  shows "framed L (lzo_frames L (chunks n bs))" "unframe L (lzo_frames L (chunks n bs)) = bs"
proof -
  have "block_ok L x" if "x \<in> set (chunks n bs)" for x
  proof -
    have x: "x \<noteq> []" "length x \<le> n" using that chunks_nonempty [OF assms(2)] length_chunks [of x n bs] by auto
    have "x \<noteq> [] \<and> length x < 2 ^ 32" using x assms(3) by simp
    moreover have "length x div 64 \<le> length x" by simp
    then have "length (packed L x) < 2 ^ 32" using lzo_lawsD(2) [OF assms(1), of x] x(2) assms(3) by simp
    ultimately show ?thesis by (simp add: block_ok_def)
  qed
  then have ok: "list_all (block_ok L) (chunks n bs)" by (simp add: list_all_iff)
  then show "framed L (lzo_frames L (chunks n bs))" by (auto simp: framed_def)
  show "unframe L (lzo_frames L (chunks n bs)) = bs"
    using unframe_frames [OF assms(1) ok] concat_chunks [OF assms(2), of bs] by simp
qed


interpretation lzo_db: filtered_replacing "generic_db_store ops" "\<lambda>s. db_laws ops m \<and> db_open s" "\<lambda>s. m (db s)"
    "lzo_zip_methods L" "lzo_zip_idle L n" "\<lambda>bs. True" "\<lambda>bs. lzo_frames L (chunks n bs)"
    "lzo_unzip_methods L memory" "lzo_unzip_idle L" "framed L" "unframe L"
  for ops :: "'d db_ops" and m and L and n and memory
  by unfold_locales

text \<open>A store that compresses its blocks with LZO refines a map, as one that uses zlib or bzip2 does.\<close>

theorem lzo_filtered_store_refines_map:
  assumes "db_laws ops m" "db_open w" "m (db w) = Map.empty"
    and "lzo_laws L" "zip_size < 2 ^ 31" "unzip_size = 0 \<or> 8 \<le> unzip_size"
  shows "\<exists>errs s'. filtered_cmds (lzo_zip_methods L) (generic_db_store ops) cs
      (chop_filtered_store_open (chop_lzo_zip_filter_init memory zip_size) (chop_lzo_unzip_filter_init memory unzip_size) w) = Some (errs, s')
    \<and> length errs = length cs
    \<and> (\<exists>s''. filtered_read_block (lzo_unzip_methods L memory) (generic_db_store ops) s' key buffer =
         Some (case map_cmds (zip cs errs) Map.empty key of
             Some b \<Rightarrow> (CHOP_OK, b, length b)
           | None \<Rightarrow> (CHOP_STORE_BLOCK_UNAVAIL, buffer, 0), s''))"
proof (rule lzo_db.filtered_run_reads [where m = m])
  show "\<forall>b. True \<longrightarrow> framed L (lzo_frames L (chunks (if zip_size \<noteq> 0 then zip_size else 8192) b))
      \<and> unframe L (lzo_frames L (chunks (if zip_size \<noteq> 0 then zip_size else 8192) b)) = b"
    using framed_chunks [OF assms(4)] assms(5) by auto
  show "lzo_zip_idle L (if zip_size \<noteq> 0 then zip_size else 8192) (chop_lzo_zip_filter_init memory zip_size)"
    using zip_filter_idle [OF assms(4,5)] .
  show "lzo_unzip_idle L (chop_lzo_unzip_filter_init memory unzip_size)" using unzip_filter_idle [OF assms(4,6)] .
  have "cmd_valid (\<lambda>bs. True) c" for c by (cases c) simp_all
  then show "list_all (cmd_valid (\<lambda>bs. True)) cs" by (simp add: list_all_iff)
qed (use assms in simp_all)

text \<open>C16: the decompressing filter overruns small buffers.  When fewer than eight bytes are asked for, taking the
  header of a block off the size wraps around, and the whole block is written to the caller's
  buffer, however long it is.\<close>

theorem lzo_unzip_overruns:
  assumes "lzo_laws L" "block_ok L y" "0 < sz" "sz < 8"
  shows "\<exists>f d. chop_lzo_unzip_pull L memory (Some lzo_source) False sz
      (chop_lzo_unzip_filter_init memory 0, \<lparr>ib_buffer = lzo_frame L y, ib_read = 0\<rparr>) = Some ((CHOP_OK, length y, y), f, d)"
proof -
  let ?f0 = "chop_lzo_unzip_filter_init memory 0" and ?d0 = "\<lparr>ib_buffer = lzo_frame L y, ib_read = 0\<rparr>"
  have idle: "lzo_unzip_idle L ?f0" using unzip_filter_idle [OF assms(1), of 0 memory] by simp
  have f0: "lz_avail_in ?f0 = 0" "lz_avail_out ?f0 = 0" using idle by (simp_all add: lzo_unzip_idle_def)
  have st: "un_state L [y] ?f0 ?d0" using idle assms(2) by (simp add: un_state_def lzo_unzip_idle_def)
  let ?f1 = "lz_loaded (take 8 (lzo_frame L y)) ?f0" and ?d1 = "ib_skip 8 ?d0"
  note h = un_header [OF st f0(2,1), simplified]
  from un_block [OF h(2,4,3), of memory] obtain f2 d2 where
    b: "lzo_next_block L memory (Some lzo_source) (?f1, ?d1) = Some (CHOP_OK, f2, d2)" "un_state L [] f2 d2"
    "lz_ready f2 = y" "lz_avail_out f2 = length y" "lz_avail_in f2 = 0" by auto
  let ?big = "(sz + 2 ^ 64 - 8) mod 2 ^ 64"
  have big: "2 ^ 63 < ?big" using assms(3,4) by simp
  have y: "0 < length y" "length y < 2 ^ 32" using assms(2) by (simp_all add: block_ok_def)
  obtain new f3 where g: "lzo_give ?big f2 = (new, f3)" by fastforce
  have wf: "lz_wf f2" "un_inv L f2" using b(2) by (simp_all add: un_state_def un_inv_def)
  note s = lzo_give_spec [OF wf(1) g]
  have min: "min ?big (length y) = length y" using big y(2) by simp
  have f3: "lz_avail_out f3 = 0" using s(2,3) b(4) min by simp
  have new: "new = y" using s(1) f3 b(3) by (simp add: lz_ready_def)
  have ib: "ib_buffer d2 = []" using b(2,5) by (simp add: un_state_def)
  have fault: "chop_filter_handle_input_fault (Some lzo_source) 8 (f3, d2) = Some (CHOP_FILTER_UNHANDLED_FAULT, f3, d2)"
    using lzo_feed [of f3 8 d2] s(4,5,6,7) f3 ib b(5) wf(2) by (simp add: un_inv_def lz_wf_def)
  have last: "lzo_unzip_pull_loop L memory (Some lzo_source) False (?big - length y) (length y) y (f3, d2)
      = Some ((CHOP_FILTER_UNHANDLED_FAULT, length y, y), f3, d2)"
    using fault f3 s(6) b(5) big y(2) by (subst lzo_unzip_pull_loop.simps) simp
  have "lzo_unzip_pull_loop L memory (Some lzo_source) False ?big 0 [] (f2, d2)
      = Some ((CHOP_FILTER_UNHANDLED_FAULT, length y, y), f3, d2)"
    using last g new big y b(4) by (subst lzo_unzip_pull_loop.simps) simp
  moreover have "lzo_unzip_pull_loop L memory (Some lzo_source) False sz 0 [] (?f1, ?d1)
      = lzo_unzip_pull_loop L memory (Some lzo_source) False ?big 0 [] (f2, d2)"
    using b(1) h(3,4) assms(3) by (subst lzo_unzip_pull_loop.simps) simp
  moreover have "lzo_unzip_pull_loop L memory (Some lzo_source) False sz 0 [] (?f0, ?d0)
      = lzo_unzip_pull_loop L memory (Some lzo_source) False sz 0 [] (?f1, ?d1)"
    using h(1) f0 assms(3) by (subst lzo_unzip_pull_loop.simps) simp
  ultimately show ?thesis using y(1) by (simp add: chop_lzo_unzip_pull_def)
qed

text \<open>A library that copies.\<close>

definition sample_lzo :: lzo_library where
  "sample_lzo = \<lparr>lzo1x_1_compress = (\<lambda>x. (0, x)),
     lzo1x_decompress_safe = (\<lambda>x room. if length x \<le> room then (0, x) else (- 5, []))\<rparr>"

lemma sample_lzo_laws: "lzo_laws sample_lzo"
  by (simp add: lzo_laws_def sample_lzo_def LZO_E_OK_def)


theorem lzo_unzip_overruns_witness:
  "\<exists>f d. chop_lzo_unzip_pull sample_lzo (\<lambda>_. 0) (Some lzo_source) False 4
      (chop_lzo_unzip_filter_init (\<lambda>_. 0) 0, \<lparr>ib_buffer = lzo_frame sample_lzo [1, 2, 3, 4, 5, 6], ib_read = 0\<rparr>)
    = Some ((CHOP_OK, 6, [1, 2, 3, 4, 5, 6]), f, d)"
proof -
  have "block_ok sample_lzo [1, 2, 3, 4, 5, 6]" by (simp add: block_ok_def sample_lzo_def)
  moreover have len: "length [1 :: byte, 2, 3, 4, 5, 6] = 6" by simp
  ultimately show ?thesis using lzo_unzip_overruns [OF sample_lzo_laws, of "[1, 2, 3, 4, 5, 6]" 4 "\<lambda>_. 0", unfolded len] by simp
qed

end
