(* ===== verification/Chop_Archiver_Correct.thy ===== *)
theory Chop_Archiver_Correct
  imports Chop_Archiver Chop_Anchor_Roundtrip
begin

text \<open>
  Archiving files with \<^verbatim>\<open>chop-archiver\<close> and restoring them: what a run prints when it archives a file, given
  back to a later run, makes that run print the file, whatever was archived in between.
\<close>

section \<open>Reading a stream to the end\<close>

context byte_stream
begin

lemma retrieve_all:
  assumes "inv s"
  shows "\<exists>s'. retrieve_loop rd out s = Some (CHOP_STREAM_END, out @ rest s, s') \<and> inv s'"
  using assms
proof (induction "length (rest s)" arbitrary: s out rule: less_induct)
  case less
  show ?case
  proof (cases "rest s = []")
    case True
    obtain s' where "chop_stream_read rd s 3577 = Some (CHOP_STREAM_END, [], s')" "inv s'"
      using read_law [OF less.prems, of 3577] True by auto
    then show ?thesis by (simp add: retrieve_loop.simps [of rd out s] True)
  next
    case False
    obtain bs s1 where r: "chop_stream_read rd s 3577 = Some (CHOP_OK, bs, s1)" "inv s1" "rest s = bs @ rest s1" "bs \<noteq> []"
      using read_law [OF less.prems, of 3577] False by auto
    then have "length (rest s1) < length (rest s)" by simp
    from less.hyps [OF this r(2), of "out @ bs"] r show ?thesis
      by (simp add: retrieve_loop.simps [of rd out s])
  qed
qed

lemma do_retrieve_all:
  assumes "inv s"
  obtains s' where "do_retrieve rd s = Some (CHOP_OK, rest s, s')" "inv s'"
  using retrieve_all [OF assms, of "[]"] by (auto simp: do_retrieve_def)

end

context tree_reading
begin

lemma retrieve_tree:
  assumes "fetchable lg i fw" "rtree lg (Suc k) h data" "h' \<in> {h, canon h}"
  obtains t fw' where "do_retrieve (tree_stream_read bf hc store store junk) (chop_tree_fetch_stream h', fw)
      = Some (CHOP_OK, data, t, fw')" "fetchable lg i fw'"
proof -
  note s = ts_inv_open [OF assms]
  from strm.do_retrieve_all [OF s(1)] obtain s' where
    "do_retrieve (tree_stream_read bf hc store store junk) (chop_tree_fetch_stream h', fw)
      = Some (CHOP_OK, data, s')" "ts_inv s'"
    unfolding s(2) .
  then show thesis using that [of "fst s'" "snd s'"] by (simp add: ts_inv_def)
qed

end

section \<open>Choppers of any class cut a dbf\<close>

fun any_inv :: "('s \<Rightarrow> bool) \<Rightarrow> ('s anchor_based_chopper \<Rightarrow> bool) \<Rightarrow> 's any_chopper \<Rightarrow> bool" where
  "any_inv ok ainv (Fixed_Chopper c) \<longleftrightarrow> ok (fc_stream c) \<and> 0 < fc_block_size c"
| "any_inv ok ainv (Whole_Chopper s) \<longleftrightarrow> ok s"
| "any_inv ok ainv (Anchor_Chopper c) \<longleftrightarrow> ainv c"

fun any_blocks :: "('s \<Rightarrow> bytes) \<Rightarrow> ('s anchor_based_chopper \<Rightarrow> bytes list) \<Rightarrow> 's any_chopper \<Rightarrow> bytes list" where
  "any_blocks rest ablocks (Fixed_Chopper c) = fixed_blocks rest c"
| "any_blocks rest ablocks (Whole_Chopper s) = whole_blocks rest s"
| "any_blocks rest ablocks (Anchor_Chopper c) = ablocks c"

sublocale anchor_chopping \<subseteq> any: block_source "any_chopper_read_block rd"
  "any_inv inv (anchor_inv ws magic)" "any_blocks rest (\<lambda>c. anchor_blocks ws magic (anchor_rest c))"
proof (unfold_locales, goal_cases)
  case (1 c buffer)
  show ?case
  proof (cases c)
    case (Fixed_Chopper d)
    with 1 fixed.read_block_law [of d buffer] show ?thesis
      by (force simp: chop_chopper_read_block_def split: list.splits)
  next
    case (Whole_Chopper d)
    with 1 whole.read_block_law [of d buffer] show ?thesis
      by (force simp: chop_chopper_read_block_def split: list.splits)
  next
    case (Anchor_Chopper d)
    with 1 anchor.read_block_law [of d buffer] show ?thesis
      by (force simp: chop_chopper_read_block_def split: list.splits)
  qed
next
  case (2 c)
  then show ?case
    using fixed.blocks_nonempty whole.blocks_nonempty anchor.blocks_nonempty by (cases c) auto
qed

interpretation open_file_chop: anchor_chopping "chop_file_stream_read sys" "\<lambda>s. readable_files sys unread" "file_rest unread" 48 magic
  for sys :: "'o file_system" and unread and magic
  by unfold_locales simp

text \<open>The choppers that \<^verbatim>\<open>chop_chopper_generic_open\<close> makes cut a file that fits.\<close>

definition chopper_fits :: "chop_class \<Rightarrow> nat \<Rightarrow> nat \<Rightarrow> bytes \<Rightarrow> bool" where
  "chopper_fits c preferred block_size data \<longleftrightarrow>
    c \<in> set chopper_classes \<and> data \<noteq> [] \<and> length data \<le> 2 ^ 64 \<and> block_size < 2 ^ 63
    \<and> (c = chop_fixed_size_chopper_class \<longrightarrow> 0 < (if block_size = 0 then preferred else block_size))
    \<and> (length data < 2 ^ 32 \<or> c = chop_fixed_size_chopper_class \<and> (if block_size = 0 then preferred else block_size) < 2 ^ 32)"

lemma length_in_concat: "x \<in> set xs \<Longrightarrow> length x \<le> length (concat xs)"
  by (induction xs) auto

text \<open>What an indexer may rely on: the blocks of \<open>ch\<close> are small, not too many, and make up \<open>data\<close>.\<close>

definition cuts :: "'c read_block \<Rightarrow> 'c \<Rightarrow> bytes \<Rightarrow> bool" where
  "cuts rb ch data \<longleftrightarrow> (\<exists>cinv blocks. block_source rb cinv blocks \<and> cinv ch \<and> blocks ch \<noteq> []
     \<and> (\<forall>x \<in> set (blocks ch). length x < 2 ^ 32) \<and> length (blocks ch) \<le> 2 ^ 64 \<and> concat (blocks ch) = data)"

lemma cutsI:
  assumes "block_source rb cinv blocks" "cinv ch" "blocks ch \<noteq> []" "\<forall>x \<in> set (blocks ch). length x < 2 ^ 32"
    "length (blocks ch) \<le> 2 ^ 64" "concat (blocks ch) = data"
  shows "cuts rb ch data"
  using assms unfolding cuts_def by blast

context anchor_chopping
begin

lemma any_source: "block_source (any_chopper_read_block rd) (any_inv inv (anchor_inv ws magic))
    (any_blocks rest (\<lambda>c. anchor_blocks ws magic (anchor_rest c)))"
  by unfold_locales

lemma fixed_cuts:
  assumes "inv s" "rest s = data" "data \<noteq> []" "0 < n" "length data < 2 ^ 32 \<or> n < 2 ^ 32" "length data \<le> 2 ^ 64"
  shows "cuts (any_chopper_read_block rd) (Fixed_Chopper (chop_fixed_size_chopper_init s n False)) data"
proof (rule cutsI [OF any_source])
  let ?ch = "Fixed_Chopper (chop_fixed_size_chopper_init s n False)"
  have b: "any_blocks rest ab ?ch = chunks n data" for ab
    using assms(2) by (simp add: fixed_blocks_def chop_fixed_size_chopper_init_def)
  show "any_inv inv (anchor_inv ws magic) ?ch" using assms(1,4) by (simp add: chop_fixed_size_chopper_init_def)
  have "\<forall>x \<in> set (chunks n data). length x \<le> length data"
    using length_in_concat [of _ "chunks n data"] concat_chunks [OF assms(4)] by metis
  then show "\<forall>x \<in> set (any_blocks rest (\<lambda>c. anchor_blocks ws magic (anchor_rest c)) ?ch). length x < 2 ^ 32"
    unfolding b using assms(5) fixed_blocks_of_data(3) [OF assms(4,3)] by (meson le_less_trans)
  show "any_blocks rest (\<lambda>c. anchor_blocks ws magic (anchor_rest c)) ?ch \<noteq> []"
    "length (any_blocks rest (\<lambda>c. anchor_blocks ws magic (anchor_rest c)) ?ch) \<le> 2 ^ 64"
    "concat (any_blocks rest (\<lambda>c. anchor_blocks ws magic (anchor_rest c)) ?ch) = data"
    unfolding b using fixed_blocks_of_data(2,4) [OF assms(4,3)] concat_chunks [OF assms(4)] assms(6) by auto
qed

lemma whole_cuts:
  assumes "inv s" "rest s = data" "data \<noteq> []" "length data < 2 ^ 32"
  shows "cuts (any_chopper_read_block rd) (Whole_Chopper s) data"
  by (rule cutsI [OF any_source]) (use assms in \<open>simp_all add: whole_blocks_def\<close>)

lemma anchor_cuts:
  assumes "inv s" "rest s = data" "data \<noteq> []" "length data < 2 ^ 32" "magic = ucast msk"
  shows "cuts (any_chopper_read_block rd) (Anchor_Chopper (chop_anchor_based_chopper_init junk s ws msk)) data"
proof (rule cutsI [OF any_source])
  let ?c = "chop_anchor_based_chopper_init junk s ws msk"
  have r: "anchor_rest ?c = data"
    using assms(2) by (simp add: anchor_rest_def window_bytes_def sliding_window_init_def chop_anchor_based_chopper_init_def)
  have b: "any_blocks rest (\<lambda>c. anchor_blocks ws magic (anchor_rest c)) (Anchor_Chopper ?c) = anchor_blocks ws magic data"
    by (simp add: r)
  show "any_inv inv (anchor_inv ws magic) (Anchor_Chopper ?c)"
    using chopper_ok_init [of ws msk junk s] assms(1,5)
    by (simp add: anchor_inv_def window_ok_def sliding_window_init_def chop_anchor_based_chopper_init_def)
  show "concat (any_blocks rest (\<lambda>c. anchor_blocks ws magic (anchor_rest c)) (Anchor_Chopper ?c)) = data"
    unfolding b by (rule concat_anchor_blocks)
  then show "any_blocks rest (\<lambda>c. anchor_blocks ws magic (anchor_rest c)) (Anchor_Chopper ?c) \<noteq> []"
    using assms(3) by force
  show "\<forall>x \<in> set (any_blocks rest (\<lambda>c. anchor_blocks ws magic (anchor_rest c)) (Anchor_Chopper ?c)). length x < 2 ^ 32"
    "length (any_blocks rest (\<lambda>c. anchor_blocks ws magic (anchor_rest c)) (Anchor_Chopper ?c)) \<le> 2 ^ 64"
    unfolding b using anchor_block_bounds [of ws magic data] assms(4) by auto
qed

end

lemma file_chopper_cuts:
  assumes "readable_files sys unread" "file_rest unread stream = data"
    and "chopper_fits c (fs_preferred_block_size stream) block_size data"
  obtains ch where "chop_chopper_generic_open junk c stream block_size = Some ch"
    "cuts (any_chopper_read_block (chop_file_stream_read sys)) ch data"
proof -
  note fits = assms(3) [unfolded chopper_fits_def]
  have distinct: "distinct chopper_classes"
    by (simp add: chopper_classes_def chop_fixed_size_chopper_class_def chop_whole_stream_chopper_class_def
        chop_anchor_based_chopper_class_def ascii_def)
  have "c \<in> set chopper_classes" using fits by blast
  then consider "c = chop_fixed_size_chopper_class" | "c = chop_whole_stream_chopper_class"
    | "c = chop_anchor_based_chopper_class" by (auto simp: chopper_classes_def)
  then show thesis
  proof cases
    case 1
    with open_file_chop.fixed_cuts [OF assms(1,2), of "if block_size = 0 then fs_preferred_block_size stream else block_size"]
      fits show thesis
      by (intro that) (simp_all add: chop_chopper_generic_open_def chop_fs_generic_open_def split: if_splits)
  next
    case 2
    with open_file_chop.whole_cuts [OF assms(1,2)] fits distinct show thesis
      by (intro that [of "Whole_Chopper stream"]) (auto simp: chop_chopper_generic_open_def chopper_classes_def)
  next
    case 3
    have "\<exists>msk. ab_generic_open junk stream (of_nat block_size) = Some (chop_anchor_based_chopper_init junk stream 48 msk)"
    proof (cases "block_size = 0")
      case True
      then show ?thesis by (auto simp: ab_generic_open_def)
    next
      case False
      have "unat (of_nat block_size :: 64 word) = block_size" using fits by (simp add: unat_of_nat take_bit_nat_eq_self)
      with False fits have "0 < (of_nat block_size :: 64 word) \<and> (of_nat block_size :: 64 word) < 2 ^ 63"
        by (auto simp: word_less_nat_alt)
      then show ?thesis using generic_open_mask [of "of_nat block_size" junk stream] by auto
    qed
    then obtain msk where "ab_generic_open junk stream (of_nat block_size) = Some (chop_anchor_based_chopper_init junk stream 48 msk)" ..
    with 3 open_file_chop.anchor_cuts [OF assms(1,2) _ _ refl, where msk = msk and junk = junk] fits distinct show thesis
      by (intro that [of "Anchor_Chopper (chop_anchor_based_chopper_init junk stream 48 msk)"])
        (auto simp: chop_chopper_generic_open_def chopper_classes_def)
  qed
qed

section \<open>Smart stores whose backend never fails\<close>

locale reliable_proxied = proxied_store backend inv contents ps + reliable_store backend inv contents
  for backend :: "'w block_store" and inv and contents and ps

sublocale reliable_proxied \<subseteq> rsmart: reliable_store "smart_block_store ps backend" inv contents
proof (unfold_locales, goal_cases)
  case (1 w key block)
  obtain e ex w1 where e: "chop_store_block_exists backend w key = ((e, ex), w1)"
    by (metis prod.exhaust)
  note ex = backend.block_exists_result [OF 1 e]
  with e write_succeeds [of w1 key block] show ?case by (simp add: smart_write_block_def)
qed

interpretation reliable_smart_db: reliable_proxied "generic_db_store ops"
  "\<lambda>s. (db_laws ops m \<and> db_writable ops) \<and> db_open s" "\<lambda>s. m (db s)" ps
  for ops :: "'d db_ops" and m and ps
  by unfold_locales

interpretation reliable_smart_hash: reliable_hash "smart_block_store ps (generic_db_store ops)"
  "\<lambda>s. (db_laws ops mp \<and> db_writable ops) \<and> db_open s" "\<lambda>s. mp (db s)" G m
  for ps and ops :: "'d db_ops" and mp and G and m
  by unfold_locales

section \<open>Indexing on top of earlier archives\<close>

context stream_indexing
begin

lemma index_more:
  assumes "cinv ch" "blocks ch \<noteq> []" "\<forall>x \<in> set (blocks ch). length x \<le> max_block"
    and "length (blocks ch) \<le> 2 ^ 64" "J (i, w)"
  obtains h ch' i' lg' w' k where
    "chop_tree_index_blocks (c + 1) rb bi hc store store ch (i, w) = Some (CHOP_OK, Some h, ch', i', w')"
    "chop_tree_index_blocks (c + 1) rb (logged bi) hc store store ch ((i, lg), w)
       = Some (CHOP_OK, Some h, ch', (i', lg'), w')"
    "wfh h" "tree_of wfh encode (set lg') (Suc k) h (concat (blocks ch))" "\<exists>xs. lg' = xs @ lg"
    "J (i', w')" "I lg (i, w) \<Longrightarrow> compat lg' \<Longrightarrow> I lg' (i', w')"
proof -
  have "J (erase_log ((i, lg), w))" using assms(5) by simp
  from index_blocks_ok [OF assms(1-4) this] obtain h ch' s' k where r:
    "chop_tree_index_blocks (c + 1) rb (logged bi) hc store store ch ((i, lg), w) = Some (CHOP_OK, Some h, ch', s')"
    "index_run bi store ((i, lg), w) s'" "J (erase_log s')" "wfh h" "trees s' (Suc k) h (concat (blocks ch))" .
  obtain i' lg' w' where s': "s' = ((i', lg'), w')" by (cases s') auto
  show thesis
  proof (rule that)
    show "chop_tree_index_blocks (c + 1) rb (logged bi) hc store store ch ((i, lg), w)
       = Some (CHOP_OK, Some h, ch', (i', lg'), w')" using r(1) s' by simp
    show "chop_tree_index_blocks (c + 1) rb bi hc store store ch (i, w) = Some (CHOP_OK, Some h, ch', i', w')"
      using index_blocks_erase [OF r(1)] s' by simp
    show "\<exists>xs. lg' = xs @ lg" using index_run_log [OF r(2)] s' by (simp add: log_of_def)
    show "I lg (i, w) \<Longrightarrow> compat lg' \<Longrightarrow> I lg' (i', w')"
      using index_run_inv [OF r(2)] s' by (simp add: log_of_def)
  qed (use r s' in \<open>simp_all add: log_of_def\<close>)
qed

end

text \<open>With the hash indexer: the handles of a log of archives, as trees over the log.\<close>

abbreviation archived_tree :: "hash_index_handle block_log \<Rightarrow> hash_index_handle \<Rightarrow> bytes \<Rightarrow> bool" where
  "archived_tree lg h data \<equiv>
    \<exists>k. tree_of (\<lambda>h. wf_hih h \<and> length (hih_encode h) \<le> 72) hih_encode (set lg) (Suc k) h data"

context reliable_hash
begin

lemma hash_index_more:
  assumes "cuts rb ch data" "3 \<le> ipb" "10 + (ipb - 1) * 72 < 2 ^ 32" "hash_ok inv G m (i, w)"
  obtains h ch' i' lg' w' where
    "chop_tree_index_blocks ipb rb (hash_indexer G) hash_index_handle_class store store ch (i, w)
       = Some (CHOP_OK, Some h, ch', i', w')"
    "chop_tree_index_blocks ipb rb (logged (hash_indexer G)) hash_index_handle_class store store ch ((i, lg), w)
       = Some (CHOP_OK, Some h, ch', (i', lg'), w')"
    "wf_hih h" "length (hih_encode h) \<le> 72" "archived_tree lg' h data" "\<exists>xs. lg' = xs @ lg"
    "hash_ok inv G m (i', w')"
    "hash_inv inv contents G m lg (i, w) \<and> hash_compat lg' \<longrightarrow> hash_inv inv contents G m lg' (i', w')"
proof -
  from assms(1) obtain cinv blocks where c: "block_source rb cinv blocks" "cinv ch" "blocks ch \<noteq> []"
    "\<forall>x \<in> set (blocks ch). length x < 2 ^ 32" "length (blocks ch) \<le> 2 ^ 64" "concat (blocks ch) = data"
    unfolding cuts_def by blast
  have idx: "stream_indexing hash_index_handle_class wf_hih hih_encode (\<lambda>h. h) (hash_indexer G) (hash_fetcher G) store
      (hash_ok inv G m) (hash_inv inv contents G m) (\<lambda>f. hbf_hash_method f = m) hash_compat (2 ^ 32 - 1) 72 (ipb - 1) rb cinv blocks"
    using assms(2,3) c(1) ridx.reliable_indexing_axioms
    by (intro stream_indexing.intro tree_writing.intro tree_writing_axioms.intro stream_indexing_axioms.intro) simp_all
  have "\<forall>x \<in> set (blocks ch). length x \<le> 2 ^ 32 - 1" using c(4) by fastforce
  note idx = stream_indexing.index_more [OF idx c(2,3) this c(5) assms(4), where lg = lg, unfolded c(6)]
  have "ipb - 1 + 1 = ipb" using assms(2) by simp
  note idx = idx [unfolded this]
  show thesis by (rule idx, rule that) blast+
qed

end

section \<open>Texts of archives\<close>

lemma length_sprintf_zx: "n < 16 ^ Suc k \<Longrightarrow> length (sprintf_zx n) \<le> Suc k"
proof (induction k arbitrary: n)
  case 0
  then show ?case by (subst sprintf_zx.simps) simp
next
  case (Suc k)
  then have "n div 16 < 16 ^ Suc k" by (simp add: less_mult_imp_div_less mult.commute)
  from Suc.IH [OF this] show ?case by (subst sprintf_zx.simps) simp
qed

lemma handle_form_fits:
  assumes "wf_hih h" "length (hih_encode h) \<le> 72"
  shows "length (handle_form h) < 1023"
proof -
  have k: "length (hih_content h) \<le> 64" using assms by (simp add: hih_encode_def wf_hih_def)
  have "length (chop_buffer_to_base32_string (hih_content h)) \<le> 200"
    using k by (auto simp: base32_encode_spec rfc4648_base32_def Let_def length_rfc4648_chars)
  moreover have "length (sprintf_zx (hih_block_size h)) \<le> 8"
    using assms(1) length_sprintf_zx [of "hih_block_size h" 7] by (simp add: wf_hih_def)
  ultimately show ?thesis by (simp add: handle_form_def)
qed

lemma hash_name_read:
  "tc_deserialize hash_indexer_text (chop_hash_method_name m @ [0]) (length (chop_hash_method_name m))
    = Some (Inr (\<lparr>hbi_hash_method = m\<rparr>, length (chop_hash_method_name m)))"
  by (cases m) (simp_all add: hash_indexer_text_def hbi_deserialize_def chop_hash_method_lookup_def
      chop_hash_method_name_def hash_methods_def strcasecmp_eq_def ascii_def toupper_def isalnum_def)

text \<open>The class table has the classes of an archive.\<close>

definition archive_table :: "(bytes \<Rightarrow> chop_class option) \<Rightarrow> bool" where
  "archive_table chop_class_lookup \<longleftrightarrow>
    (\<forall>c \<in> {chop_tree_indexer_class, chop_hash_block_fetcher_class, chop_hash_index_handle_class}.
       chop_class_lookup (class_name c) = Some c)"

lemma archive_tableD: "archive_table lk \<Longrightarrow>
    c \<in> {chop_tree_indexer_class, chop_hash_block_fetcher_class, chop_hash_index_handle_class} \<Longrightarrow> lk (class_name c) = Some c"
  by (auto simp: archive_table_def)

lemma archive_text_printed:
  assumes "ipb < 2 ^ 64" "wf_hih h" "length (hih_encode h) \<le> 72"
  shows "chop_ascii_serialize_index_tuple tree_text hash_fetcher_text hash_handle_text ipb (CHOP_OK, f) h []
        = Some (CHOP_OK, archive_text ipb f h @ [0])"
    "takeWhile (\<lambda>c. c \<noteq> 0) (archive_text ipb f h @ [0]) = archive_text ipb f h"
proof -
  have "archive_table sample_lookup"
    by (auto simp: archive_table_def sample_lookup_def builtin_classes ascii_def)
  from archive_text_back(1) [OF assms(1,2) handle_form_fits [OF assms(2,3)] archive_tableD [OF this]]
  show "chop_ascii_serialize_index_tuple tree_text hash_fetcher_text hash_handle_text ipb (CHOP_OK, f) h []
        = Some (CHOP_OK, archive_text ipb f h @ [0])" by blast
  show "takeWhile (\<lambda>c. c \<noteq> 0) (archive_text ipb f h @ [0]) = archive_text ipb f h"
    using archive_text_no_nul [of ipb f h] by (subst takeWhile_append2) auto
qed

lemma archive_text_read:
  assumes "ipb < 2 ^ 64" "wf_hih h" "length (hih_encode h) \<le> 72" "archive_table lk"
  shows "chop_ascii_deserialize_index_tuple_s1 lk (archive_text ipb f h @ [0])
        = Inr ((chop_tree_indexer_class, chop_hash_block_fetcher_class, chop_hash_index_handle_class), length archive_classes)"
    "chop_ascii_deserialize_index_tuple_s2 tree_text hash_fetcher_text hash_handle_text
          (drop (length archive_classes) (archive_text ipb f h @ [0])) (length (archive_text ipb f h) + 1 - length archive_classes)
        = Some (Inr ((ipb, f, h), length (archive_text ipb f h) - length archive_classes))"
  using archive_text_back(2,3) [OF assms(1,2) handle_form_fits [OF assms(2,3)] archive_tableD [OF assms(4)]] by blast+

context reliable_hash
begin

lemma hash_archive_ok:
  assumes "cuts rb ch data" "3 \<le> ipb" "10 + (ipb - 1) * 72 < 2 ^ 32" "hash_ok inv G m (\<lparr>hbi_hash_method = m\<rparr>, w)"
  obtains h ch' i' lg' w' where
    "hash_archive G rb store store (chop_hash_method_name m) ipb ch w
       = Some (Return CHOP_OK, archive_text ipb \<lparr>hbf_hash_method = m\<rparr> h @ [10], ch', w')"
    "chop_tree_index_blocks ipb rb (logged (hash_indexer G)) hash_index_handle_class store store ch ((\<lparr>hbi_hash_method = m\<rparr>, lg), w)
       = Some (CHOP_OK, Some h, ch', (i', lg'), w')"
    "wf_hih h" "length (hih_encode h) \<le> 72" "archived_tree lg' h data" "\<exists>xs. lg' = xs @ lg"
    "hash_ok inv G m (i', w')"
    "hash_inv inv contents G m lg (\<lparr>hbi_hash_method = m\<rparr>, w) \<and> hash_compat lg' \<longrightarrow> hash_inv inv contents G m lg' (i', w')"
proof -
  from hash_index_more [OF assms, where lg = lg] obtain h ch' i' lg' w' where r:
    "chop_tree_index_blocks ipb rb (hash_indexer G) hash_index_handle_class store store ch (\<lparr>hbi_hash_method = m\<rparr>, w)
       = Some (CHOP_OK, Some h, ch', i', w')"
    "chop_tree_index_blocks ipb rb (logged (hash_indexer G)) hash_index_handle_class store store ch ((\<lparr>hbi_hash_method = m\<rparr>, lg), w)
       = Some (CHOP_OK, Some h, ch', (i', lg'), w')"
    "wf_hih h" "length (hih_encode h) \<le> 72" "archived_tree lg' h data" "\<exists>xs. lg' = xs @ lg" "hash_ok inv G m (i', w')"
    "hash_inv inv contents G m lg (\<lparr>hbi_hash_method = m\<rparr>, w) \<and> hash_compat lg' \<longrightarrow> hash_inv inv contents G m lg' (i', w')" .
  have "ipb < 2 ^ 64" using assms(3) by simp
  note str = archive_text_printed [OF this r(3,4), where f = "\<lparr>hbf_hash_method = m\<rparr>"]
  have f: "hash_indexer_init_fetcher i' = \<lparr>hbf_hash_method = m\<rparr>"
    using r(7) by (simp add: hash_indexer_init_fetcher_def hash_ok_def)
  have "hash_archive G rb store store (chop_hash_method_name m) ipb ch w
       = Some (Return CHOP_OK, archive_text ipb \<lparr>hbf_hash_method = m\<rparr> h @ [10], ch', w')"
    unfolding hash_archive_def do_archive_with_def hash_name_read
    by (simp add: r(1) f str)
  then show thesis using that r(2-8) by blast
qed

end

context hash_indexing
begin

lemma hash_restore_ok:
  assumes "hash_inv inv contents G m lg (i, w)" "archived_tree lg h data" "wf_hih h" "length (hih_encode h) \<le> 72"
    "ipb < 2 ^ 64" "archive_table lk"
  obtains w' where "hash_restore G junk store store
      (drop (length archive_classes) (archive_text ipb \<lparr>hbf_hash_method = m\<rparr> h @ [0]))
      (length (archive_text ipb \<lparr>hbf_hash_method = m\<rparr> h) + 1 - length archive_classes) w
     = Some (Return CHOP_OK, data, w')" "hash_inv inv contents G m lg (i, w')"
proof -
  note txt2 = archive_text_read(2) [OF assms(5,3,4,6)]
  have rd: "tree_reading hash_index_handle_class wf_hih hih_encode (\<lambda>h. h) (hash_indexer G) (hash_fetcher G) store
      (hash_ok inv G m) (hash_inv inv contents G m) (\<lambda>f. hbf_hash_method f = m) hash_compat (2 ^ 32 - 1) 72"
    by (rule tree_reading.intro) (rule idx.block_indexing_axioms)
  obtain k where k: "tree_of (\<lambda>h. wf_hih h \<and> length (hih_encode h) \<le> 72) hih_encode (set lg) (Suc k) h data"
    using assms(2) by blast
  have "idx.fetchable lg i (\<lparr>hbf_hash_method = m\<rparr>, w)" using assms(1) by (simp add: idx.fetchable_def)
  from tree_reading.retrieve_tree [OF rd this k, of h junk] obtain t fw' where
    "do_retrieve (tree_stream_read (hash_fetcher G) hash_index_handle_class store store junk)
       (chop_tree_fetch_stream h, \<lparr>hbf_hash_method = m\<rparr>, w) = Some (CHOP_OK, data, t, fw')" "idx.fetchable lg i fw'"
    by blast
  then show thesis
    using that [of "snd fw'"] unfolding hash_restore_def restore_with_def txt2
    by (cases fw') (simp add: idx.fetchable_def)
qed

end

section \<open>Runs of the program\<close>

definition gdbm_class :: chop_class where
  "gdbm_class = Chop_Class (ascii ''gdbm_block_store'') (Some chop_block_store_class)"

text \<open>The program at work on databases: the class table has the classes it needs, with the methods of
  the code; opening a database finds what the last run left there, closed or not; closing it keeps it; files
  can be read.\<close>

definition archiver_setup ::
  "('o, 'd db_store) archiver_env \<Rightarrow> gcry_md \<Rightarrow> decoded_block \<Rightarrow> 'd db_ops \<Rightarrow> ('d \<Rightarrow> bytes \<rightharpoonup> bytes) \<Rightarrow> ('o \<Rightarrow> int \<Rightarrow> bytes) \<Rightarrow> bool" where
  "archiver_setup env G junk ops mp unread \<longleftrightarrow>
    archive_table (class_lookup env)
    \<and> (\<forall>c \<in> set (chop_hash_block_indexer_class # gdbm_class # chopper_classes). class_lookup env (class_name c) = Some c)
    \<and> archive_methods env chop_hash_block_indexer_class = hash_archive G
    \<and> restore_methods env (chop_tree_indexer_class, chop_hash_block_fetcher_class, chop_hash_index_handle_class) = hash_restore G junk
    \<and> file_store env gdbm_class = generic_db_store ops \<and> destroy_file_store env gdbm_class = db_store_destroy ops
    \<and> (\<forall>dbf w. \<exists>d. open_file_store env gdbm_class dbf w = (CHOP_OK, \<lparr>db = d, db_open = True\<rparr>) \<and> mp d = mp (db w))
    \<and> db_laws ops mp \<and> db_writable ops \<and> (\<forall>d. mp (DB_CLOSE ops d) = mp d) \<and> md_laws G
    \<and> readable_files (env_system env) unread"

text \<open>The options of \<^verbatim>\<open>--archive\<close> with a hash method, a number of indexes per block, a chopper and a block size, and
  those of \<^verbatim>\<open>--restore\<close>.\<close>

definition archive_options :: "chop_hash_method \<Rightarrow> nat \<Rightarrow> chop_class \<Rightarrow> nat \<Rightarrow> bool \<Rightarrow> bytes \<Rightarrow> archiver_options" where
  "archive_options m ipb c block_size smart path =
    default_options\<lparr>archive_queried := True, option_argument := Some path, typical_block_size := block_size,
      smart_storage := smart, chopper_class_name := class_name c, indexer_ascii := sprintf_zx ipb,
      block_indexer_ascii := chop_hash_method_name m\<rparr>"

definition restore_options :: "bytes \<Rightarrow> archiver_options" where
  "restore_options str = default_options\<lparr>restore_queried := True, option_argument := Some str\<rparr>"

text \<open>They are those of the command lines.\<close>

lemma command_lines:
  "parse_options lk [(CHR ''f'', Some dbf), (CHR ''C'', Some (class_name c)), (CHR ''K'', Some (sprintf_zx ipb)),
      (CHR ''I'', Some (chop_hash_method_name m)), (CHR ''a'', Some path)] default_options
    = Return ((archive_options m ipb c 0 True path)\<lparr>db_file_name := Some dbf\<rparr>)"
  "parse_options lk [(CHR ''f'', Some dbf), (CHR ''r'', Some str)] default_options
    = Return ((restore_options str)\<lparr>db_file_name := Some dbf\<rparr>)"
  by (simp_all add: parse_opt_def archive_options_def restore_options_def default_options_def Let_def)

text \<open>A file with contents \<open>data\<close> and preferred block size \<open>n\<close>.\<close>

definition file_at :: "'o file_system \<Rightarrow> ('o \<Rightarrow> int \<Rightarrow> bytes) \<Rightarrow> 'o \<Rightarrow> bytes \<Rightarrow> nat \<Rightarrow> bytes \<Rightarrow> bool" where
  "file_at sys unread s path n data \<longleftrightarrow>
    (\<exists>st fd s'. sys_stat sys s path = Inr st \<and> st_blksize st = n \<and> sys_open sys s path = (Inr fd, s') \<and> unread s' fd = data)"

text \<open>The store an archiving run writes to.\<close>

definition archive_store :: "bool \<Rightarrow> 'd db_ops \<Rightarrow> 'd db_store block_store" where
  "archive_store smart ops =
    (if smart then smart_block_store CHOP_PROXY_EVENTUALLY_DESTROY (generic_db_store ops) else generic_db_store ops)"

lemma archive_store_reliable:
  "reliable_hash (archive_store smart ops) (\<lambda>s. (db_laws ops mp \<and> db_writable ops) \<and> db_open s) (\<lambda>s. mp (db s))"
  unfolding archive_store_def
  by (cases smart) (simp_all only: if_True if_False reliable_smart_hash.reliable_hash_axioms reliable_db_hash.reliable_hash_axioms)

text \<open>The blocks an archiving run writes, logged before those of \<open>lg\<close>.\<close>

definition archive_log ::
  "('o, 'd db_store) archiver_env \<Rightarrow> gcry_md \<Rightarrow> 'd db_ops \<Rightarrow> chop_hash_method \<Rightarrow> archiver_options \<Rightarrow> bytes \<Rightarrow> 'o
     \<Rightarrow> hash_index_handle block_log \<Rightarrow> 'd db_store \<Rightarrow> hash_index_handle block_log option" where
  "archive_log env G ops m opts dbf s lg w =
    (let st = archive_store (smart_storage opts) ops in
     case (open_source env opts s, read_indexer env opts, find_chopper_class env opts) of
       ((Return stream, s1), Return indexer, Return c) \<Rightarrow>
         Option.bind (chop_chopper_generic_open (chopper_junk env) c stream (typical_block_size opts)) (\<lambda>ch.
           map_option (\<lambda>(err, h, ch', (i', lg'), w'). lg')
             (chop_tree_index_blocks indexer (any_chopper_read_block (chop_file_stream_read (env_system env)))
               (logged (hash_indexer G)) hash_index_handle_class st st ch
               ((\<lparr>hbi_hash_method = m\<rparr>, lg), snd (open_file_store env gdbm_class dbf w))))
     | _ \<Rightarrow> None)"

lemma setup_lookup:
  assumes "archiver_setup env G junk ops mp unread"
  shows "class_lookup env (ascii ''tree_indexer'') = Some chop_tree_indexer_class"
    "class_lookup env (ascii ''hash_block_indexer'') = Some chop_hash_block_indexer_class"
    "class_lookup env (ascii ''gdbm_block_store'') = Some gdbm_class"
    "c \<in> set chopper_classes \<Longrightarrow> class_lookup env (class_name c) = Some c"
  using assms by (auto simp: archiver_setup_def archive_table_def chop_tree_indexer_class_def
      chop_hash_block_indexer_class_def gdbm_class_def)

lemma program_classes:
  "gdbm_class \<in> set file_based_store_classes" "chop_class_inherits chop_hash_block_indexer_class chop_block_indexer_class"
  by (simp_all add: gdbm_class_def file_based_store_classes_def chop_hash_block_indexer_class_def
      chop_class_inherits.simps)

text \<open>The parts of an archiving run before the indexing.\<close>

lemma archive_preparation:
  assumes "archiver_setup env G junk ops mp unread" "file_at (env_system env) unread s path n data" "ipb < 2 ^ 64"
    and "chopper_fits c n block_size data"
  obtains stream ch s1 where "open_source env (archive_options m ipb c block_size smart path) s = (Return stream, s1)"
    "read_indexer env (archive_options m ipb c block_size smart path) = Return ipb"
    "find_chopper_class env (archive_options m ipb c block_size smart path) = Return c"
    "chop_chopper_generic_open (chopper_junk env) c stream block_size = Some ch"
    "cuts (any_chopper_read_block (chop_file_stream_read (env_system env))) ch data"
proof -
  let ?opts = "archive_options m ipb c block_size smart path"
  note o = archive_options_def default_options_def
  from assms(2) obtain st fd s' where f: "sys_stat (env_system env) s path = Inr st" "st_blksize st = n"
    "sys_open (env_system env) s path = (Inr fd, s')" "unread s' fd = data"
    unfolding file_at_def by blast
  let ?stream = "file_stream_open fd True st path s'"
  have src: "open_source env ?opts s = (Return ?stream, s')"
    using f by (simp add: open_source_def o chop_file_stream_open_def)
  have "strtoul16 (sprintf_zx ipb @ [0]) = (ipb, length (sprintf_zx ipb))"
    using assms(3) strtoul16_sprintf_zx_before [of ipb 0 "[]"] by (simp add: isxdigit_def)
  then have ind: "read_indexer env ?opts = Return ipb"
    using setup_lookup(1) [OF assms(1)] tree_hash_classes(4) by (simp add: read_indexer_def o iht_deserialize_def)
  have c: "c \<in> set chopper_classes" using assms(4) by (simp add: chopper_fits_def)
  have chp: "find_chopper_class env ?opts = Return c"
    using setup_lookup(4) [OF assms(1) c] c by (simp add: find_chopper_class_def o)
  have "readable_files (env_system env) unread" using assms(1) by (simp add: archiver_setup_def)
  from file_chopper_cuts [OF this, of ?stream data c block_size "chopper_junk env"] f assms(4)
  obtain ch where "chop_chopper_generic_open (chopper_junk env) c ?stream block_size = Some ch"
    "cuts (any_chopper_read_block (chop_file_stream_read (env_system env))) ch data"
    by (auto simp: file_rest_def file_stream_open_def)
  with src ind chp show thesis by (rule that)
qed

text \<open>What a database owes to the archives in it.\<close>

definition log_ok ::
  "gcry_md \<Rightarrow> chop_hash_method \<Rightarrow> ('d \<Rightarrow> bytes \<rightharpoonup> bytes) \<Rightarrow> hash_index_handle block_log \<Rightarrow> 'd db_store \<Rightarrow> bool" where
  "log_ok G m mp lg w \<longleftrightarrow> (\<forall>(h, b) \<in> set lg. h = hash_handle G m b) \<and> key_inv hih_key (\<lambda>h b. b) lg (mp (db w))"

lemma log_ok_cong: "mp (db w) = mp (db w') \<Longrightarrow> log_ok G m mp lg w = log_ok G m mp lg w'"
  by (simp add: log_ok_def)

lemma hash_inv_log_ok: "hash_inv ok (\<lambda>s. mp (db s)) G m lg iw \<longleftrightarrow> hash_ok ok G m iw \<and> log_ok G m mp lg (snd iw)"
  by (simp add: hash_inv_def log_ok_def)

text \<open>Closing and destroying the store at the end of a run keeps the blocks.  Only without a smart store is
  the database closed.\<close>

lemma finish_store:
  "chop_store_close (generic_db_store ops) w = (CHOP_OK, snd (db_close ops w))"
  "chop_store_close (smart_block_store CHOP_PROXY_EVENTUALLY_DESTROY b) w = (CHOP_OK, w)"
  "sbs_dtor CHOP_PROXY_EVENTUALLY_DESTROY b destroy = destroy"
  "db (db_store_destroy ops w) = db w"
  by (simp_all add: chop_store_close_def generic_db_store_def smart_block_store_def db_close_def smart_close_def
      sbs_dtor_def db_store_destroy_def store_dtor_def gdbm_dtor_def fun_eq_iff)

lemma mp_after_close: "\<forall>d. mp (DB_CLOSE ops d) = mp d \<Longrightarrow> mp (db (snd (db_close ops w))) = mp (db w)"
  by (simp add: db_close_def)

lemma main_run:
  assumes "archiver_setup env G junk ops mp unread" "file_based_store_class_name opts = ascii ''gdbm_block_store''"
    and "open_file_store env gdbm_class dbf w = (CHOP_OK, w1)" "smart = (smart_storage opts \<and> archive_queried opts)"
    and "process_command env opts (archive_store smart ops) (archive_store smart ops) s w1 = Some (Return CHOP_OK, out, s', w')"
  shows "archiver_main env opts dbf s w
    = Some (0, out, s', db_store_destroy ops (if smart then w' else snd (db_close ops w')))"
proof -
  have st: "file_store env gdbm_class = generic_db_store ops" "destroy_file_store env gdbm_class = db_store_destroy ops"
    using assms(1) by (simp_all add: archiver_setup_def)
  have "open_archive_store env opts dbf w = (Return gdbm_class, w1)"
    unfolding open_archive_store_def assms(2) setup_lookup(3) [OF assms(1)] option.case assms(3) prod.case
    using program_classes(1) by simp
  moreover have "smart_archive_store env opts gdbm_class = (archive_store smart ops, db_store_destroy ops)"
    unfolding smart_archive_store_def assms(4) [symmetric] st by (simp add: archive_store_def finish_store)
  ultimately show ?thesis
    using assms(5) by (cases smart) (simp_all add: archiver_main_def finish_store archive_store_def)
qed

lemma archive_run:
  assumes "archiver_setup env G junk ops mp unread" "chop_hash_size m \<noteq> 0" "3 \<le> ipb" "10 + (ipb - 1) * 72 < 2 ^ 32"
    and "file_at (env_system env) unread s path n data" "chopper_fits c n block_size data"
  obtains h s' w' lg' where
    "archiver_main env (archive_options m ipb c block_size smart path) dbf s w
       = Some (0, archive_text ipb \<lparr>hbf_hash_method = m\<rparr> h @ [10], s', w')"
    "archive_log env G ops m (archive_options m ipb c block_size smart path) dbf s lg w = Some lg'"
    "wf_hih h" "length (hih_encode h) \<le> 72" "archived_tree lg' h data" "\<exists>xs. lg' = xs @ lg"
    "log_ok G m mp lg w \<and> hash_compat lg' \<longrightarrow> log_ok G m mp lg' w'"
proof -
  let ?opts = "archive_options m ipb c block_size smart path" and ?i = "\<lparr>hbi_hash_method = m\<rparr>"
  let ?rb = "any_chopper_read_block (chop_file_stream_read (env_system env))" and ?st = "archive_store smart ops"
  let ?ok = "\<lambda>s. (db_laws ops mp \<and> db_writable ops) \<and> db_open s"
  note set_up = assms(1) [unfolded archiver_setup_def]
  have "ipb < 2 ^ 64" using assms(4) by simp
  from archive_preparation [OF assms(1,5) this assms(6), of m smart] obtain stream ch s1 where p:
    "open_source env ?opts s = (Return stream, s1)" "read_indexer env ?opts = Return ipb" "find_chopper_class env ?opts = Return c"
    "chop_chopper_generic_open (chopper_junk env) c stream block_size = Some ch" "cuts ?rb ch data" .
  obtain d where d: "open_file_store env gdbm_class dbf w = (CHOP_OK, \<lparr>db = d, db_open = True\<rparr>)" "mp d = mp (db w)"
    using set_up by blast
  let ?w = "\<lparr>db = d, db_open = True\<rparr>"
  have ok: "hash_ok ?ok G m (?i, ?w)" using set_up assms(2) by (simp add: hash_ok_def)
  note run = reliable_hash.hash_archive_ok [OF archive_store_reliable [of smart] p(5) assms(3,4) ok, where lg = lg]
  obtain h ch' i' lg' w' where r:
    "hash_archive G ?rb ?st ?st (chop_hash_method_name m) ipb ch ?w
       = Some (Return CHOP_OK, archive_text ipb \<lparr>hbf_hash_method = m\<rparr> h @ [10], ch', w')"
    "chop_tree_index_blocks ipb ?rb (logged (hash_indexer G)) hash_index_handle_class ?st ?st ch ((?i, lg), ?w)
       = Some (CHOP_OK, Some h, ch', (i', lg'), w')"
    "wf_hih h" "length (hih_encode h) \<le> 72" "archived_tree lg' h data" "\<exists>xs. lg' = xs @ lg" "hash_ok ?ok G m (i', w')"
    "hash_inv ?ok (\<lambda>s. mp (db s)) G m lg (?i, ?w) \<and> hash_compat lg' \<longrightarrow> hash_inv ?ok (\<lambda>s. mp (db s)) G m lg' (i', w')"
    by (rule run)
  let ?s = "fs_system (chop_file_stream_close (env_system env) (chopper_stream ch'))"
  let ?out = "archive_text ipb \<lparr>hbf_hash_method = m\<rparr> h @ [10]"
  have opts: "archive_queried ?opts" "smart_storage ?opts = smart" "typical_block_size ?opts = block_size"
    "block_indexer_ascii ?opts = chop_hash_method_name m" "block_indexer_class_name ?opts = ascii ''hash_block_indexer''"
    "file_based_store_class_name ?opts = ascii ''gdbm_block_store''"
    by (simp_all add: archive_options_def default_options_def)
  have "do_archive (class_lookup env) (\<lambda>c. archive_methods env c ?rb ?st ?st) (ascii ''hash_block_indexer'')
      (chop_hash_method_name m) ipb ch ?w = Some (Return CHOP_OK, ?out, ch', w')"
    using set_up program_classes(2) setup_lookup(2) [OF assms(1)] r(1) by (simp add: do_archive_def)
  then have cmd: "process_command env ?opts ?st ?st s ?w = Some (Return CHOP_OK, ?out, ?s, w')"
    by (simp add: process_command_def process_archive_def p opts)
  define w2 where "w2 = db_store_destroy ops (if smart then w' else snd (db_close ops w'))"
  have "archiver_main env ?opts dbf s w = Some (0, ?out, ?s, w2)"
    using main_run [OF assms(1) opts(6) d(1) _ cmd] opts(1,2) by (simp add: w2_def)
  moreover have "archive_log env G ops m ?opts dbf s lg w = Some lg'"
    by (simp add: archive_log_def p opts d r(2))
  moreover have "mp (db w2) = mp (db w')"
    using set_up mp_after_close [of mp ops w'] by (simp add: w2_def finish_store(4))
  then have "log_ok G m mp lg' w2 = log_ok G m mp lg' w'" by (rule log_ok_cong)
  moreover have "log_ok G m mp lg ?w = log_ok G m mp lg w" using d(2) by (intro log_ok_cong) simp
  ultimately show thesis using that [of h ?s w2 lg'] r(3-8) ok by (simp add: hash_inv_log_ok)
qed

lemma restore_run:
  assumes "archiver_setup env G junk ops mp unread" "chop_hash_size m \<noteq> 0" "ipb < 2 ^ 64" "log_ok G m mp lg w"
    and "archived_tree lg h data" "wf_hih h" "length (hih_encode h) \<le> 72"
  obtains w' where "archiver_main env (restore_options (archive_text ipb \<lparr>hbf_hash_method = m\<rparr> h)) dbf s w = Some (0, data, s, w')"
    "log_ok G m mp lg w'"
proof -
  let ?str = "archive_text ipb \<lparr>hbf_hash_method = m\<rparr> h" and ?i = "\<lparr>hbi_hash_method = m\<rparr>" and ?st = "generic_db_store ops"
  let ?ok = "\<lambda>s. db_laws ops mp \<and> db_open s"
  note set_up = assms(1) [unfolded archiver_setup_def]
  obtain d where d: "open_file_store env gdbm_class dbf w = (CHOP_OK, \<lparr>db = d, db_open = True\<rparr>)" "mp d = mp (db w)"
    using set_up by blast
  let ?w = "\<lparr>db = d, db_open = True\<rparr>"
  have "log_ok G m mp lg ?w" using assms(4) log_ok_cong [of mp ?w w] d(2) by simp
  then have "hash_inv ?ok (\<lambda>s. mp (db s)) G m lg (?i, ?w)"
    using set_up assms(2) by (simp add: hash_inv_log_ok hash_ok_def)
  from db_hash.hash_restore_ok [OF this assms(5-7,3), of "class_lookup env" junk] set_up obtain w' where r:
    "hash_restore G junk ?st ?st (drop (length archive_classes) (?str @ [0])) (length ?str + 1 - length archive_classes) ?w
     = Some (Return CHOP_OK, data, w')" "hash_inv ?ok (\<lambda>s. mp (db s)) G m lg (?i, w')" by blast
  have "archive_table (class_lookup env)" using set_up by blast
  note s1 = archive_text_read(1) [OF assms(3,6,7) this, where f = "\<lparr>hbf_hash_method = m\<rparr>"]
  have opts: "\<not> archive_queried (restore_options ?str)" "restore_queried (restore_options ?str)"
    "option_argument (restore_options ?str) = Some ?str" "file_based_store_class_name (restore_options ?str) = ascii ''gdbm_block_store''"
    by (simp_all add: restore_options_def default_options_def)
  have st: "archive_store False ops = ?st" by (simp add: archive_store_def)
  have "process_restore env ?st ?st ?str ?w = Some (Return CHOP_OK, data, w')"
    unfolding process_restore_def s1 sum.case prod.case using set_up r(1) by simp
  then have cmd: "process_command env (restore_options ?str) ?st ?st s ?w = Some (Return CHOP_OK, data, s, w')"
    by (simp add: process_command_def opts)
  let ?w2 = "db_store_destroy ops (snd (db_close ops w'))"
  have "archiver_main env (restore_options ?str) dbf s w = Some (0, data, s, ?w2)"
    using main_run [OF assms(1) opts(4) d(1), of False, unfolded st, OF _ cmd] opts(1) by simp
  moreover have "mp (db ?w2) = mp (db w')" using set_up mp_after_close [of mp ops w'] by (simp add: finish_store(4))
  then have "log_ok G m mp lg ?w2" using r(2) log_ok_cong [of mp ?w2 w'] by (simp add: hash_inv_log_ok)
  ultimately show thesis by (rule that)
qed

section \<open>Histories of archives\<close>

text \<open>The states of a database that runs of the program lead to, with the texts printed and the files they
  stand for, and the log of the blocks written: from an empty database, files are archived, with any choppers
  and block sizes, and archives are restored.\<close>

inductive archive_history ::
  "('o, 'd db_store) archiver_env \<Rightarrow> gcry_md \<Rightarrow> 'd db_ops \<Rightarrow> ('d \<Rightarrow> bytes \<rightharpoonup> bytes) \<Rightarrow> ('o \<Rightarrow> int \<Rightarrow> bytes) \<Rightarrow> chop_hash_method \<Rightarrow> bytes
     \<Rightarrow> (bytes \<times> bytes) list \<Rightarrow> hash_index_handle block_log \<Rightarrow> 'd db_store \<Rightarrow> bool"
  for env :: "('o, 'd db_store) archiver_env" and G :: gcry_md and ops :: "'d db_ops" and mp :: "'d \<Rightarrow> bytes \<rightharpoonup> bytes"
    and unread :: "'o \<Rightarrow> int \<Rightarrow> bytes" and m :: chop_hash_method and dbf :: bytes
where
  history_start: "mp (db w) = Map.empty \<Longrightarrow> archive_history env G ops mp unread m dbf [] [] w"
| history_archive: "archive_history env G ops mp unread m dbf fs lg w \<Longrightarrow> 3 \<le> ipb \<Longrightarrow> 10 + (ipb - 1) * 72 < 2 ^ 32
    \<Longrightarrow> file_at (env_system env) unread s path n data \<Longrightarrow> chopper_fits c n block_size data
    \<Longrightarrow> archiver_main env (archive_options m ipb c block_size smart path) dbf s w = Some (0, str @ [10], s', w')
    \<Longrightarrow> archive_log env G ops m (archive_options m ipb c block_size smart path) dbf s lg w = Some lg'
    \<Longrightarrow> archive_history env G ops mp unread m dbf ((str, data) # fs) lg' w'"
| history_restore: "archive_history env G ops mp unread m dbf fs lg w \<Longrightarrow> (str, data) \<in> set fs
    \<Longrightarrow> archiver_main env (restore_options str) dbf s w = Some (status, out, s', w')
    \<Longrightarrow> archive_history env G ops mp unread m dbf fs lg w'"

text \<open>What a text stands for.\<close>

definition archived :: "chop_hash_method \<Rightarrow> hash_index_handle block_log \<Rightarrow> bytes \<Rightarrow> bytes \<Rightarrow> bool" where
  "archived m lg str data \<longleftrightarrow> (\<exists>ipb h. str = archive_text ipb \<lparr>hbf_hash_method = m\<rparr> h \<and> ipb < 2 ^ 64 \<and> wf_hih h
     \<and> length (hih_encode h) \<le> 72 \<and> archived_tree lg h data)"

lemma archived_mono: "archived m lg str data \<Longrightarrow> archived m (xs @ lg) str data"
proof -
  have "archived_tree (xs @ lg) h data" if "archived_tree lg h data" for h
    using that tree_of_mono [of _ _ "set lg" _ h data "set (xs @ lg)"] by auto
  then show "archived m lg str data \<Longrightarrow> archived m (xs @ lg) str data" unfolding archived_def by blast
qed

lemma restore_archived:
  assumes "archiver_setup env G junk ops mp unread" "chop_hash_size m \<noteq> 0" "log_ok G m mp lg w" "archived m lg str data"
  obtains w' where "archiver_main env (restore_options str) dbf s w = Some (0, data, s, w')" "log_ok G m mp lg w'"
proof -
  from assms(4) obtain ipb h where a: "str = archive_text ipb \<lparr>hbf_hash_method = m\<rparr> h" "ipb < 2 ^ 64" "wf_hih h"
    "length (hih_encode h) \<le> 72" "archived_tree lg h data"
    unfolding archived_def by blast
  obtain w' where "archiver_main env (restore_options str) dbf s w = Some (0, data, s, w')" "log_ok G m mp lg w'"
    unfolding a(1) by (rule restore_run [OF assms(1,2) a(2) assms(3) a(5,3,4), of dbf s])
  then show thesis by (rule that)
qed

lemma history_invariant:
  assumes "archive_history env G ops mp unread m dbf fs lg w" "archiver_setup env G junk ops mp unread" "chop_hash_size m \<noteq> 0"
    and "hash_compat lg"
  shows "log_ok G m mp lg w \<and> (\<forall>(str, data) \<in> set fs. archived m lg str data)"
  using assms(1,4)
proof (induction rule: archive_history.induct)
  case (history_start w)
  then show ?case by (simp add: log_ok_def key_inv_def)
next
  case (history_archive fs lg w ipb s path n data c block_size smart str s' w' lg')
  let ?opts = "archive_options m ipb c block_size smart path"
  note run = archive_run [OF assms(2,3) history_archive.hyps(2-5), where lg = lg and smart = smart and dbf = dbf and w = w]
  obtain h s2 w2 lg2 where r: "archiver_main env ?opts dbf s w = Some (0, archive_text ipb \<lparr>hbf_hash_method = m\<rparr> h @ [10], s2, w2)"
    "archive_log env G ops m ?opts dbf s lg w = Some lg2" "wf_hih h" "length (hih_encode h) \<le> 72" "archived_tree lg2 h data"
    "\<exists>xs. lg2 = xs @ lg" "log_ok G m mp lg w \<and> hash_compat lg2 \<longrightarrow> log_ok G m mp lg2 w2"
    by (rule run)
  then have e: "str = archive_text ipb \<lparr>hbf_hash_method = m\<rparr> h" "lg2 = lg'" "w2 = w'"
    using history_archive.hyps(6,7) by simp_all
  obtain xs where xs: "lg' = xs @ lg" using r(6) e(2) by blast
  then have "hash_compat lg" using history_archive.prems reliable_db_hash.idx.compat_append by blast
  from history_archive.IH [OF this] have IH: "log_ok G m mp lg w" "\<forall>(str, data) \<in> set fs. archived m lg str data" by auto
  have "ipb < 2 ^ 64" using history_archive.hyps(3) by simp
  then have "archived m lg' str data" unfolding archived_def e(1) using r(3-5) e(2) by blast
  moreover have "\<forall>(str, data) \<in> set fs. archived m lg' str data"
    using IH(2) archived_mono [of m lg _ _ xs] by (auto simp: xs)
  ultimately show ?case using r(7) IH(1) e history_archive.prems by auto
next
  case (history_restore fs lg w str data s status out s' w')
  then have IH: "log_ok G m mp lg w" "\<forall>(str, data) \<in> set fs. archived m lg str data" by auto
  with history_restore.hyps(2) have "archived m lg str data" by auto
  from restore_archived [OF assms(2,3) IH(1) this, of dbf s] obtain w2 where
    "archiver_main env (restore_options str) dbf s w = Some (0, data, s, w2)" "log_ok G m mp lg w2" .
  with IH(2) history_restore.hyps(3) show ?case by simp
qed



text \<open>C14: An unknown class of block indexers passes for a success: when the class table has no class of the name given
  with \<^verbatim>\<open>--block-indexer-class\<close>, nothing is archived and nothing is printed, and the program exits with status 0.\<close>

theorem unknown_block_indexer_succeeds:
  assumes "archiver_setup env G junk ops mp unread" "file_at (env_system env) unread s path n data" "ipb < 2 ^ 64"
    and "chopper_fits c n block_size data" "class_lookup env nm = None"
  shows "\<exists>s' w'. archiver_main env ((archive_options m ipb c block_size smart path)\<lparr>block_indexer_class_name := nm\<rparr>) dbf s w
      = Some (0, [], s', w') \<and> mp (db w') = mp (db w)"
proof -
  let ?opts = "archive_options m ipb c block_size smart path" and ?st = "archive_store smart ops"
  let ?opts' = "?opts\<lparr>block_indexer_class_name := nm\<rparr>"
  from archive_preparation [OF assms(1-4), of m smart] obtain stream ch s1 where
    "open_source env ?opts s = (Return stream, s1)" "read_indexer env ?opts = Return ipb" "find_chopper_class env ?opts = Return c"
    "chop_chopper_generic_open (chopper_junk env) c stream block_size = Some ch" .
  then have p: "open_source env ?opts' s = (Return stream, s1)" "read_indexer env ?opts' = Return ipb"
    "find_chopper_class env ?opts' = Return c" "chop_chopper_generic_open (chopper_junk env) c stream block_size = Some ch"
    by (simp_all add: open_source_def read_indexer_def find_chopper_class_def cong: option.case_cong if_cong)
  obtain d where d: "open_file_store env gdbm_class dbf w = (CHOP_OK, \<lparr>db = d, db_open = True\<rparr>)" "mp d = mp (db w)"
    using assms(1) unfolding archiver_setup_def by blast
  have opts: "archive_queried ?opts'" "smart_storage ?opts' = smart" "typical_block_size ?opts' = block_size"
    "block_indexer_class_name ?opts' = nm" "file_based_store_class_name ?opts' = ascii ''gdbm_block_store''"
    by (simp_all add: archive_options_def default_options_def)
  let ?s = "fs_system (chop_file_stream_close (env_system env) (chopper_stream ch))"
  have "process_command env ?opts' ?st ?st s \<lparr>db = d, db_open = True\<rparr> = Some (Return CHOP_OK, [], ?s, \<lparr>db = d, db_open = True\<rparr>)"
    using opts by (simp add: process_command_def process_archive_def p do_archive_def assms(5) del: archiver_options.simps)
  note run = main_run [OF assms(1) opts(5) d(1) _ this]
  have "mp (db (snd (db_close ops w2))) = mp (db w2)" for w2
    using assms(1) mp_after_close [of mp ops w2] by (simp add: archiver_setup_def)
  with run d(2) opts(1,2) show ?thesis by (simp add: finish_store(4))
qed

section \<open>A sample run\<close>

text \<open>A system with one file, which holds the byte 7; its state is what is left to read.\<close>

definition sample_system :: "bytes file_system" where
  "sample_system = \<lparr>sys_stat = (\<lambda>s p. Inr \<lparr>st_size = 1, st_blksize = 1\<rparr>), sys_fstat = (\<lambda>s fd. Inr \<lparr>st_size = 1, st_blksize = 1\<rparr>),
     sys_open = (\<lambda>s p. (Inr 3, [7])), sys_close = (\<lambda>s fd. s), full_read = (\<lambda>s fd n. (take n s, 0, drop n s))\<rparr>"

definition sample_env :: "(bytes, (bytes \<times> bytes) list db_store) archiver_env" where
  "sample_env =
    \<lparr>class_lookup = (\<lambda>nm. List.find (\<lambda>c. class_name c = nm)
        ([chop_tree_indexer_class, chop_hash_block_fetcher_class, chop_hash_index_handle_class,
          chop_hash_block_indexer_class, gdbm_class] @ chopper_classes)),
     env_system = sample_system, errno_is_erange = False, chopper_junk = (0, 0),
     archive_methods = (\<lambda>c. hash_archive sample_md), restore_methods = (\<lambda>cs. hash_restore sample_md sample_junk),
     file_store = (\<lambda>c. sample_db), open_file_store = (\<lambda>c f w. (CHOP_OK, \<lparr>db = db w, db_open = True\<rparr>)),
     destroy_file_store = (\<lambda>c. db_store_destroy alist_db)\<rparr>"

abbreviation sample_disk :: "(bytes \<times> bytes) list db_store" where
  "sample_disk \<equiv> \<lparr>db = [], db_open = False\<rparr>"

abbreviation sample_archive :: archiver_options where
  "sample_archive \<equiv> archive_options CHOP_HASH_MD5 3 chop_fixed_size_chopper_class 1 False [1]"

lemma sample_setup: "archiver_setup sample_env sample_md sample_junk alist_db map_of (\<lambda>s fd. s)"
proof -
  have "db_writable alist_db" "\<forall>d. map_of (DB_CLOSE alist_db d) = map_of d" by (simp_all add: db_writable_def alist_db_def)
  moreover have "readable_files sample_system (\<lambda>s fd. s)" by (simp add: readable_files_def sample_system_def)
  ultimately show ?thesis
    using alist_db_laws sample_md_laws
    by (simp add: archiver_setup_def sample_env_def archive_table_def builtin_classes ascii_def
        chop_hash_block_indexer_class_def gdbm_class_def chopper_classes_def chop_fixed_size_chopper_class_def
        chop_whole_stream_chopper_class_def chop_anchor_based_chopper_class_def)
qed

lemma sample_file:
  "file_at (env_system sample_env) (\<lambda>s fd. s) [] [1] 1 [7]" "chopper_fits chop_fixed_size_chopper_class 1 1 [7]"
  "chop_hash_size CHOP_HASH_MD5 \<noteq> 0"
  by (simp_all add: file_at_def sample_env_def sample_system_def chopper_fits_def chopper_classes_def chop_hash_size_def hash_methods_def)

lemma sample_start: "archive_history sample_env sample_md alist_db map_of (\<lambda>s fd. s) CHOP_HASH_MD5 [2] [] [] sample_disk"
  by (rule history_start) simp


theorem unknown_block_indexer_succeeds_witness:
  "\<exists>s' w'. archiver_main sample_env (sample_archive\<lparr>block_indexer_class_name := [0]\<rparr>) [2] [] sample_disk
      = Some (0, [], s', w') \<and> map_of (db w') = map_of []"
proof -
  have "class_lookup sample_env [0] = None"
    by (simp add: sample_env_def builtin_classes ascii_def chop_hash_block_indexer_class_def gdbm_class_def
        chopper_classes_def chop_fixed_size_chopper_class_def chop_whole_stream_chopper_class_def chop_anchor_based_chopper_class_def)
  from unknown_block_indexer_succeeds [OF sample_setup sample_file(1) _ sample_file(2) this, of 3 CHOP_HASH_MD5 False "[2]" sample_disk]
  show ?thesis by simp
qed

lemma sample_log:
  obtains lg where "archive_log sample_env sample_md alist_db CHOP_HASH_MD5 sample_archive [2] [] [] sample_disk = Some lg"
    "hash_compat lg"
proof -
  let ?rb = "any_chopper_read_block (chop_file_stream_read sample_system)"
  let ?stream = "\<lambda>s p. \<lparr>fs_system = s, fs_fd = 3, fs_size = 1, fs_position = p, fs_eventually_close = True,
      fs_preferred_block_size = 1, fs_name = [1]\<rparr>"
  let ?ch = "\<lambda>s p. Fixed_Chopper \<lparr>fc_stream = ?stream s p, fc_block_size = 1, fc_pad_blocks = False\<rparr>"
  have "chop_chopper_read_block ?rb (?ch [7] 0) [] = Some ((CHOP_OK, [7], 1), ?ch [] 1)"
    "chop_chopper_read_block ?rb (?ch [] 1) [] = Some ((CHOP_STREAM_END, [], 0), ?ch [] 1)"
    by (simp_all add: chop_chopper_read_block_def chop_fixed_chopper_read_block_def fixed_fill.simps
        chop_stream_read_def chop_file_stream_read_def sample_system_def)
  note run = sample_run [OF this]
  have prep: "open_source sample_env sample_archive [] = (Return (?stream [7] 0), [7])"
    "read_indexer sample_env sample_archive = Return 3" "find_chopper_class sample_env sample_archive = Return chop_fixed_size_chopper_class"
    "chop_chopper_generic_open (0, 0) chop_fixed_size_chopper_class (?stream [7] 0) 1 = Some (?ch [7] 0)"
  proof -
    from archive_preparation [OF sample_setup sample_file(1) _ sample_file(2), of 3 CHOP_HASH_MD5 False]
    show "read_indexer sample_env sample_archive = Return 3"
      "find_chopper_class sample_env sample_archive = Return chop_fixed_size_chopper_class" by simp_all
    show "open_source sample_env sample_archive [] = (Return (?stream [7] 0), [7])"
      by (simp add: open_source_def archive_options_def default_options_def sample_env_def sample_system_def
        chop_file_stream_open_def file_stream_open_def)
    show "chop_chopper_generic_open (0, 0) chop_fixed_size_chopper_class (?stream [7] 0) 1 = Some (?ch [7] 0)"
      by (simp add: chop_chopper_generic_open_def chop_fs_generic_open_def chop_fixed_size_chopper_init_def)
  qed
  have opts: "smart_storage sample_archive = False" "typical_block_size sample_archive = 1"
    by (simp_all add: archive_options_def default_options_def)
  have env: "env_system sample_env = sample_system" "chopper_junk sample_env = (0, 0)"
    "snd (open_file_store sample_env gdbm_class [2] sample_disk) = \<lparr>db = [], db_open = True\<rparr>"
    by (simp_all add: sample_env_def)
  have "archive_store False alist_db = sample_db" by (simp add: archive_store_def)
  then have "archive_log sample_env sample_md alist_db CHOP_HASH_MD5 sample_archive [2] [] [] sample_disk
     = map_option (\<lambda>(err, h, ch', (i', lg'), w'). lg')
         (chop_tree_index_blocks 3 ?rb (logged (hash_indexer sample_md)) hash_index_handle_class sample_db sample_db (?ch [7] 0)
           ((\<lparr>hbi_hash_method = CHOP_HASH_MD5\<rparr>, []), \<lparr>db = [], db_open = True\<rparr>))"
    unfolding archive_log_def prep opts env by (simp add: prep [unfolded One_nat_def] Let_def)
  with run that show thesis by auto
qed


end
