(* ===== verification/Spec2Isabelle.thy ===== *)
theory Spec2Isabelle
  imports Chop_Base32 Chop_Tree_Roundtrip Chop_Anchor_Roundtrip Chop_CHK_Roundtrip Chop_Buffers Chop_UUID_Roundtrip Chop_Filtered Chop_Store_Tools Chop_Index_Tuple Chop_RPC Chop_LZO_Correct Chop_Archiver_Correct
begin

text \<open>
  A verification of libchop, a C library for storing data streams in block stores: a stream is
  chopped into blocks, each block is indexed and written to a store, and the handles of the blocks
  are gathered in a tree of key blocks, whose topmost handle stands for the stream.  Reading goes the
  other way.  File names below are relative to the root of the repository.

  \<^bold>\<open>The parts and how they interact.\<close>
  \<^item> A \<^emph>\<open>stream\<close> (\<^verbatim>\<open>include/chop/streams.h\<close>) delivers bytes; a \<^emph>\<open>filtered stream\<close> passes those of another
    stream through a filter.
  \<^item> A \<^emph>\<open>chopper\<close> (\<^verbatim>\<open>include/chop/choppers.h\<close>) reads a stream and gives blocks.
  \<^item> A \<^emph>\<open>block store\<close> (\<^verbatim>\<open>include/chop/stores.h\<close>) keeps blocks under keys: in a database, in a directory, on
    a server, or behind a proxy that filters, counts, logs or skips what is already there.
  \<^item> A \<^emph>\<open>block indexer\<close> (\<^verbatim>\<open>include/chop/block-indexers.h\<close>) writes a block to a store under a key it chooses and
    returns a handle, its \<^emph>\<open>fetcher\<close> reads the block of a handle.
  \<^item> The \<^emph>\<open>tree indexer\<close> (\<^verbatim>\<open>src/src/indexer-tree.c\<close>) drives a chopper and a block indexer to store a stream, and
    gives a stream that reads it back.
  \<^item> An \<^emph>\<open>index tuple\<close> (\<^verbatim>\<open>src/src/indexers.c\<close>) is the text that names an archived stream.
  \<^item> Underneath are the object system, the growable buffers with their pool, the codecs for keys, the
    ciphers and the compressing filters.

  \<^bold>\<open>How the code is modelled.\<close>
  A byte is an \<^typ>\<open>8 word\<close>, a buffer the list of its bytes; sizes are natural numbers with the
  wrap-around written out where the code can reach it, and words where it computes with bits.  Error
  codes are the datatype of \<^verbatim>\<open>include/chop/errors.h\<close>.  An object is a record of its fields, its method table
  a record of functions over the state it changes; the functions of the headers that dispatch through
  the table are definitions too.  The result \<^term>\<open>None\<close> means that a call does not return, because an
  assertion fails, memory is overrun or a loop does not end.  Loops that may not end are
  \<^theory_text>\<open>partial_function (option)\<close>: no fuel is used, and theorems that a call returns state \<^term>\<open>Some\<close> of
  its result.  Contracts between parts are locales, and their laws are proved for the definitions of the
  providers by interpretations.

  \<^bold>\<open>Theories, the code they model and what they show.\<close>
  \<^item> \<open>Chop_Prelude\<close>: bytes, error codes, C string functions and integers in memory; shared lemmas.
  \<^item> \<open>Chop_Base32\<close> (\<^verbatim>\<open>src/src/base32.c\<close>, the hexadecimal codec of \<^verbatim>\<open>src/src/chop.c\<close>): the encoder, a loop jumped
    into, computes the encoding of RFC 4648, and decoding undoes encoding.
  \<^item> \<open>Chop_Buffers\<close> (\<^verbatim>\<open>src/src/buffers.c\<close>, \<^verbatim>\<open>include/chop/buffers.h\<close>): buffers over a heap and an allocator that may
    fail refine lists of bytes; the pool keeps its invariant.
  \<^item> \<open>Chop_Objects\<close> (\<^verbatim>\<open>src/src/chop.c\<close>, \<^verbatim>\<open>include/chop/objects.h\<close>): inheritance, construction, copy, destruction.
  \<^item> \<open>Chop_Streams\<close> (\<^verbatim>\<open>src/src/stream-mem.c\<close>, \<^verbatim>\<open>src/src/stream-file.c\<close>): the contract \<open>byte_stream\<close>.
  \<^item> \<open>Chop_Choppers\<close> (\<^verbatim>\<open>src/src/chopper-fixed-size.c\<close>, \<^verbatim>\<open>src/src/chopper-whole-stream.c\<close>): the contract
    \<open>block_source\<close>, and that the choppers meet it for every \<open>byte_stream\<close>.  \<open>Chop_Anchor\<close>, \<open>Chop_Anchor_Correct\<close>
    (\<^verbatim>\<open>src/src/chopper-anchor-based.c\<close>): the same for the chopper that cuts where a rolling fingerprint
    says so; it cuts where a search from scratch does, and two streams that share a tail are cut alike
    after a common anchor.
  \<^item> \<open>Chop_Stores\<close> (\<^verbatim>\<open>src/src/store-generic-db.c\<close>, \<^verbatim>\<open>store-gdbm.c\<close>, \<^verbatim>\<open>store-smart.c\<close>, \<^verbatim>\<open>store-stat.c\<close>, \<^verbatim>\<open>store-dummy.c\<close>):
    the contract \<open>map_store\<close> of a store that is a map of blocks, with its extensions \<open>replacing_store\<close> and
    \<open>reliable_store\<close>; databases meet it, and the proxies keep it.  \<open>Chop_FS\<close> (\<^verbatim>\<open>src/src/store-fs.c\<close>): a directory
    of files refines a map, for keys whose file name fits, while the disk has room; \<open>Chop_FS_Iterator\<close>: the first
    iteration over it visits every block once.
  \<^item> \<open>Chop_Store_Tools\<close> (\<^verbatim>\<open>utils/chop-store-convert.c\<close>, \<^verbatim>\<open>utils/chop-store-list.c\<close>): the contracts \<open>traversed_store\<close> and
    \<open>written_store\<close>, which databases and directories meet; conversion copies all blocks, listing prints them.
  \<^item> \<open>Chop_RPC\<close> (\<^verbatim>\<open>src/src/store-sunrpc.c\<close>, \<^verbatim>\<open>utils/chop-block-server.c\<close>): client and server together refine a map,
    also when requests are repeated; what the options of the server protect.
  \<^item> \<open>Chop_Filters\<close>, \<open>Chop_Filters_Correct\<close> (\<^verbatim>\<open>src/src/filters.c\<close>, \<^verbatim>\<open>src/src/filter-zip-push-pull.c\<close>, the zlib and bzip2
    filters), \<open>Chop_LZO\<close>, \<open>Chop_LZO_Correct\<close> (the LZO filters): a filter computes on a whole buffer what its
    library computes, whatever the sizes of its own buffers; \<open>Chop_Filtered\<close> (\<^verbatim>\<open>src/src/store-filtered.c\<close>,
    \<^verbatim>\<open>src/src/stream-filtered.c\<close>): the contract \<open>block_filter\<close>, and stores and streams behind filters.
  \<^item> \<open>Chop_Block_Indexers\<close> (\<^verbatim>\<open>include/chop/block-indexers.h\<close>): the contracts \<open>handle_codec\<close> and \<open>block_indexing\<close>, over a
    log of the blocks written, which exists in proofs only.  \<open>Chop_Hash\<close> (\<^verbatim>\<open>src/src/block-indexer-hash.c\<close>,
    \<^verbatim>\<open>src/src/hash.c\<close>), \<open>Chop_Integer\<close> (\<^verbatim>\<open>src/src/block-indexer-integer.c\<close>), \<open>Chop_UUID\<close>
    (\<^verbatim>\<open>src/src/block-indexer-uuid.c\<close>), \<open>Chop_Cipher\<close> (\<^verbatim>\<open>src/src/cipher.c\<close>), \<open>Chop_CHK\<close>, \<open>Chop_CHK_Correct\<close>,
    \<open>Chop_CHK_Text\<close> (\<^verbatim>\<open>src/src/block-indexer-chk.c\<close>): what is fetched is the block that was indexed, a block
    that was tampered with is not returned, handles and configurations are read back.
  \<^item> \<open>Chop_Tree\<close>, \<open>Chop_Tree_Stream\<close> (\<^verbatim>\<open>src/src/indexer-tree.c\<close>): key blocks, the tree of key blocks, and the
    stream over it.  \<open>Chop_Tree_Writer\<close>: indexing terminates and leaves a tree for the blocks of the
    stream.  \<open>Chop_Tree_Reader\<close>: the stream over such a tree is a \<open>byte_stream\<close> of their bytes.
    \<open>Chop_Tree_Erase\<close>: the log of the proofs changes nothing.  \<open>Chop_Tree_Roundtrip\<close>, \<open>Chop_Anchor_Roundtrip\<close>,
    \<open>Chop_CHK_Roundtrip\<close>, \<open>Chop_UUID_Roundtrip\<close>: what is stored is read back, for each block indexer.
  \<^item> \<open>Chop_Index_Tuple\<close> (\<^verbatim>\<open>src/src/indexers.c\<close>): the text of an archive is read back.
  \<^item> \<open>Chop_Archiver\<close> (\<^verbatim>\<open>utils/chop-archiver.c\<close>, \<^verbatim>\<open>utils/zip-helper.c\<close>, the destructors of stores): options, the commands
    that archive and restore a file, \<^verbatim>\<open>main\<close>.  \<open>Chop_Archiver_Correct\<close>: histories of runs as a step relation on
    the database, and by rule induction that every archive in it can be restored.

  \<^bold>\<open>Parameters.\<close>
  Code outside the repository is an argument of the definitions that use it, and its documented behaviour
  a hypothesis of the theorems: the hash functions and ciphers of libgcrypt (\<open>md_laws\<close> and the laws of
  \<open>Chop_Cipher\<close>), zlib, bzip2 and LZO, the database libraries (\<open>db_laws\<close>), libuuid, the memory allocator, the
  RPC library, which may lose or repeat a request, the calls of the system, \<^verbatim>\<open>full_read\<close> of gnulib and the class table that gperf
  generates.  Each hypothesis is shown to hold of a concrete instance where a theorem uses it.  That
  no two of the blocks written collide under the hash is a hypothesis on the run, not on the hash
  function.

  \<^bold>\<open>Bounds.\<close>
  The round trips ask for at least three indexes per block, since with fewer the tree indexer does not
  return; for blocks below \<open>2 ^ 32\<close> bytes, the field that holds their size; and for at most \<open>2 ^ 64\<close>
  blocks.  They hold for non-empty streams: indexing an empty one does not give a handle.

  \<^bold>\<open>Not modelled.\<close>
  The Berkeley DB and D-Bus stores and servers, the TLS transport and service discovery are glue over
  libraries that carry their behaviour.  Logs only format messages.  Opening of databases and
  sockets is system calls, and freeing of memory has no effect in the model, except for buffers.  The
  debugging tracker of objects, the code that GNU Lightning generates for the anchor-based chopper,
  the Guile bindings, the other tools, the pair of default databases and the proxies that some options of
  \<^verbatim>\<open>chop-archiver\<close> ask for, and the tests are left out.
\<close>

end
